(* ===== verification/Prelude.thy ===== *)
theory Prelude
  imports Main "HOL-Library.Word"
begin

text \<open>
  Shared vocabulary of the development: the machine-integer types of \<^verbatim>\<open>types.h\<close>, the error codes
  of \<^verbatim>\<open>lib.hh\<close>, the treatment of kernel assertions, and the list and word lemmas several components use.

  A kernel operation that can fail an \<^verbatim>\<open>assert\<close> (or call \<^verbatim>\<open>panic\<close>) is a function into
  \<open>'a option\<close>: \<open>None\<close> is the halted machine. Error codes that the operation returns to its caller
  are ordinary values of type \<open>int\<close>. Logging under the \<^verbatim>\<open>*_PARANOIA\<close> constants, all 0 in
  \<^verbatim>\<open>kernel.hh\<close>, is dead code and is not modelled; spinlocks are modelled by making each locked
  section one step.
\<close>

type_synonym u8 = "8 word"
type_synonym u16 = "16 word"
type_synonym u32 = "32 word"
type_synonym u64 = "64 word"

named_theorems errno \<open>values of the error codes of lib.hh\<close>
named_theorems kconst \<open>values of the size constants of the kernel headers\<close>

text \<open>\<^verbatim>\<open>assert(b)\<close> followed by the rest of the function.\<close>

abbreviation check :: "bool \<Rightarrow> 'a option \<Rightarrow> 'a option" where
  "check b k \<equiv> (if b then k else None)"

subsection \<open>Error codes\<close>

definition E_AGAIN :: int where [errno]: "E_AGAIN = -11"
definition E_BADF :: int where [errno]: "E_BADF = -9"
definition E_FAULT :: int where [errno]: "E_FAULT = -14"
definition E_FBIG :: int where [errno]: "E_FBIG = -27"
definition E_INTR :: int where [errno]: "E_INTR = -4"
definition E_INVAL :: int where [errno]: "E_INVAL = -22"
definition E_MFILE :: int where [errno]: "E_MFILE = -24"
definition E_NAMETOOLONG :: int where [errno]: "E_NAMETOOLONG = -36"
definition E_NOENT :: int where [errno]: "E_NOENT = -2"
definition E_NOMEM :: int where [errno]: "E_NOMEM = -12"
definition E_NOSPC :: int where [errno]: "E_NOSPC = -28"
definition E_PERM :: int where [errno]: "E_PERM = -1"
definition E_PIPE :: int where [errno]: "E_PIPE = -32"
definition E_SPIPE :: int where [errno]: "E_SPIPE = -29"
definition E_TPIPE :: int where [errno]: "E_TPIPE = -15"
definition E_BADCONN :: int where [errno]: "E_BADCONN = -31"
definition E_SOCKTIMEOUT :: int where [errno]: "E_SOCKTIMEOUT = -33"
definition E_SOCKTAKEN :: int where [errno]: "E_SOCKTAKEN = -37"
definition E_MINERROR :: int where [errno]: "E_MINERROR = -100"

definition PAGESIZE :: nat where [kconst]: "PAGESIZE = 4096"

subsection \<open>Memory copies\<close>

text \<open>
  \<^verbatim>\<open>memcpy(buf + i, xs, n)\<close> with \<^verbatim>\<open>n\<close> the length of \<open>xs\<close>, for a destination with room.
\<close>

definition blit :: "'a list \<Rightarrow> nat \<Rightarrow> 'a list \<Rightarrow> 'a list" where
  "blit buf i xs = take i buf @ xs @ drop (i + length xs) buf"

lemma length_blit [simp]: "i + length xs \<le> length buf \<Longrightarrow> length (blit buf i xs) = length buf"
  by (simp add: blit_def)

lemma nth_blit:
  "i + length xs \<le> length buf \<Longrightarrow> k < length buf \<Longrightarrow>
   blit buf i xs ! k = (if i \<le> k \<and> k < i + length xs then xs ! (k - i) else buf ! k)"
  by (auto simp: blit_def nth_append)

subsection \<open>Lists\<close>

lemma ball_upt_conj: "(\<forall>i \<in> set [0..<n]. P i \<and> Q i) \<longleftrightarrow> (\<forall>i < n. P i) \<and> (\<forall>i < n. Q i)"
  by auto

lemma hd_append_cases: "hd (xs @ [y]) = (if xs = [] then y else hd xs)"
  by (cases xs) auto

lemma length_filter_update:
  "t < length xs \<Longrightarrow> length (filter P (xs[t := x])) + (if P (xs ! t) then 1 else 0) = length (filter P xs) + (if P x then 1 else 0)"
proof -
  assume t: "t < length xs"
  have "length (filter P (xs[t := x])) = length (filter P (take t xs)) + (if P x then 1 else 0) + length (filter P (drop (Suc t) xs))"
    using t by (simp add: upd_conv_take_nth_drop)
  moreover have "length (filter P xs) = length (filter P (take t xs)) + (if P (xs ! t) then 1 else 0) + length (filter P (drop (Suc t) xs))"
    by (subst id_take_nth_drop [OF t]) simp
  ultimately show ?thesis by simp
qed

end
