(* ===== verification/KList.thy ===== *)
theory KList
  imports Prelude
begin

text \<open>
  The intrusive doubly linked lists of \<^verbatim>\<open>k-list.hh\<close>, on an explicit heap. A \<^verbatim>\<open>list_links\<close>
  lives at an address of type \<open>'a\<close>; the heap maps every address to its two link fields, and
  \<^verbatim>\<open>nullptr\<close> is \<open>None\<close>. A \<^verbatim>\<open>list<T, member>\<close> is the address of its \<^verbatim>\<open>head_\<close>, and
  an element is identified with the address of its \<^verbatim>\<open>member\<close> links (\<^verbatim>\<open>from_links\<close> and
  \<open>->*member\<close> convert between the two without reading memory). The lemmas show that
  every operation but \<^verbatim>\<open>insert\<close> refines the sequence operation of its name.
\<close>

record 'a list_links =
  lnext :: "'a option"
  lprev :: "'a option"

type_synonym 'a lheap = "'a \<Rightarrow> 'a list_links"

definition ll_set_next :: "'a lheap \<Rightarrow> 'a \<Rightarrow> 'a option \<Rightarrow> 'a lheap" where
  "ll_set_next h x v = h(x := (h x)\<lparr>lnext := v\<rparr>)"

definition ll_set_prev :: "'a lheap \<Rightarrow> 'a \<Rightarrow> 'a option \<Rightarrow> 'a lheap" where
  "ll_set_prev h x v = h(x := (h x)\<lparr>lprev := v\<rparr>)"

subsection \<open>Operations of \<^verbatim>\<open>list_links\<close>\<close>

definition ll_reset :: "'a lheap \<Rightarrow> 'a \<Rightarrow> 'a lheap" where
  "ll_reset h x = ll_set_next (ll_set_prev h x None) x None"

definition ll_is_linked :: "'a lheap \<Rightarrow> 'a \<Rightarrow> bool" where
  "ll_is_linked h x \<longleftrightarrow> lnext (h x) \<noteq> None"

definition ll_empty :: "'a lheap \<Rightarrow> 'a \<Rightarrow> bool" where
  "ll_empty h x \<longleftrightarrow> \<not> ll_is_linked h x"

definition ll_erase :: "'a lheap \<Rightarrow> 'a \<Rightarrow> 'a lheap option" where
  "ll_erase h x =
     check (lnext (h x) \<noteq> None \<and> lprev (h x) \<noteq> None)
      (let h1 = ll_set_next h (the (lprev (h x))) (lnext (h x));
           h2 = ll_set_prev h1 (the (lnext (h1 x))) (lprev (h1 x))
       in Some (ll_reset h2 x))"

definition ll_insert_before :: "'a lheap \<Rightarrow> 'a \<Rightarrow> 'a \<Rightarrow> 'a lheap option" where
  "ll_insert_before h x position =
     check (lnext (h position) \<noteq> None \<and> lprev (h position) \<noteq> None)
      (check (lnext (h x) = None \<and> lprev (h x) = None)
        (let h1 = ll_set_prev h x (lprev (h position));
             h2 = ll_set_next h1 x (Some position);
             h3 = ll_set_next h2 (the (lprev (h2 position))) (Some x)
         in Some (ll_set_prev h3 position (Some x))))"

subsection \<open>Operations of \<^verbatim>\<open>list\<close>; the first address is that of \<^verbatim>\<open>head_\<close>\<close>

definition list_reset :: "'a lheap \<Rightarrow> 'a \<Rightarrow> 'a lheap" where
  "list_reset h head = ll_set_next (ll_set_prev h head (Some head)) head (Some head)"

definition list_empty :: "'a lheap \<Rightarrow> 'a \<Rightarrow> bool" where
  "list_empty h head \<longleftrightarrow> lnext (h head) = Some head"

definition list_front :: "'a lheap \<Rightarrow> 'a \<Rightarrow> 'a option" where
  "list_front h head = (if list_empty h head then None else lnext (h head))"

definition list_back :: "'a lheap \<Rightarrow> 'a \<Rightarrow> 'a option" where
  "list_back h head = (if list_empty h head then None else lprev (h head))"

definition list_next :: "'a lheap \<Rightarrow> 'a \<Rightarrow> 'a \<Rightarrow> 'a option" where
  "list_next h head x = (if lnext (h x) = Some head then None else lnext (h x))"

definition list_prev :: "'a lheap \<Rightarrow> 'a \<Rightarrow> 'a \<Rightarrow> 'a option" where
  "list_prev h head x = (if lprev (h x) = Some head then None else lprev (h x))"

definition list_push_front :: "'a lheap \<Rightarrow> 'a \<Rightarrow> 'a \<Rightarrow> 'a lheap option" where
  "list_push_front h head x =
     (case lnext (h head) of None \<Rightarrow> None | Some p \<Rightarrow> ll_insert_before h x p)"

definition list_erase :: "'a lheap \<Rightarrow> 'a \<Rightarrow> 'a \<Rightarrow> 'a lheap option" where
  "list_erase h head x = ll_erase h x"

definition list_pop_front :: "'a lheap \<Rightarrow> 'a \<Rightarrow> ('a option \<times> 'a lheap) option" where
  "list_pop_front h head =
     (case list_front h head of
        None \<Rightarrow> Some (None, h)
      | Some x \<Rightarrow> map_option (\<lambda>h'. (Some x, h')) (list_erase h head x))"

definition list_push_back :: "'a lheap \<Rightarrow> 'a \<Rightarrow> 'a \<Rightarrow> 'a lheap option" where
  "list_push_back h head x = ll_insert_before h x head"

definition list_pop_back :: "'a lheap \<Rightarrow> 'a \<Rightarrow> ('a option \<times> 'a lheap) option" where
  "list_pop_back h head =
     (case list_back h head of
        None \<Rightarrow> Some (None, h)
      | Some x \<Rightarrow> map_option (\<lambda>h'. (Some x, h')) (list_erase h head x))"

text \<open>
  \<^verbatim>\<open>list::insert\<close> selects \<^verbatim>\<open>&head_\<close> when \<^verbatim>\<open>position\<close> is non-null and forms the address
  of a member of a null object otherwise; the model has no memory there, so that branch is \<open>None\<close>.
\<close>

definition list_insert :: "'a lheap \<Rightarrow> 'a \<Rightarrow> 'a option \<Rightarrow> 'a \<Rightarrow> 'a lheap option" where
  "list_insert h head position x =
     (case position of Some p \<Rightarrow> ll_insert_before h x head | None \<Rightarrow> None)"

definition list_swap :: "'a lheap \<Rightarrow> 'a \<Rightarrow> 'a \<Rightarrow> 'a lheap option" where
  "list_swap h head other =
     (case (lnext (h head), lprev (h head)) of
        (Some p1, Some p2) \<Rightarrow>
          (let h1 = ll_set_prev (ll_set_next h p2 (Some other)) p1 (Some other) in
           case (lnext (h1 other), lprev (h1 other)) of
             (Some q1, Some q2) \<Rightarrow>
               (let h2 = ll_set_prev (ll_set_next h1 q2 (Some head)) q1 (Some head);
                    x = h2 head;
                    h3 = h2(head := h2 other)
                in Some (h3(other := x)))
           | _ \<Rightarrow> None)
      | _ \<Rightarrow> None)"

text \<open>
  The drain loop every queue of the kernel uses, \<^verbatim>\<open>while (auto w = q_.pop_front()) ...\<close>, cut off
  after \<open>n\<close> iterations; it returns the elements popped and the heap after them.
\<close>

fun pop_upto :: "('h \<Rightarrow> ('a option \<times> 'h) option) \<Rightarrow> nat \<Rightarrow> 'h \<Rightarrow> ('a list \<times> 'h) option" where
  "pop_upto pop 0 h = Some ([], h)"
| "pop_upto pop (Suc n) h =
     (case pop h of
        None \<Rightarrow> None
      | Some (None, h') \<Rightarrow> Some ([], h')
      | Some (Some x, h') \<Rightarrow> map_option (\<lambda>(xs, h''). (x # xs, h'')) (pop_upto pop n h'))"

subsection \<open>The abstraction: a circular chain through the head\<close>

fun seg :: "'a lheap \<Rightarrow> 'a \<Rightarrow> 'a list \<Rightarrow> 'a \<Rightarrow> bool" where
  "seg h a [] b \<longleftrightarrow> lnext (h a) = Some b \<and> lprev (h b) = Some a"
| "seg h a (x # xs) b \<longleftrightarrow> lnext (h a) = Some x \<and> lprev (h x) = Some a \<and> seg h x xs b"

definition dll :: "'a lheap \<Rightarrow> 'a \<Rightarrow> 'a list \<Rightarrow> bool" where
  "dll h head xs \<longleftrightarrow> seg h head xs head \<and> distinct (head # xs)"

definition unlinked :: "'a lheap \<Rightarrow> 'a \<Rightarrow> bool" where
  "unlinked h x \<longleftrightarrow> lnext (h x) = None \<and> lprev (h x) = None"

lemmas ll_defs = ll_set_next_def ll_set_prev_def ll_reset_def

lemma next_set_next [simp]: "lnext (ll_set_next h x v y) = (if y = x then v else lnext (h y))"
  by (simp add: ll_set_next_def)

lemma prev_set_next [simp]: "lprev (ll_set_next h x v y) = lprev (h y)"
  by (simp add: ll_set_next_def)

lemma next_set_prev [simp]: "lnext (ll_set_prev h x v y) = lnext (h y)"
  by (simp add: ll_set_prev_def)

lemma prev_set_prev [simp]: "lprev (ll_set_prev h x v y) = (if y = x then v else lprev (h y))"
  by (simp add: ll_set_prev_def)

lemma links_reset [simp]:
  "lnext (ll_reset h x y) = (if y = x then None else lnext (h y))"
  "lprev (ll_reset h x y) = (if y = x then None else lprev (h y))"
  by (simp_all add: ll_reset_def)

lemma seg_append: "seg h a (xs @ y # ys) b \<longleftrightarrow> seg h a xs y \<and> seg h y ys b"
  by (induction xs arbitrary: a) auto

lemma seg_next: "seg h a xs b \<Longrightarrow> lnext (h a) = Some (hd (xs @ [b]))"
  by (cases xs) auto

lemma seg_prev: "seg h a xs b \<Longrightarrow> lprev (h b) = Some (last (a # xs))"
  by (induction xs arbitrary: a) auto

lemma seg_cong:
  assumes "\<And>y. y \<in> set (a # xs) \<Longrightarrow> lnext (h' y) = lnext (h y)"
    and "\<And>y. y \<in> set (b # xs) \<Longrightarrow> lprev (h' y) = lprev (h y)"
  shows "seg h' a xs b = seg h a xs b"
  using assms by (induction xs arbitrary: a) auto

lemma seg_linked:
  "seg h a xs b \<Longrightarrow> y \<in> set xs \<Longrightarrow> lnext (h y) \<noteq> None \<and> lprev (h y) \<noteq> None"
proof (induction xs arbitrary: a)
  case (Cons x xs)
  then show ?case using seg_next [of h x xs b] by auto
qed simp

lemma dll_linked:
  assumes "dll h head xs" "y \<in> set (head # xs)"
  shows "lnext (h y) \<noteq> None \<and> lprev (h y) \<noteq> None"
  using assms seg_next seg_prev seg_linked unfolding dll_def by fastforce

text \<open>Removing the middle of a chain, and inserting into it.\<close>

lemma seg_remove:
  assumes "seg h a ys x" "seg h x zs b" "distinct (ys @ zs)" "a \<notin> set ys \<union> set zs"
    "b \<notin> set ys \<union> set zs" "x \<notin> insert a (insert b (set ys \<union> set zs))"
    "\<And>y. y \<noteq> x \<Longrightarrow> lnext (h' y) = (if y = last (a # ys) then lnext (h x) else lnext (h y))"
    "\<And>y. y \<noteq> x \<Longrightarrow> lprev (h' y) = (if y = hd (zs @ [b]) then lprev (h x) else lprev (h y))"
  shows "seg h' a (ys @ zs) b"
  using assms
proof (induction ys arbitrary: a)
  case Nil
  show ?case
  proof (cases zs)
    case Nil
    with Nil.prems show ?thesis by auto
  next
    case (Cons z zs')
    have "seg h' z zs' b = seg h z zs' b"
      using Nil.prems Cons by (intro seg_cong) (auto, metis+)
    with Nil.prems Cons show ?thesis by auto
  qed
next
  case (Cons y ys)
  have "seg h' y (ys @ zs) b"
    by (rule Cons.IH) (use Cons.prems in \<open>auto split: if_splits\<close>)
  moreover have "y \<noteq> hd (zs @ [b])"
    using Cons.prems by (cases zs) auto
  moreover have "a \<noteq> last (y # ys)"
    using Cons.prems(4) last_in_set [of "y # ys"] by auto
  ultimately show ?case using Cons.prems by auto
qed

lemma seg_insert:
  assumes "seg h a (ys @ zs) b" "distinct (ys @ zs)" "a \<notin> set ys \<union> set zs"
    "b \<notin> set ys \<union> set zs" "x \<notin> insert a (insert b (set ys \<union> set zs))"
    "\<And>y. lnext (h' y) = (if y = last (a # ys) then Some x
        else if y = x then Some (hd (zs @ [b])) else lnext (h y))"
    "\<And>y. lprev (h' y) = (if y = hd (zs @ [b]) then Some x
        else if y = x then Some (last (a # ys)) else lprev (h y))"
  shows "seg h' a (ys @ x # zs) b"
  using assms
proof (induction ys arbitrary: a)
  case Nil
  show ?case
  proof (cases zs)
    case Nil
    with Nil.prems show ?thesis by auto
  next
    case (Cons z zs')
    have "seg h' z zs' b = seg h z zs' b"
      using Nil.prems Cons by (intro seg_cong) auto
    with Nil.prems Cons show ?thesis by auto
  qed
next
  case (Cons y ys)
  have "seg h' y (ys @ x # zs) b"
    by (rule Cons.IH) (use Cons.prems in \<open>auto split: if_splits\<close>)
  moreover have "y \<noteq> hd (zs @ [b])"
    using Cons.prems by (cases zs) auto
  moreover have "a \<noteq> last (y # ys)"
    using Cons.prems(3) last_in_set [of "y # ys"] by auto
  ultimately show ?case using Cons.prems by auto
qed

subsection \<open>Refinement of the operations\<close>

text \<open>Every operation keeps a chain that shares no node with it (\<open>frame\<close>).\<close>

lemma dll_cong:
  assumes "\<And>y. y \<in> set (head # xs) \<Longrightarrow> h' y = h y"
  shows "dll h' head xs = dll h head xs"
  using assms seg_cong [of head xs h' h head] by (auto simp: dll_def)

lemma ll_erase_links:
  assumes "ll_erase h x = Some h'" "lprev (h x) = Some p" "lnext (h x) = Some n" "p \<noteq> x" "n \<noteq> x"
  shows "lnext (h' y) = (if y = x then None else if y = p then Some n else lnext (h y))"
    and "lprev (h' y) = (if y = x then None else if y = n then Some p else lprev (h y))"
  using assms by (auto simp: ll_erase_def Let_def)

lemma ll_insert_before_links:
  assumes "ll_insert_before h x pos = Some h'" "lprev (h pos) = Some p" "pos \<noteq> x" "p \<noteq> x"
  shows "lnext (h' y) = (if y = p then Some x else if y = x then Some pos else lnext (h y))"
    and "lprev (h' y) = (if y = pos then Some x else if y = x then Some p else lprev (h y))"
  using assms by (auto simp: ll_insert_before_def Let_def split: if_splits)

lemma links_eqI:
  fixes h h' :: "'a lheap"
  shows "lnext (h' y) = lnext (h y) \<Longrightarrow> lprev (h' y) = lprev (h y) \<Longrightarrow> h' y = h y"
  by (cases "h y", cases "h' y") auto

lemma dll_erase:
  assumes d: "dll h head (ys @ x # zs)"
  shows "\<exists>h'. ll_erase h x = Some h' \<and> dll h' head (ys @ zs) \<and> unlinked h' x
    \<and> (\<forall>y. y \<notin> set (head # ys @ x # zs) \<longrightarrow> h' y = h y)"
proof -
  let ?p = "last (head # ys)" and ?n = "hd (zs @ [head])"
  have sg: "seg h head ys x" "seg h x zs head" and ds: "distinct (head # ys @ x # zs)"
    using d by (auto simp: dll_def seg_append)
  have pn: "lprev (h x) = Some ?p" "lnext (h x) = Some ?n"
    using sg by (auto dest: seg_prev seg_next simp del: last.simps)
  have pin: "?p \<in> set (head # ys)" by (rule last_in_set) simp
  have nin: "?n \<in> set (zs @ [head])" by (rule hd_in_set) simp
  have neq: "?p \<noteq> x" "?n \<noteq> x"
    using ds pin nin by auto
  obtain h' where e: "ll_erase h x = Some h'"
    using pn by (auto simp: ll_erase_def Let_def)
  note lk = ll_erase_links [OF e pn neq]
  have "seg h' head (ys @ zs) head"
    by (rule seg_remove [OF sg]) (use ds lk pn in \<open>auto simp del: last.simps\<close>)
  then have "dll h' head (ys @ zs)" using ds by (auto simp: dll_def)
  moreover have "unlinked h' x" by (simp add: unlinked_def lk)
  moreover have "h' y = h y" if "y \<notin> set (head # ys @ x # zs)" for y
    using that pin nin by (intro links_eqI) (auto simp: lk simp del: last.simps)
  ultimately show ?thesis using e by blast
qed

lemma dll_insert_before:
  assumes d: "dll h head (ys @ zs)" and u: "unlinked h x"
  shows "\<exists>h'. ll_insert_before h x (hd (zs @ [head])) = Some h' \<and> dll h' head (ys @ x # zs)
    \<and> (\<forall>y. y \<notin> set (head # ys @ x # zs) \<longrightarrow> h' y = h y)"
proof -
  let ?p = "last (head # ys)" and ?n = "hd (zs @ [head])"
  have sg: "seg h head (ys @ zs) head" and ds: "distinct (head # ys @ zs)"
    using d by (auto simp: dll_def)
  have pin: "?p \<in> set (head # ys)" by (rule last_in_set) simp
  have nin: "?n \<in> set (zs @ [head])" by (rule hd_in_set) simp
  have xn: "x \<notin> set (head # ys @ zs)"
    using dll_linked [OF d, of x] u by (auto simp: unlinked_def)
  have neq: "?n \<noteq> x" "?p \<noteq> x" using xn pin nin by auto
  have pp: "lprev (h ?n) = Some ?p"
  proof (cases zs)
    case Nil
    then show ?thesis using seg_prev [OF sg] by simp
  next
    case (Cons z zs')
    then show ?thesis using sg by (auto simp: seg_append dest: seg_prev)
  qed
  have "lnext (h ?n) \<noteq> None"
    using dll_linked [OF d, of ?n] nin by auto
  then obtain h' where e: "ll_insert_before h x ?n = Some h'"
    using pp u by (auto simp: ll_insert_before_def Let_def unlinked_def)
  note lk = ll_insert_before_links [OF e pp neq]
  have "seg h' head (ys @ x # zs) head"
    by (rule seg_insert [OF sg]) (use ds xn lk in \<open>auto simp del: last.simps\<close>)
  then have "dll h' head (ys @ x # zs)" using ds xn by (auto simp: dll_def)
  moreover have "h' y = h y" if "y \<notin> set (head # ys @ x # zs)" for y
    using that pin nin by (intro links_eqI) (auto simp: lk simp del: last.simps)
  ultimately show ?thesis using e by blast
qed

text \<open>The readers: \<^verbatim>\<open>empty\<close>, \<^verbatim>\<open>front\<close>, \<^verbatim>\<open>back\<close>, \<^verbatim>\<open>next\<close>, \<^verbatim>\<open>prev\<close>.\<close>

lemma dll_empty: "dll h head xs \<Longrightarrow> list_empty h head \<longleftrightarrow> xs = []"
  by (cases xs) (auto simp: dll_def list_empty_def)

lemma dll_front: "dll h head xs \<Longrightarrow> list_front h head = (if xs = [] then None else Some (hd xs))"
  by (cases xs) (auto simp: dll_def list_front_def list_empty_def)

lemma dll_back: "dll h head xs \<Longrightarrow> list_back h head = (if xs = [] then None else Some (last xs))"
  using dll_empty [of h head xs] seg_prev [of h head xs head]
  by (auto simp: dll_def list_back_def)

lemma dll_next:
  "dll h head (ys @ x # zs) \<Longrightarrow> list_next h head x = (if zs = [] then None else Some (hd zs))"
  by (cases zs) (auto simp: dll_def list_next_def seg_append)

lemma dll_prev:
  assumes "dll h head (ys @ x # zs)"
  shows "list_prev h head x = (if ys = [] then None else Some (last ys))"
proof -
  have "lprev (h x) = Some (last (head # ys))"
    using assms by (auto simp: dll_def seg_append dest: seg_prev)
  moreover have "ys \<noteq> [] \<Longrightarrow> last ys \<noteq> head"
    using assms last_in_set [of ys] by (auto simp: dll_def)
  ultimately show ?thesis by (auto simp: list_prev_def)
qed

lemma dll_reset: "dll (list_reset h head) head []"
  by (simp add: dll_def list_reset_def)

text \<open>The writers.\<close>

lemma dll_push_back:
  assumes "dll h head xs" "unlinked h x"
  shows "\<exists>h'. list_push_back h head x = Some h' \<and> dll h' head (xs @ [x])
    \<and> (\<forall>y. y \<notin> set (head # xs @ [x]) \<longrightarrow> h' y = h y)"
  using dll_insert_before [of h head xs "[]" x] assms by (simp add: list_push_back_def)

lemma dll_push_front:
  assumes "dll h head xs" "unlinked h x"
  shows "\<exists>h'. list_push_front h head x = Some h' \<and> dll h' head (x # xs)
    \<and> (\<forall>y. y \<notin> set (head # x # xs) \<longrightarrow> h' y = h y)"
proof -
  have "lnext (h head) = Some (hd (xs @ [head]))"
    using assms(1) by (auto simp: dll_def dest: seg_next)
  then show ?thesis
    using dll_insert_before [of h head "[]" xs x] assms by (simp add: list_push_front_def)
qed

lemma dll_pop_front:
  assumes "dll h head (x # xs)"
  shows "\<exists>h'. list_pop_front h head = Some (Some x, h') \<and> dll h' head xs \<and> unlinked h' x
    \<and> (\<forall>y. y \<notin> set (head # x # xs) \<longrightarrow> h' y = h y)"
proof -
  obtain h' where "ll_erase h x = Some h' \<and> dll h' head xs \<and> unlinked h' x
    \<and> (\<forall>y. y \<notin> set (head # x # xs) \<longrightarrow> h' y = h y)"
    using dll_erase [of h head "[]" x xs] assms by auto
  then show ?thesis
    using dll_front [OF assms] by (simp add: list_pop_front_def list_erase_def)
qed

lemma dll_pop_back:
  assumes "dll h head (xs @ [x])"
  shows "\<exists>h'. list_pop_back h head = Some (Some x, h') \<and> dll h' head xs \<and> unlinked h' x
    \<and> (\<forall>y. y \<notin> set (head # xs @ [x]) \<longrightarrow> h' y = h y)"
proof -
  obtain h' where "ll_erase h x = Some h' \<and> dll h' head xs \<and> unlinked h' x
    \<and> (\<forall>y. y \<notin> set (head # xs @ [x]) \<longrightarrow> h' y = h y)"
    using dll_erase [of h head xs x "[]"] assms by auto
  then show ?thesis
    using dll_back [OF assms] by (simp add: list_pop_back_def list_erase_def)
qed

lemma dll_pop_empty:
  "dll h head [] \<Longrightarrow> list_pop_front h head = Some (None, h) \<and> list_pop_back h head = Some (None, h)"
  by (simp add: list_pop_front_def list_pop_back_def dll_front dll_back)

text \<open>Moving a chain from one head to another, the core of \<^verbatim>\<open>swap\<close>.\<close>

lemma seg_rehead:
  assumes "seg h x xs a" "distinct (x # xs)" "b \<notin> set xs"
    "\<And>y. y \<in> set (x # xs) \<Longrightarrow> lnext (h' y) = (if y = last (x # xs) then Some b else lnext (h y))"
    "\<And>y. y \<in> set xs \<Longrightarrow> lprev (h' y) = lprev (h y)"
    "lprev (h' b) = Some (last (x # xs))"
  shows "seg h' x xs b"
  using assms
proof (induction xs arbitrary: x)
  case (Cons z zs)
  have "seg h' z zs b"
    by (rule Cons.IH) (use Cons.prems in \<open>auto split: if_splits\<close>)
  moreover have "x \<noteq> last (z # zs)"
    using Cons.prems(2) last_in_set [of "z # zs"] by auto
  ultimately show ?case using Cons.prems by auto
qed auto

lemma dll_rehead:
  assumes d: "dll h a xs" and b: "b \<notin> set xs"
    and ends: "lnext (h' b) = Some (hd (xs @ [b]))" "lprev (h' b) = Some (last (b # xs))"
    and nx: "\<And>y. y \<in> set xs \<Longrightarrow> lnext (h' y) = (if y = last xs then Some b else lnext (h y))"
    and pv: "\<And>y. y \<in> set xs \<Longrightarrow> lprev (h' y) = (if y = hd xs then Some b else lprev (h y))"
  shows "dll h' b xs"
proof (cases xs)
  case Nil
  then show ?thesis using ends by (simp add: dll_def)
next
  case (Cons x zs)
  have "seg h' x zs b"
    by (rule seg_rehead [where h = h and a = a]) (use d b ends nx pv Cons in \<open>auto simp: dll_def\<close>)
  then show ?thesis using d b ends pv Cons by (auto simp: dll_def)
qed

lemma dll_swap:
  assumes da: "dll h a xs" and db: "dll h b ys" and dj: "set (a # xs) \<inter> set (b # ys) = {}"
  shows "\<exists>h'. list_swap h a b = Some h' \<and> dll h' a ys \<and> dll h' b xs
    \<and> (\<forall>y. y \<notin> set (a # xs) \<union> set (b # ys) \<longrightarrow> h' y = h y)"
proof -
  define p1 p2 q1 q2 where "p1 = hd (xs @ [a])" and "p2 = last (a # xs)"
    and "q1 = hd (ys @ [b])" and "q2 = last (b # ys)"
  have na: "lnext (h a) = Some p1" "lprev (h a) = Some p2"
    and nb: "lnext (h b) = Some q1" "lprev (h b) = Some q2"
    using da db seg_next seg_prev by (fastforce simp: dll_def p1_def p2_def q1_def q2_def)+
  have mem: "p1 \<in> set (a # xs)" "p2 \<in> set (a # xs)" "q1 \<in> set (b # ys)" "q2 \<in> set (b # ys)"
    using hd_in_set [of "xs @ [a]"] hd_in_set [of "ys @ [b]"] last_in_set [of "a # xs"]
      last_in_set [of "b # ys"] by (auto simp: p1_def p2_def q1_def q2_def simp del: last.simps)
  define h1 where "h1 = ll_set_prev (ll_set_next h p2 (Some b)) p1 (Some b)"
  define h2 where "h2 = ll_set_prev (ll_set_next h1 q2 (Some a)) q1 (Some a)"
  define h' where "h' = (h2(a := h2 b))(b := h2 a)"
  have ab: "a \<noteq> b" "b \<noteq> p1" "b \<noteq> p2" "a \<noteq> q1" "a \<noteq> q2" "p1 \<noteq> q1" "p2 \<noteq> q2" "a \<notin> set ys" "b \<notin> set xs"
    using dj mem by auto
  have h1b: "lnext (h1 b) = Some q1" "lprev (h1 b) = Some q2"
    using nb ab by (auto simp: h1_def)
  have sw: "list_swap h a b = Some h'"
    by (simp add: list_swap_def na h1_def [symmetric] h1b h2_def [symmetric] h'_def Let_def)
  have lk: "lnext (h' y) = (if y = a then (if q2 = b then Some a else Some q1)
       else if y = b then (if p2 = a then Some b else Some p1)
       else if y = p2 then Some b else if y = q2 then Some a else lnext (h y))"
    "lprev (h' y) = (if y = a then (if q1 = b then Some a else Some q2)
       else if y = b then (if p1 = a then Some b else Some p2)
       else if y = p1 then Some b else if y = q1 then Some a else lprev (h y))" for y
    using na nb ab by (auto simp: h'_def h2_def h1_def)
  have ends: "p1 = (if xs = [] then a else hd xs)" "p2 = (if xs = [] then a else last xs)"
    "q1 = (if ys = [] then b else hd ys)" "q2 = (if ys = [] then b else last ys)"
    by (auto simp: p1_def p2_def q1_def q2_def hd_append_cases)
  have inner: "xs \<noteq> [] \<Longrightarrow> hd xs \<noteq> a \<and> last xs \<noteq> a" "ys \<noteq> [] \<Longrightarrow> hd ys \<noteq> b \<and> last ys \<noteq> b"
    using da db hd_in_set last_in_set by (metis dll_def distinct.simps(2))+
  have nin: "y \<in> set xs \<Longrightarrow> y \<noteq> a \<and> y \<noteq> b \<and> y \<noteq> q1 \<and> y \<noteq> q2"
    "y \<in> set ys \<Longrightarrow> y \<noteq> a \<and> y \<noteq> b \<and> y \<noteq> p1 \<and> y \<noteq> p2" for y
    using da db dj mem by (auto simp: dll_def)
  have "dll h' b xs"
    by (rule dll_rehead [OF da]) (use ab nin ends inner in \<open>simp_all add: lk hd_append_cases, auto\<close>)
  moreover have "dll h' a ys"
    by (rule dll_rehead [OF db]) (use ab nin ends inner in \<open>simp_all add: lk hd_append_cases, auto\<close>)
  moreover have "h' y = h y" if "y \<notin> set (a # xs) \<union> set (b # ys)" for y
    using that mem by (intro links_eqI) (auto simp: lk)
  ultimately show ?thesis using sw by blast
qed

subsection \<open>The queue contract\<close>

text \<open>
  What the run queues, wait queues and free lists of the kernel rely on: elements come out in the
  order they went in, an element that came out can go in again, and popping an empty queue changes
  nothing. \<open>loose\<close> holds of an element that is on no list.
\<close>

locale fifo_list =
  fixes repr :: "'h \<Rightarrow> 'a list \<Rightarrow> bool"
    and loose :: "'h \<Rightarrow> 'a \<Rightarrow> bool"
    and push_back :: "'h \<Rightarrow> 'a \<Rightarrow> 'h option"
    and pop_front :: "'h \<Rightarrow> ('a option \<times> 'h) option"
  assumes push_law: "repr h xs \<Longrightarrow> loose h x \<Longrightarrow>
      \<exists>h'. push_back h x = Some h' \<and> repr h' (xs @ [x])"
    and pop_nil_law: "repr h [] \<Longrightarrow> pop_front h = Some (None, h)"
    and pop_cons_law: "repr h (x # xs) \<Longrightarrow>
      \<exists>h'. pop_front h = Some (Some x, h') \<and> repr h' xs \<and> loose h' x"
begin

lemma pop_upto_repr:
  "repr h xs \<Longrightarrow> \<exists>h'. pop_upto pop_front n h = Some (take n xs, h') \<and> repr h' (drop n xs)"
proof (induction n arbitrary: h xs)
  case (Suc n)
  show ?case
  proof (cases xs)
    case Nil
    then show ?thesis using pop_nil_law Suc.prems by simp
  next
    case (Cons x ys)
    then obtain h1 where "pop_front h = Some (Some x, h1)" "repr h1 ys"
      using pop_cons_law Suc.prems by blast
    then show ?thesis using Suc.IH [of h1 ys] Cons by auto
  qed
qed simp

lemma drain_all:
  assumes "repr h xs" "length xs < n"
  shows "\<exists>h'. pop_upto pop_front n h = Some (xs, h') \<and> repr h' []"
  using pop_upto_repr [OF assms(1), of n] assms(2) by simp

lemma push_then_pop:
  assumes "repr h []" "loose h x"
  shows "\<exists>h1 h2. push_back h x = Some h1 \<and> pop_front h1 = Some (Some x, h2) \<and> repr h2 []"
proof -
  obtain h1 where "push_back h x = Some h1" "repr h1 ([] @ [x])"
    using push_law assms by blast
  then show ?thesis using pop_cons_law [of h1 x "[]"] by auto
qed

end

interpretation klist: fifo_list
  "\<lambda>h. dll h head" unlinked "\<lambda>h. list_push_back h head" "\<lambda>h. list_pop_front h head" for head
proof
  show "dll h head xs \<Longrightarrow> unlinked h x \<Longrightarrow>
      \<exists>h'. list_push_back h head x = Some h' \<and> dll h' head (xs @ [x])" for h :: "'a lheap" and xs x
    using dll_push_back by fast
  show "dll h head [] \<Longrightarrow> list_pop_front h head = Some (None, h)" for h :: "'a lheap"
    by (simp add: dll_pop_empty)
  show "dll h head (x # xs) \<Longrightarrow>
      \<exists>h'. list_pop_front h head = Some (Some x, h') \<and> dll h' head xs \<and> unlinked h' x"
    for h :: "'a lheap" and xs x
    using dll_pop_front by fast
qed

subsection \<open>Properties\<close>

text \<open>
  C6. On a well-formed list, the readers return the ends of the sequence, and \<^verbatim>\<open>push_back\<close>,
  \<^verbatim>\<open>push_front\<close>, \<^verbatim>\<open>pop_front\<close> and \<^verbatim>\<open>pop_back\<close> never fail an assertion, produce a
  well-formed list holding the sequence that the operation's name says, unlink what they pop, and
  change no node outside the list.
\<close>

theorem list_ops_refine:
  assumes "dll h head xs" "unlinked h x"
  shows "list_front h head = (if xs = [] then None else Some (hd xs))
    \<and> list_back h head = (if xs = [] then None else Some (last xs))
    \<and> (\<exists>h'. list_push_back h head x = Some h' \<and> dll h' head (xs @ [x])
          \<and> (\<forall>y. y \<notin> set (head # xs @ [x]) \<longrightarrow> h' y = h y))
    \<and> (\<exists>h'. list_push_front h head x = Some h' \<and> dll h' head (x # xs)
          \<and> (\<forall>y. y \<notin> set (head # x # xs) \<longrightarrow> h' y = h y))
    \<and> (xs = [] \<longrightarrow> list_pop_front h head = Some (None, h) \<and> list_pop_back h head = Some (None, h))
    \<and> (xs \<noteq> [] \<longrightarrow> (\<exists>h'. list_pop_front h head = Some (Some (hd xs), h') \<and> dll h' head (tl xs)
          \<and> unlinked h' (hd xs) \<and> (\<forall>y. y \<notin> set (head # xs) \<longrightarrow> h' y = h y)))
    \<and> (xs \<noteq> [] \<longrightarrow> (\<exists>h'. list_pop_back h head = Some (Some (last xs), h') \<and> dll h' head (butlast xs)
          \<and> unlinked h' (last xs) \<and> (\<forall>y. y \<notin> set (head # xs) \<longrightarrow> h' y = h y)))"
proof (intro conjI impI)
  assume ne: "xs \<noteq> []"
  then show "\<exists>h'. list_pop_front h head = Some (Some (hd xs), h') \<and> dll h' head (tl xs)
          \<and> unlinked h' (hd xs) \<and> (\<forall>y. y \<notin> set (head # xs) \<longrightarrow> h' y = h y)"
    using dll_pop_front [of h head "hd xs" "tl xs"] assms(1) by simp
  show "\<exists>h'. list_pop_back h head = Some (Some (last xs), h') \<and> dll h' head (butlast xs)
          \<and> unlinked h' (last xs) \<and> (\<forall>y. y \<notin> set (head # xs) \<longrightarrow> h' y = h y)"
    using dll_pop_back [of h head "butlast xs" "last xs"] assms(1) ne by simp
qed (use dll_front [OF assms(1)] dll_back [OF assms(1)] dll_push_back [OF assms]
    dll_push_front [OF assms] dll_pop_empty [of h head] assms(1) in simp_all)

theorem list_ops_refine_witness:
  "\<exists>h'. list_push_back (list_reset (\<lambda>_. \<lparr>lnext = None, lprev = None\<rparr>) 0) (0::nat) 1 = Some h'
     \<and> dll h' 0 ([] @ [1])"
proof -
  let ?h = "list_reset (\<lambda>_. \<lparr>lnext = None, lprev = None\<rparr>) (0::nat)"
  have "dll ?h 0 []" by (rule dll_reset)
  moreover have "unlinked ?h 1" by (simp add: unlinked_def list_reset_def)
  ultimately show ?thesis using list_ops_refine [of ?h 0 "[]" 1] by blast
qed

text \<open>
  C7. \<^verbatim>\<open>erase\<close> removes exactly the given element, wherever it is in the list, and leaves its own
  links null; \<^verbatim>\<open>swap\<close> exchanges the contents of two disjoint lists, empty or not. Both leave every
  other node of the heap alone.
\<close>

theorem list_erase_swap_refine:
  assumes "dll h a xs" "dll h b ws" "set (a # xs) \<inter> set (b # ws) = {}"
  shows "(\<forall>ys x zs. xs = ys @ x # zs \<longrightarrow> (\<exists>h'. list_erase h a x = Some h' \<and> dll h' a (ys @ zs) \<and> unlinked h' x
          \<and> (\<forall>y. y \<notin> set (a # xs) \<longrightarrow> h' y = h y)))
    \<and> (\<exists>h'. list_swap h a b = Some h' \<and> dll h' a ws \<and> dll h' b xs
          \<and> (\<forall>y. y \<notin> set (a # xs) \<union> set (b # ws) \<longrightarrow> h' y = h y))"
proof (intro conjI allI impI)
  fix ys x zs assume xs: "xs = ys @ x # zs"
  show "\<exists>h'. list_erase h a x = Some h' \<and> dll h' a (ys @ zs) \<and> unlinked h' x \<and> (\<forall>y. y \<notin> set (a # xs) \<longrightarrow> h' y = h y)"
    unfolding list_erase_def xs by (rule dll_erase) (use assms(1) xs in simp)
qed (rule dll_swap [OF assms])

text \<open>The receiver of \<^verbatim>\<open>swap\<close> is empty here, as in its only use, by the buffer cache.\<close>

theorem list_erase_swap_refine_witness:
  "\<exists>h h' h''. dll h (0::nat) [1] \<and> dll h 2 [] \<and> list_swap h 2 0 = Some h' \<and> dll h' 2 [1] \<and> dll h' 0 []
     \<and> list_erase h 0 1 = Some h'' \<and> dll h'' 0 []"
proof -
  let ?h = "(\<lambda>_. \<lparr>lnext = Some 2, lprev = Some 2\<rparr>)
    (0::nat := \<lparr>lnext = Some 1, lprev = Some 1\<rparr>, 1 := \<lparr>lnext = Some 0, lprev = Some 0\<rparr>)"
  have d: "dll ?h 0 [1]" "dll ?h 2 []" by (simp_all add: dll_def)
  have "\<exists>h''. list_erase ?h 0 1 = Some h'' \<and> dll h'' 0 []"
    using conjunct1 [OF list_erase_swap_refine [OF d], rule_format, of "[]" 1 "[]"] by auto
  moreover have "\<exists>h'. list_swap ?h 2 0 = Some h' \<and> dll h' 2 [1] \<and> dll h' 0 []"
    using conjunct2 [OF list_erase_swap_refine [OF d(2,1)]] by auto
  ultimately show ?thesis using d by blast
qed

text \<open>
  \<^verbatim>\<open>list::insert\<close> is documented to insert before \<^verbatim>\<open>position\<close> and at the tail when it is null.
  Its conditional has the branches the other way round: with a non-null position it appends.
\<close>

lemma list_insert_appends:
  assumes "dll h head xs" "unlinked h x"
  shows "(\<exists>h'. list_insert h head (Some p) x = Some h' \<and> dll h' head (xs @ [x]))
    \<and> list_insert h head None x = None"
  using dll_push_back [OF assms] by (auto simp: list_insert_def list_push_back_def)

end
