(* ===== verification/WaitHeap.thy ===== *)
theory WaitHeap
  imports KList "HOL-Library.Multiset"
begin

text \<open>
  The binary heap of sleeping processes, \<^verbatim>\<open>struct wait_heap\<close> of \<^verbatim>\<open>k-waitstruct.hh\<close> and
  \<^verbatim>\<open>k-wait.hh\<close>. The array keeps its 16 slots; a slot holds a pointer to a \<^verbatim>\<open>hwaiter\<close> or null,
  and following a null pointer is \<open>None\<close>. A \<^verbatim>\<open>hwaiter\<close> carries its own address, since the code
  compares waiters by address. Calls of \<^verbatim>\<open>proc::wake\<close> are returned as the list of waiters woken.
  The lock assertions hold in every caller and are not repeated.
\<close>

definition WAITNPROC :: nat where [kconst]: "WAITNPROC = 16"

record hwaiter =
  hw_addr :: nat
  hw_proc :: nat
  wakeup_time :: u64

record wait_heap =
  nwaiters :: nat
  waiter_arr :: "hwaiter option list"

definition wh_init :: wait_heap where
  "wh_init = \<lparr>nwaiters = 0, waiter_arr = replicate WAITNPROC None\<rparr>"

definition wh_swap :: "hwaiter option list \<Rightarrow> nat \<Rightarrow> nat \<Rightarrow> hwaiter option list" where
  "wh_swap a i j = (let temp = a ! i in a[i := a ! j, j := temp])"

definition wh_size :: "wait_heap \<Rightarrow> nat" where
  "wh_size w = nwaiters w"

definition wh_left :: "nat \<Rightarrow> nat" where
  "wh_left p = 2 * p + 1"

definition wh_right :: "nat \<Rightarrow> nat" where
  "wh_right p = 2 * p + 2"

definition wh_parent :: "nat \<Rightarrow> nat" where
  "wh_parent c = (c - 1) div 2"

text \<open>\<open>wh_less a i j\<close>: \<^verbatim>\<open>waiter_arr_[i]->wakeup_time_ < waiter_arr_[j]->wakeup_time_\<close>.\<close>

definition wh_less :: "hwaiter option list \<Rightarrow> nat \<Rightarrow> nat \<Rightarrow> bool option" where
  "wh_less a i j =
     (if i < length a \<and> j < length a then
        (case (a ! i, a ! j) of
           (Some x, Some y) \<Rightarrow> Some (wakeup_time x < wakeup_time y)
         | _ \<Rightarrow> None)
      else None)"

definition wh_child_less :: "nat \<Rightarrow> hwaiter option list \<Rightarrow> nat \<Rightarrow> nat \<Rightarrow> bool option" where
  "wh_child_less n a c i = (if c < n then wh_less a c i else Some False)"

function heapify :: "nat \<Rightarrow> hwaiter option list \<Rightarrow> nat \<Rightarrow> hwaiter option list option" where
  "heapify n a i =
     (let l = wh_left i; r = wh_right i in
      case wh_child_less n a l i of
        None \<Rightarrow> None
      | Some b1 \<Rightarrow>
          (let smallest1 = (if b1 then l else i) in
           case wh_child_less n a r smallest1 of
             None \<Rightarrow> None
           | Some b2 \<Rightarrow>
               (let smallest = (if b2 then r else smallest1) in
                if smallest \<noteq> i then heapify n (wh_swap a i smallest) smallest else Some a)))"
  by pat_completeness auto
termination
  by (relation "measure (\<lambda>(n, a, i). n - i)")
    (auto simp: wh_left_def wh_right_def wh_child_less_def split: if_splits)

declare heapify.simps [simp del]

text \<open>The loop of \<^verbatim>\<open>wait_heap::insert\<close> that moves the new node up.\<close>

function sift_up :: "hwaiter option list \<Rightarrow> nat \<Rightarrow> hwaiter option list option" where
  "sift_up a i =
     (if i = 0 then Some a
      else case wh_less a i (wh_parent i) of
             None \<Rightarrow> None
           | Some b \<Rightarrow> if b then sift_up (wh_swap a i (wh_parent i)) (wh_parent i) else Some a)"
  by pat_completeness auto
termination
  by (relation "measure (\<lambda>(a, i). i)") (auto simp: wh_parent_def)

declare sift_up.simps [simp del]

definition wh_insert :: "wait_heap \<Rightarrow> hwaiter \<Rightarrow> wait_heap option" where
  "wh_insert w hw =
     check (nwaiters w < WAITNPROC)
      (let i = nwaiters w in
       map_option (\<lambda>a. \<lparr>nwaiters = i + 1, waiter_arr = a\<rparr>)
         (sift_up ((waiter_arr w)[i := Some hw]) i))"

definition is_on_heap :: "wait_heap \<Rightarrow> hwaiter \<Rightarrow> bool" where
  "is_on_heap w hw \<longleftrightarrow>
     list_ex (\<lambda>s. map_option hw_addr s = Some (hw_addr hw)) (take (nwaiters w) (waiter_arr w))"

definition top_waketime :: "wait_heap \<Rightarrow> u64 option" where
  "top_waketime w =
     (if nwaiters w = 0 then Some 0 else map_option wakeup_time (waiter_arr w ! 0))"

text \<open>
  \<^verbatim>\<open>wait_heap::pop(wake)\<close>: the waiter returned, the waiters woken, and the new heap.
\<close>

definition wh_pop :: "bool \<Rightarrow> wait_heap \<Rightarrow> (hwaiter option \<times> hwaiter list \<times> wait_heap) option" where
  "wh_pop wake w =
     (if nwaiters w = 0 then Some (None, [], w)
      else
        let root = waiter_arr w ! 0; n = nwaiters w - 1 in
        case (if nwaiters w = 1 then Some (waiter_arr w)
              else heapify n ((waiter_arr w)[0 := waiter_arr w ! n]) 0) of
          None \<Rightarrow> None
        | Some a \<Rightarrow>
            (case root of
               None \<Rightarrow> None
             | Some r \<Rightarrow> Some (Some r, if wake then [r] else [], \<lparr>nwaiters = n, waiter_arr = a\<rparr>)))"

definition wh_flush :: "bool \<Rightarrow> wait_heap \<Rightarrow> hwaiter option list \<times> wait_heap" where
  "wh_flush wake w =
     (if wake then (take (nwaiters w) (waiter_arr w), w\<lparr>nwaiters := 0\<rparr>)
      else ([], w\<lparr>nwaiters := 0\<rparr>))"

lemma wh_pop_nwaiters: "wh_pop b w = Some (Some r, ws, w') \<Longrightarrow> nwaiters w = Suc (nwaiters w')"
  by (auto simp: wh_pop_def Let_def split: if_splits option.splits)

text \<open>
  The two loops of \<^verbatim>\<open>hwaiter::clear\<close>: pop until the waiter is found, then put the others back.
  The bound \<^verbatim>\<open>wh_->size()\<close> of the first loop is read again in every iteration.
\<close>

function clear_pop :: "hwaiter \<Rightarrow> nat \<Rightarrow> hwaiter list \<Rightarrow> wait_heap \<Rightarrow> (hwaiter list \<times> wait_heap) option" where
  "clear_pop this i temps w =
     (if i < wh_size w then
        (case wh_pop False w of
           None \<Rightarrow> None
         | Some (None, _, w') \<Rightarrow> None
         | Some (Some hw, _, w') \<Rightarrow>
             if hw_addr hw = hw_addr this then Some (temps, w')
             else clear_pop this (i + 1) (temps @ [hw]) w')
      else Some (temps, w))"
  by pat_completeness auto
termination
  by (relation "measure (\<lambda>(this, i, temps, w). nwaiters w - i)")
    (auto simp: wh_size_def dest: wh_pop_nwaiters)

declare clear_pop.simps [simp del]

fun clear_reinsert :: "hwaiter list \<Rightarrow> wait_heap \<Rightarrow> wait_heap option" where
  "clear_reinsert [] w = Some w"
| "clear_reinsert (t # ts) w =
     (case wh_insert w t of None \<Rightarrow> None | Some w' \<Rightarrow> clear_reinsert ts w')"

definition hwaiter_clear :: "hwaiter \<Rightarrow> wait_heap \<Rightarrow> (hwaiter list \<times> wait_heap) option" where
  "hwaiter_clear this w =
     (if is_on_heap w this then
        (case clear_pop this 0 [] w of
           None \<Rightarrow> None
         | Some (temps, w') \<Rightarrow> map_option (\<lambda>w''. ([this], w'')) (clear_reinsert temps w'))
      else Some ([this], w))"

subsection \<open>Invariant\<close>

definition slots_ok :: "nat \<Rightarrow> hwaiter option list \<Rightarrow> bool" where
  "slots_ok n a \<longleftrightarrow> n \<le> length a \<and> (\<forall>i<n. a ! i \<noteq> None)"

abbreviation wt :: "hwaiter option list \<Rightarrow> nat \<Rightarrow> u64" where
  "wt a i \<equiv> wakeup_time (the (a ! i))"

text \<open>The array is a heap except possibly at the edges the predicate \<open>ex\<close> exempts.\<close>

definition heap_but :: "(nat \<Rightarrow> bool) \<Rightarrow> nat \<Rightarrow> hwaiter option list \<Rightarrow> bool" where
  "heap_but ex n a \<longleftrightarrow> (\<forall>k. 0 < k \<and> k < n \<and> \<not> ex k \<longrightarrow> wt a (wh_parent k) \<le> wt a k)"

definition wh_inv :: "wait_heap \<Rightarrow> bool" where
  "wh_inv w \<longleftrightarrow> length (waiter_arr w) = WAITNPROC \<and> nwaiters w \<le> WAITNPROC
     \<and> slots_ok (nwaiters w) (waiter_arr w) \<and> heap_but (\<lambda>_. False) (nwaiters w) (waiter_arr w)"

definition wh_elems :: "wait_heap \<Rightarrow> hwaiter multiset" where
  "wh_elems w = mset (map the (take (nwaiters w) (waiter_arr w)))"


subsection \<open>Lemmas\<close>

lemma slots_ok_nth: "slots_ok n a \<Longrightarrow> i < n \<Longrightarrow> i < length a \<and> (\<exists>x. a ! i = Some x)"
  by (auto simp: slots_ok_def)

lemma wh_less_eq: "slots_ok n a \<Longrightarrow> i < n \<Longrightarrow> j < n \<Longrightarrow> wh_less a i j = Some (wt a i < wt a j)"
  using slots_ok_nth [of n a i] slots_ok_nth [of n a j] by (auto simp: wh_less_def)

lemma wh_child_less_eq:
  "slots_ok n a \<Longrightarrow> i < n \<Longrightarrow> wh_child_less n a c i = Some (c < n \<and> wt a c < wt a i)"
  by (auto simp: wh_child_less_def wh_less_eq)

lemma length_wh_swap [simp]: "length (wh_swap a i j) = length a"
  by (simp add: wh_swap_def Let_def)

lemma nth_wh_swap:
  "i < length a \<Longrightarrow> j < length a \<Longrightarrow>
   wh_swap a i j ! k = (if k = i then a ! j else if k = j then a ! i else a ! k)"
  by (auto simp: wh_swap_def Let_def nth_list_update)

lemma slots_ok_swap:
  assumes "slots_ok n a" "i < n" "j < n"
  shows "slots_ok n (wh_swap a i j)"
  using assms by (auto simp: slots_ok_def nth_wh_swap)

lemma mset_take_swap:
  assumes "i < n" "j < n" "n \<le> length a"
  shows "mset (take n (wh_swap a i j)) = mset (take n a)"
proof -
  have "mset (take n (wh_swap a i j)) = mset (take n a)"
    using assms mset_swap [of j "take n a" i]
    by (simp add: wh_swap_def Let_def take_update_swap)
  then show ?thesis .
qed

lemma wh_parent_less: "0 < k \<Longrightarrow> wh_parent k < k"
  by (auto simp: wh_parent_def)

lemma wh_parent_child: "0 < k \<Longrightarrow> wh_parent k = i \<longleftrightarrow> k = wh_left i \<or> k = wh_right i"
  by (auto simp: wh_parent_def wh_left_def wh_right_def)

text \<open>One unfolding of \<open>heapify\<close> on a well-formed array: the index it swaps with, if any.\<close>

definition smallest_of :: "nat \<Rightarrow> hwaiter option list \<Rightarrow> nat \<Rightarrow> nat" where
  "smallest_of n a i =
     (let s = (if wh_left i < n \<and> wt a (wh_left i) < wt a i then wh_left i else i)
      in if wh_right i < n \<and> wt a (wh_right i) < wt a s then wh_right i else s)"

lemma heapify_unfold:
  assumes "slots_ok n a" "i < n"
  shows "heapify n a i = (let s = smallest_of n a i in
    if s \<noteq> i then heapify n (wh_swap a i s) s else Some a)"
  using assms
  by (subst heapify.simps)
    (auto simp: Let_def wh_child_less_eq smallest_of_def wh_left_def wh_right_def)

lemma smallest_of_props:
  assumes "i < n"
  shows "smallest_of n a i < n"
    and "smallest_of n a i \<noteq> i \<Longrightarrow> i < smallest_of n a i \<and> wh_parent (smallest_of n a i) = i"
    and "wt a (smallest_of n a i) \<le> wt a i"
    and "k < n \<Longrightarrow> k = wh_left i \<or> k = wh_right i \<Longrightarrow> wt a (smallest_of n a i) \<le> wt a k"
    and "smallest_of n a i \<noteq> i \<Longrightarrow> wt a (smallest_of n a i) < wt a i"
  using assms
  by (auto simp: smallest_of_def Let_def wh_left_def wh_right_def wh_parent_def split: if_splits)

text \<open>Moving down restores the heap below \<open>i\<close>.\<close>

lemma heapify_correct:
  assumes "slots_ok n a" "i < n" "heap_but (\<lambda>k. wh_parent k = i) n a"
    "\<And>k. 0 < i \<Longrightarrow> 0 < k \<Longrightarrow> k < n \<Longrightarrow> wh_parent k = i \<Longrightarrow> wt a (wh_parent i) \<le> wt a k"
  shows "\<exists>a'. heapify n a i = Some a' \<and> slots_ok n a' \<and> length a' = length a
    \<and> heap_but (\<lambda>_. False) n a'
    \<and> mset (take n a') = mset (take n a)"
  using assms
proof (induction "n - i" arbitrary: a i rule: less_induct)
  case less
  note prems = less.prems
  let ?s = "smallest_of n a i"
  note sm = smallest_of_props [OF prems(2), where a = a]
  have len: "n \<le> length a" using prems(1) by (simp add: slots_ok_def)
  show ?case
  proof (cases "?s = i")
    case True
    have "wt a (wh_parent k) \<le> wt a k" if "0 < k" "k < n" for k
      using that prems(3) sm(4) [of k] True wh_parent_child [of k i]
      by (cases "wh_parent k = i") (auto simp: heap_but_def)
    then show ?thesis
      using True prems by (simp add: heapify_unfold heap_but_def)
  next
    case False
    let ?a = "wh_swap a i ?s"
    have lt: "i < ?s" "?s < n" "wh_parent ?s = i" using sm(1,2) False by auto
    have wts: "wt ?a k = (if k = i then wt a ?s else if k = ?s then wt a i else wt a k)" for k
      using lt len by (simp add: nth_wh_swap)
    have up: "0 < i \<Longrightarrow> wt a (wh_parent i) \<le> wt a ?s"
      using prems(4) [of ?s] lt by simp
    have A: "heap_but (\<lambda>k. wh_parent k = ?s) n ?a"
      unfolding heap_but_def
    proof (intro allI impI)
      fix k assume k: "0 < k \<and> k < n \<and> wh_parent k \<noteq> ?s"
      have pk: "wh_parent k < k" using k by (simp add: wh_parent_less)
      show "wt ?a (wh_parent k) \<le> wt ?a k"
      proof (cases "wh_parent k = i")
        case True
        then show ?thesis using sm(3) sm(4) [of k] k pk wh_parent_child [of k i] by (auto simp: wts)
      next
        case ni: False
        then have "wt a (wh_parent k) \<le> wt a k" using prems(3) k by (auto simp: heap_but_def)
        then show ?thesis using ni k pk lt up by (auto simp: wts)
      qed
    qed
    have B: "wt ?a (wh_parent ?s) \<le> wt ?a k" if "0 < k" "k < n" "wh_parent k = ?s" for k
    proof -
      have "wt a ?s \<le> wt a k"
        using prems(3) that lt by (auto simp: heap_but_def)
      moreover have "?s < k" using that wh_parent_less [of k] by simp
      ultimately show ?thesis using lt that by (auto simp: wts)
    qed
    have step: "heapify n a i = heapify n ?a ?s"
      using prems False by (simp add: heapify_unfold Let_def)
    have IH: "\<exists>a'. heapify n ?a ?s = Some a' \<and> slots_ok n a' \<and> length a' = length ?a
      \<and> heap_but (\<lambda>_. False) n a' \<and> mset (take n a') = mset (take n ?a)"
      by (rule less.hyps) (use prems lt A B slots_ok_swap in auto)
    then show ?thesis using step lt len by (auto simp: mset_take_swap)
  qed
qed

text \<open>Moving up restores the heap above \<open>i\<close>.\<close>

lemma sift_up_unfold:
  assumes "slots_ok n a" "i < n"
  shows "sift_up a i = (if i = 0 then Some a
    else if wt a i < wt a (wh_parent i) then sift_up (wh_swap a i (wh_parent i)) (wh_parent i)
    else Some a)"
proof -
  have "wh_less a i (wh_parent i) = Some (wt a i < wt a (wh_parent i))" if "i \<noteq> 0"
    using assms wh_parent_less [of i] that by (intro wh_less_eq [of n]) auto
  then show ?thesis by (subst sift_up.simps) auto
qed

lemma sift_up_correct:
  assumes "slots_ok n a" "i < n" "heap_but (\<lambda>k. k = i) n a"
    "\<And>k. 0 < i \<Longrightarrow> 0 < k \<Longrightarrow> k < n \<Longrightarrow> wh_parent k = i \<Longrightarrow> wt a (wh_parent i) \<le> wt a k"
  shows "\<exists>a'. sift_up a i = Some a' \<and> slots_ok n a' \<and> length a' = length a
    \<and> heap_but (\<lambda>_. False) n a'
    \<and> mset (take n a') = mset (take n a)"
  using assms
proof (induction i arbitrary: a rule: less_induct)
  case (less i)
  note prems = less.prems
  let ?p = "wh_parent i"
  have len: "n \<le> length a" using prems(1) by (simp add: slots_ok_def)
  show ?case
  proof (cases "i = 0 \<or> \<not> wt a i < wt a ?p")
    case True
    then have "wt a (wh_parent k) \<le> wt a k" if "0 < k" "k < n" for k
      using that prems(3) by (cases "k = i") (auto simp: heap_but_def)
    then show ?thesis
      using True prems sift_up_unfold [OF prems(1,2)] by (auto simp: heap_but_def)
  next
    case False
    let ?a = "wh_swap a i ?p"
    have lt: "0 < i" "?p < i" "wt a i < wt a ?p" using False wh_parent_less by auto
    have wts: "wt ?a k = (if k = i then wt a ?p else if k = ?p then wt a i else wt a k)" for k
      using lt prems(2) len by (simp add: nth_wh_swap)
    have old: "wt a (wh_parent k) \<le> wt a k" if "0 < k" "k < n" "k \<noteq> i" for k
      using prems(3) that by (auto simp: heap_but_def)
    have A: "heap_but (\<lambda>k. k = ?p) n ?a"
      unfolding heap_but_def
    proof (intro allI impI)
      fix k assume k: "0 < k \<and> k < n \<and> k \<noteq> ?p"
      show "wt ?a (wh_parent k) \<le> wt ?a k"
      proof (cases "wh_parent k = i")
        case True
        then have "k \<noteq> i" using wh_parent_less [of k] k by auto
        with True show ?thesis using prems(4) [of k] k lt by (simp add: wts)
      next
        case False
        then show ?thesis using old [of k] k lt by (auto simp: wts)
      qed
    qed
    have B: "wt ?a (wh_parent ?p) \<le> wt ?a k"
      if "0 < ?p" "0 < k" "k < n" "wh_parent k = ?p" for k
    proof -
      have "wh_parent ?p < ?p" "?p < k" using that wh_parent_less [of k] wh_parent_less [of ?p] by auto
      moreover have "wt a (wh_parent ?p) \<le> wt a ?p" using old [of ?p] that lt prems(2) by simp
      ultimately show ?thesis using that old [of k] lt by (auto simp: wts)
    qed
    have "\<exists>a'. sift_up ?a ?p = Some a' \<and> slots_ok n a' \<and> length a' = length ?a
      \<and> heap_but (\<lambda>_. False) n a' \<and> mset (take n a') = mset (take n ?a)"
      by (rule less.IH) (use prems lt A B slots_ok_swap in auto)
    then show ?thesis
      using sift_up_unfold [OF prems(1,2)] lt prems(2) len by (auto simp: mset_take_swap)
  qed
qed

lemma heap_root_least:
  assumes "heap_but (\<lambda>_. False) n a" "k < n"
  shows "wt a 0 \<le> wt a k"
  using assms(2)
proof (induction k rule: less_induct)
  case (less k)
  show ?case
  proof (cases "k = 0")
    case False
    then have "wt a 0 \<le> wt a (wh_parent k)"
      using less.IH [of "wh_parent k"] less.prems wh_parent_less [of k] by simp
    also have "\<dots> \<le> wt a k" using assms(1) False less.prems by (simp add: heap_but_def)
    finally show ?thesis .
  qed simp
qed

subsection \<open>Operations preserve the invariant\<close>

lemma wh_inv_init: "wh_inv wh_init" "wh_elems wh_init = {#}"
  by (simp_all add: wh_inv_def wh_init_def slots_ok_def heap_but_def wh_elems_def)

lemma wh_insert_correct:
  assumes inv: "wh_inv w" and cap: "nwaiters w < WAITNPROC"
  shows "\<exists>w'. wh_insert w hw = Some w' \<and> wh_inv w' \<and> nwaiters w' = nwaiters w + 1
    \<and> wh_elems w' = add_mset hw (wh_elems w)"
proof -
  let ?n = "nwaiters w" and ?b = "(waiter_arr w)[nwaiters w := Some hw]"
  have len: "length (waiter_arr w) = WAITNPROC" using inv by (simp add: wh_inv_def)
  have ok: "slots_ok (?n + 1) ?b"
    using inv cap len by (auto simp: wh_inv_def slots_ok_def nth_list_update less_Suc_eq)
  have par: "k < ?n + 1 \<Longrightarrow> 0 < k \<Longrightarrow> wh_parent k < ?n" for k
    using wh_parent_less [of k] by simp
  have hb: "heap_but (\<lambda>k. k = ?n) (?n + 1) ?b"
    unfolding heap_but_def
  proof (intro allI impI)
    fix k assume "0 < k \<and> k < ?n + 1 \<and> k \<noteq> ?n"
    then have "0 < k" "k < ?n" "wh_parent k < ?n" using par by auto
    then show "wt ?b (wh_parent k) \<le> wt ?b k"
      using inv by (simp add: wh_inv_def heap_but_def)
  qed
  have tk: "take (?n + 1) ?b = take ?n (waiter_arr w) @ [Some hw]"
    using cap len by (simp add: take_Suc_conv_app_nth)
  obtain a' where "sift_up ?b ?n = Some a'" "slots_ok (?n + 1) a'" "length a' = length ?b"
    "heap_but (\<lambda>_. False) (?n + 1) a'" "mset (take (?n + 1) a') = mset (take (?n + 1) ?b)"
    using sift_up_correct [OF ok _ hb] par by force
  then show ?thesis
    using cap len tk by (auto simp: wh_insert_def Let_def wh_inv_def wh_elems_def)
qed

lemma wh_pop_empty: "nwaiters w = 0 \<Longrightarrow> wh_pop b w = Some (None, [], w)"
  by (simp add: wh_pop_def)

lemma wh_pop_correct:
  assumes inv: "wh_inv w" and ne: "nwaiters w \<noteq> 0"
  shows "\<exists>r w'. wh_pop b w = Some (Some r, if b then [r] else [], w') \<and> wh_inv w'
    \<and> wh_elems w = add_mset r (wh_elems w') \<and> (\<forall>x \<in># wh_elems w. wakeup_time r \<le> wakeup_time x)"
proof -
  let ?n = "nwaiters w - 1" and ?a = "waiter_arr w"
  let ?b = "?a[0 := ?a ! ?n]"
  have len: "length ?a = WAITNPROC" "nwaiters w \<le> WAITNPROC" and ok: "slots_ok (nwaiters w) ?a"
    and hp: "heap_but (\<lambda>_. False) (nwaiters w) ?a" using inv by (auto simp: wh_inv_def)
  have n0: "0 < length ?a" using len ne by simp
  obtain r where r: "?a ! 0 = Some r" using slots_ok_nth [OF ok, of 0] ne by auto
  have least: "wakeup_time r \<le> wakeup_time x" if x: "x \<in># wh_elems w" for x
  proof -
    obtain k where "k < nwaiters w" "x = the (?a ! k)"
      using x len by (auto simp: wh_elems_def in_set_conv_nth)
    then show ?thesis using heap_root_least [OF hp, of k] r by simp
  qed
  have tk: "take (nwaiters w) ?a = take ?n ?a @ [?a ! ?n]"
    using ne len by (metis Suc_pred' less_le_trans neq0_conv diff_less take_Suc_conv_app_nth zero_less_one)
  have "\<exists>a'. (if nwaiters w = 1 then Some ?a else heapify ?n ?b 0) = Some a'
      \<and> slots_ok ?n a' \<and> length a' = length ?a \<and> heap_but (\<lambda>_. False) ?n a'
      \<and> mset (take ?n a') + {#Some r#} = mset (take (nwaiters w) ?a)"
  proof (cases "nwaiters w = 1")
    case True
    then show ?thesis using r n0 by (auto simp: slots_ok_def heap_but_def take_Suc_conv_app_nth)
  next
    case False
    then have n1: "0 < ?n" using ne by simp
    have okb: "slots_ok ?n ?b" using ok ne n0 by (auto simp: slots_ok_def nth_list_update)
    have hpb: "heap_but (\<lambda>k. wh_parent k = 0) ?n ?b"
      using hp n0 by (auto simp: heap_but_def nth_list_update)
    obtain a' where a': "heapify ?n ?b 0 = Some a'" "slots_ok ?n a'" "length a' = length ?b"
      "heap_but (\<lambda>_. False) ?n a'" "mset (take ?n a') = mset (take ?n ?b)"
      using heapify_correct [OF okb n1 hpb] by auto
    have 1: "mset (take ?n ?a) = add_mset (Some r) (mset (tl (take ?n ?a)))"
      using r n1 n0 by (cases ?a; cases ?n) auto
    have 2: "mset (take ?n ?b) = add_mset (?a ! ?n) (mset (tl (take ?n ?a)))"
      using n1 n0 by (cases ?a; cases ?n) auto
    have "mset (take ?n ?b) + {#Some r#} = mset (take (nwaiters w) ?a)"
      unfolding tk mset_append 1 2 by simp
    with a' False show ?thesis by auto
  qed
  then obtain a' where a': "(if nwaiters w = 1 then Some ?a else heapify ?n ?b 0) = Some a'"
      "slots_ok ?n a'" "length a' = length ?a" "heap_but (\<lambda>_. False) ?n a'"
      "mset (take ?n a') + {#Some r#} = mset (take (nwaiters w) ?a)"
    by blast
  let ?w = "\<lparr>nwaiters = ?n, waiter_arr = a'\<rparr>"
  have "wh_pop b w = Some (Some r, if b then [r] else [], ?w)"
    using ne r unfolding wh_pop_def Let_def a'(1) by simp
  moreover have "wh_inv ?w" using a' len by (simp add: wh_inv_def)
  moreover have "wh_elems w = add_mset r (wh_elems ?w)"
    using arg_cong [OF a'(5), of "image_mset the"] by (simp add: wh_elems_def)
  ultimately show ?thesis using least by blast
qed

subsection \<open>The timer contract\<close>

text \<open>
  What a sleeper relies on: a queue of keyed entries whose \<open>pop\<close> removes an entry of least key.
  A run of pops then delivers the entries in wake-up order and loses none.
\<close>

locale timer_queue =
  fixes inv :: "'q \<Rightarrow> bool"
    and elems :: "'q \<Rightarrow> 'a multiset"
    and key :: "'a \<Rightarrow> 'k::linorder"
    and pop :: "'q \<Rightarrow> ('a option \<times> 'q) option"
  assumes pop_none: "inv q \<Longrightarrow> elems q = {#} \<Longrightarrow> pop q = Some (None, q)"
    and pop_some: "inv q \<Longrightarrow> elems q \<noteq> {#} \<Longrightarrow>
      \<exists>x q'. pop q = Some (Some x, q') \<and> inv q' \<and> elems q = add_mset x (elems q')
        \<and> (\<forall>y \<in># elems q. key x \<le> key y)"
begin

lemma pop_upto_ordered:
  "inv q \<Longrightarrow> \<exists>xs q'. pop_upto pop n q = Some (xs, q') \<and> inv q' \<and> mset xs + elems q' = elems q
     \<and> sorted (map key xs) \<and> (\<forall>x \<in> set xs. \<forall>y \<in># elems q'. key x \<le> key y)
     \<and> length xs = min n (size (elems q))"
proof (induction n arbitrary: q)
  case (Suc n)
  show ?case
  proof (cases "elems q = {#}")
    case True
    then show ?thesis using pop_none Suc.prems by simp
  next
    case False
    then obtain x q1 where x: "pop q = Some (Some x, q1)" "inv q1" "elems q = add_mset x (elems q1)"
      "\<forall>y \<in># elems q. key x \<le> key y"
      using pop_some Suc.prems by blast
    obtain xs q' where xs: "pop_upto pop n q1 = Some (xs, q')" "inv q'"
      "mset xs + elems q' = elems q1" "sorted (map key xs)"
      "\<forall>x \<in> set xs. \<forall>y \<in># elems q'. key x \<le> key y" "length xs = min n (size (elems q1))"
      using Suc.IH [OF x(2)] by blast
    have "\<forall>y \<in># mset xs + elems q'. key x \<le> key y"
      using x(3,4) xs(3) by simp
    then have "sorted (map key (x # xs)) \<and> (\<forall>z \<in> set (x # xs). \<forall>y \<in># elems q'. key z \<le> key y)"
      using xs(4,5) by auto
    then show ?thesis using x xs by (auto simp: add_mset_commute)
  qed
qed simp

end

definition pop_quiet :: "wait_heap \<Rightarrow> (hwaiter option \<times> wait_heap) option" where
  "pop_quiet w = map_option (\<lambda>(r, _, w'). (r, w')) (wh_pop False w)"

lemma wh_elems_empty: "wh_inv w \<Longrightarrow> wh_elems w = {#} \<longleftrightarrow> nwaiters w = 0"
  by (auto simp: wh_elems_def wh_inv_def kconst)

lemma size_wh_elems: "wh_inv w \<Longrightarrow> size (wh_elems w) = nwaiters w"
  by (auto simp: wh_elems_def wh_inv_def)

interpretation timers: timer_queue wh_inv wh_elems wakeup_time pop_quiet
proof
  show "wh_inv w \<Longrightarrow> wh_elems w = {#} \<Longrightarrow> pop_quiet w = Some (None, w)" for w
    by (simp add: wh_elems_empty pop_quiet_def wh_pop_empty)
  show "wh_inv w \<Longrightarrow> wh_elems w \<noteq> {#} \<Longrightarrow> \<exists>x w'. pop_quiet w = Some (Some x, w') \<and> wh_inv w'
      \<and> wh_elems w = add_mset x (wh_elems w') \<and> (\<forall>y \<in># wh_elems w. wakeup_time x \<le> wakeup_time y)" for w
    using wh_pop_correct [of w False] by (auto simp: wh_elems_empty pop_quiet_def)
qed

subsection \<open>Properties\<close>

lemma top_waketime_least:
  assumes "wh_inv w"
  shows "top_waketime w = Some (if wh_elems w = {#} then 0 else Min (wakeup_time ` set_mset (wh_elems w)))"
proof (cases "nwaiters w = 0")
  case True then show ?thesis using wh_elems_empty [OF assms] by (simp add: top_waketime_def)
next
  case False
  obtain r w' where r: "wh_pop False w = Some (Some r, [], w')" "wh_elems w = add_mset r (wh_elems w')"
    "\<forall>x \<in># wh_elems w. wakeup_time r \<le> wakeup_time x"
    using wh_pop_correct [OF assms False, of False] by auto
  then have "waiter_arr w ! 0 = Some r" using False by (auto simp: wh_pop_def Let_def split: option.splits if_splits)
  moreover have "Min (wakeup_time ` set_mset (wh_elems w)) = wakeup_time r" using r(2,3) by (intro Min_eqI) auto
  ultimately show ?thesis using False wh_elems_empty [OF assms] by (simp add: top_waketime_def)
qed

text \<open>
  C8. The wait heap is a priority queue: \<^verbatim>\<open>insert\<close> adds exactly the waiter, or fails its assertion when all
  16 slots are taken; any number of pops returns the waiters with the earliest wake-up times, in order, and keeps
  all the others; \<^verbatim>\<open>top_waketime\<close> is the earliest wake-up time of the waiters on the heap, or 0 when it is
  empty, before and after. Nothing follows a null pointer, and all keep the heap shape.
\<close>

theorem wait_heap_priority_queue:
  assumes "wh_inv w"
  shows "if nwaiters w = WAITNPROC then wh_insert w hw = None
    else \<exists>w'. wh_insert w hw = Some w' \<and> wh_inv w' \<and> wh_elems w' = add_mset hw (wh_elems w)
    \<and> top_waketime w' = Some (Min (insert (wakeup_time hw) (wakeup_time ` set_mset (wh_elems w))))
    \<and> (\<exists>xs w''. pop_upto pop_quiet n w' = Some (xs, w'') \<and> wh_inv w''
          \<and> mset xs + wh_elems w'' = add_mset hw (wh_elems w) \<and> sorted (map wakeup_time xs)
          \<and> (\<forall>x \<in> set xs. \<forall>y \<in># wh_elems w''. wakeup_time x \<le> wakeup_time y)
          \<and> length xs = min n (nwaiters w + 1)
          \<and> top_waketime w'' = Some (if wh_elems w'' = {#} then 0 else Min (wakeup_time ` set_mset (wh_elems w''))))"
proof (cases "nwaiters w = WAITNPROC")
  case True then show ?thesis by (simp add: wh_insert_def)
next
  case False
  then have "nwaiters w < WAITNPROC" using assms by (auto simp: wh_inv_def)
  then obtain w' where w': "wh_insert w hw = Some w'" "wh_inv w'" "nwaiters w' = nwaiters w + 1"
    "wh_elems w' = add_mset hw (wh_elems w)"
    using wh_insert_correct [OF assms] by blast
  then have "top_waketime w' = Some (Min (insert (wakeup_time hw) (wakeup_time ` set_mset (wh_elems w))))"
    using top_waketime_least [OF w'(2)] by simp
  moreover obtain xs w'' where p: "pop_upto pop_quiet n w' = Some (xs, w'')" "wh_inv w''"
    "mset xs + wh_elems w'' = add_mset hw (wh_elems w)" "sorted (map wakeup_time xs)"
    "\<forall>x \<in> set xs. \<forall>y \<in># wh_elems w''. wakeup_time x \<le> wakeup_time y" "length xs = min n (nwaiters w + 1)"
    using timers.pop_upto_ordered [OF w'(2), of n] size_wh_elems [OF w'(2)] w'(3,4) by auto
  moreover note top_waketime_least [OF p(2)]
  ultimately show ?thesis using w'(1,2,4) False by (simp only: if_False) blast
qed

theorem wait_heap_priority_queue_witness:
  "\<exists>w'. wh_insert wh_init \<lparr>hw_addr = 1, hw_proc = 2, wakeup_time = 30\<rparr> = Some w' \<and> wh_inv w' \<and> top_waketime w' = Some 30"
  using wait_heap_priority_queue [of wh_init "\<lparr>hw_addr = 1, hw_proc = 2, wakeup_time = 30\<rparr>" 0]
    wh_inv_init by (auto simp: wh_init_def kconst)

text \<open>
  The search loop of \<^verbatim>\<open>hwaiter::clear\<close> compares its index with a heap size that shrinks as it
  pops, so it stops half way: with two waiters, clearing the later one leaves it on the heap.
\<close>

definition hw_a :: hwaiter where "hw_a = \<lparr>hw_addr = 1, hw_proc = 1, wakeup_time = 10\<rparr>"
definition hw_b :: hwaiter where "hw_b = \<lparr>hw_addr = 2, hw_proc = 2, wakeup_time = 20\<rparr>"

definition two_waiters :: wait_heap where
  "two_waiters = \<lparr>nwaiters = 2, waiter_arr = [Some hw_a, Some hw_b] @ replicate 14 None\<rparr>"

lemma wh_inv_two_waiters: "wh_inv two_waiters"
  by (auto simp: wh_inv_def two_waiters_def slots_ok_def heap_but_def kconst wh_parent_def
      hw_a_def hw_b_def dest!: less_2_cases)

lemma hwaiter_clear_misses:
  "\<exists>ws w'. hwaiter_clear hw_b two_waiters = Some (ws, w') \<and> is_on_heap w' hw_b"
  by (simp add: hwaiter_clear_def two_waiters_def is_on_heap_def clear_pop.simps wh_size_def wh_pop_def
      heapify.simps wh_child_less_def wh_left_def wh_right_def wh_insert_def sift_up.simps wh_less_def
      wh_parent_def wh_swap_def hw_a_def hw_b_def kconst Let_def numeral_eq_Suc)

end
