(* ===== verification/Pipe.thy ===== *)
theory Pipe
  imports Prelude
begin

text \<open>
  The bounded buffer behind a pipe, \<^verbatim>\<open>struct pipe_bbuf\<close> of \<^verbatim>\<open>k-vfs.hh\<close> and \<^verbatim>\<open>k-vfs.cc\<close>.
  The buffer keeps its 256 slots and its two indices. A call that has to sleep returns
  \<open>Blocked\<close> with the caller on the wait queue; \<^verbatim>\<open>block_until\<close> runs the call again when the
  caller is woken. A call that completes returns \<open>Done\<close>, its C result, the bytes delivered and the
  processes woken. A wait queue is the sequence of the processes on it. The user buffer of a write
  is the list of its bytes, and its length is the argument \<^verbatim>\<open>sz\<close>.
\<close>

definition BBUF_CAP :: nat where [kconst]: "BBUF_CAP = 256"

text \<open>The cast \<^verbatim>\<open>(int) sz\<close> of a \<^verbatim>\<open>size_t\<close>.\<close>

definition int_cast :: "nat \<Rightarrow> int" where
  "int_cast n = (let m = int n mod 2 ^ 32 in if m < 2 ^ 31 then m else m - 2 ^ 32)"

record pipe_bbuf =
  bbuf :: "u8 list"
  bpos :: nat
  blen :: nat
  write_closed :: bool
  read_closed :: bool
  rdq :: "nat list"
  wrq :: "nat list"

datatype pipe_result = Blocked | Done (ret: int) (data_out: "u8 list") (woken: "nat list")

definition bbuf_new :: "u8 list \<Rightarrow> pipe_bbuf" where
  "bbuf_new junk = \<lparr>bbuf = junk, bpos = 0, blen = 0, write_closed = False, read_closed = False,
     rdq = [], wrq = []\<rparr>"

definition pipe_empty :: "pipe_bbuf \<Rightarrow> bool" where
  "pipe_empty b \<longleftrightarrow> blen b = 0"

definition pipe_full :: "pipe_bbuf \<Rightarrow> bool option" where
  "pipe_full b = check (blen b \<le> BBUF_CAP) (Some (blen b = BBUF_CAP))"

definition close_write :: "pipe_bbuf \<Rightarrow> pipe_bbuf option" where
  "close_write b = check (\<not> write_closed b) (Some (b\<lparr>write_closed := True\<rparr>))"

definition close_read :: "pipe_bbuf \<Rightarrow> pipe_bbuf option" where
  "close_read b = check (\<not> read_closed b) (Some (b\<lparr>read_closed := True\<rparr>))"

text \<open>The copy loop of \<^verbatim>\<open>pipe_bbuf::write\<close>, from local position \<open>p\<close>.\<close>

partial_function (option) write_loop :: "pipe_bbuf \<Rightarrow> u8 list \<Rightarrow> nat \<Rightarrow> (nat \<times> pipe_bbuf) option" where
  "write_loop b src p =
     (if int p < int_cast (length src) \<and> blen b < BBUF_CAP then
        (let index = (bpos b + blen b) mod BBUF_CAP;
             available_space = min (BBUF_CAP - index) (BBUF_CAP - blen b);
             wr_sz = min (nat (int_cast (length src)) - p) available_space
         in write_loop (b\<lparr>bbuf := blit (bbuf b) index (take wr_sz (drop p src)), blen := blen b + wr_sz\<rparr>)
              src (p + wr_sz))
      else Some (p, b))"

definition bbuf_write :: "nat \<Rightarrow> pipe_bbuf \<Rightarrow> u8 list \<Rightarrow> (pipe_result \<times> pipe_bbuf) option" where
  "bbuf_write me b src =
     check (\<not> write_closed b)
      (case pipe_full b of
         None \<Rightarrow> None
       | Some full \<Rightarrow>
           if full \<and> src \<noteq> [] \<and> \<not> read_closed b then Some (Blocked, b\<lparr>wrq := wrq b @ [me]\<rparr>)
           else if read_closed b then Some (Done E_PIPE [] [], b)
           else
             (case write_loop b src 0 of
                None \<Rightarrow> None
              | Some (p, b') \<Rightarrow> Some (Done (int p) [] (rdq b'), b'\<lparr>rdq := []\<rparr>)))"

text \<open>The copy loop of \<^verbatim>\<open>pipe_bbuf::read\<close>; \<open>acc\<close> are the bytes stored at \<^verbatim>\<open>addr\<close> so far.\<close>

partial_function (option) read_loop :: "pipe_bbuf \<Rightarrow> nat \<Rightarrow> nat \<Rightarrow> u8 list \<Rightarrow> (nat \<times> u8 list \<times> pipe_bbuf) option" where
  "read_loop b sz p acc =
     (if int p < int_cast sz \<and> blen b > 0 then
        (let available_space = min (blen b) (BBUF_CAP - bpos b);
             n = min (sz - p) available_space
         in read_loop (b\<lparr>bpos := (bpos b + n) mod BBUF_CAP, blen := blen b - n\<rparr>) sz (p + n)
              (acc @ take n (drop (bpos b) (bbuf b))))
      else Some (p, acc, b))"

definition bbuf_read :: "nat \<Rightarrow> pipe_bbuf \<Rightarrow> nat \<Rightarrow> (pipe_result \<times> pipe_bbuf) option" where
  "bbuf_read me b sz =
     check (\<not> read_closed b)
      (if pipe_empty b \<and> \<not> write_closed b \<and> sz \<noteq> 0 then Some (Blocked, b\<lparr>rdq := rdq b @ [me]\<rparr>)
       else if write_closed b \<and> pipe_empty b then Some (Done 0 [] [], b)
       else
         (case read_loop b sz 0 [] of
            None \<Rightarrow> None
          | Some (p, out, b') \<Rightarrow> Some (Done (int p) out (wrq b'), b'\<lparr>wrq := []\<rparr>)))"

text \<open>
  The part of \<^verbatim>\<open>pipe_vnode::~pipe_vnode\<close> that closes one end: the processes woken, the buffer,
  and whether the buffer is then deleted.
\<close>

definition close_end :: "bool \<Rightarrow> pipe_bbuf \<Rightarrow> (nat list \<times> pipe_bbuf \<times> bool) option" where
  "close_end is_read b =
     (if is_read
      then map_option (\<lambda>b'. (wrq b', b'\<lparr>wrq := []\<rparr>, write_closed b' \<and> read_closed b')) (close_read b)
      else map_option (\<lambda>b'. (rdq b', b'\<lparr>rdq := []\<rparr>, write_closed b' \<and> read_closed b')) (close_write b))"

subsection \<open>The abstract pipe\<close>

definition contents :: "pipe_bbuf \<Rightarrow> u8 list" where
  "contents b = map (\<lambda>k. bbuf b ! ((bpos b + k) mod BBUF_CAP)) [0..<blen b]"

definition bbuf_inv :: "pipe_bbuf \<Rightarrow> bool" where
  "bbuf_inv b \<longleftrightarrow> length (bbuf b) = BBUF_CAP \<and> bpos b < BBUF_CAP \<and> blen b \<le> BBUF_CAP"

text \<open>No lost wake-up: a process sleeps on a queue only while its wait predicate is false.\<close>

definition sleepers_ok :: "pipe_bbuf \<Rightarrow> bool" where
  "sleepers_ok b \<longleftrightarrow> (rdq b \<noteq> [] \<longrightarrow> blen b = 0 \<and> \<not> write_closed b)
     \<and> (wrq b \<noteq> [] \<longrightarrow> blen b = BBUF_CAP \<and> \<not> read_closed b)"

subsection \<open>Lemmas\<close>

lemma length_contents [simp]: "length (contents b) = blen b"
  by (simp add: contents_def)

lemma int_cast_small: "n < 2 ^ 31 \<Longrightarrow> int_cast n = int n"
  by (simp add: int_cast_def Let_def)

lemma contents_write_chunk:
  assumes "bbuf_inv b" "length xs \<le> BBUF_CAP - blen b"
    "length xs \<le> BBUF_CAP - (bpos b + blen b) mod BBUF_CAP"
  shows "contents (b\<lparr>bbuf := blit (bbuf b) ((bpos b + blen b) mod BBUF_CAP) xs, blen := blen b + length xs\<rparr>)
    = contents b @ xs"
proof -
  let ?i = "(bpos b + blen b) mod BBUF_CAP"
  let ?buf = "blit (bbuf b) ?i xs"
  have len: "length (bbuf b) = BBUF_CAP" "bpos b < BBUF_CAP" "blen b \<le> BBUF_CAP"
    using assms(1) by (auto simp: bbuf_inv_def)
  have fits: "?i + length xs \<le> length (bbuf b)"
    using assms(3) len by (simp add: kconst)
  have old: "?buf ! ((bpos b + k) mod BBUF_CAP) = bbuf b ! ((bpos b + k) mod BBUF_CAP)"
    if "k < blen b" for k
  proof -
    have "\<not> (?i \<le> (bpos b + k) mod BBUF_CAP \<and> (bpos b + k) mod BBUF_CAP < ?i + length xs)"
      using that len assms(2,3) by (auto simp: kconst mod_if split: if_splits)
    then show ?thesis using fits len by (subst nth_blit) (auto simp: kconst)
  qed
  have new: "?buf ! ((bpos b + (blen b + k)) mod BBUF_CAP) = xs ! k" if "k < length xs" for k
  proof -
    have "(bpos b + (blen b + k)) mod BBUF_CAP = ?i + k"
    proof -
      have "(bpos b + (blen b + k)) mod BBUF_CAP = (?i + k) mod BBUF_CAP"
        by (metis add.assoc mod_add_left_eq)
      then show ?thesis using that fits len by simp
    qed
    then show ?thesis using that fits by (subst nth_blit) auto
  qed
  show ?thesis
  proof (rule nth_equalityI)
    fix k assume "k < length (contents (b\<lparr>bbuf := ?buf, blen := blen b + length xs\<rparr>))"
    then have k: "k < blen b + length xs" by simp
    show "contents (b\<lparr>bbuf := ?buf, blen := blen b + length xs\<rparr>) ! k = (contents b @ xs) ! k"
    proof (cases "k < blen b")
      case True
      then show ?thesis using old by (simp add: contents_def nth_append)
    next
      case False
      then show ?thesis using new [of "k - blen b"] k by (simp add: contents_def nth_append)
    qed
  qed simp
qed


lemma contents_read_chunk:
  assumes "bbuf_inv b" "n \<le> blen b" "n \<le> BBUF_CAP - bpos b"
  shows "take n (drop (bpos b) (bbuf b)) = take n (contents b)"
    and "contents (b\<lparr>bpos := (bpos b + n) mod BBUF_CAP, blen := blen b - n\<rparr>) = drop n (contents b)"
proof -
  have len: "length (bbuf b) = BBUF_CAP" "bpos b < BBUF_CAP"
    using assms(1) by (auto simp: bbuf_inv_def)
  show "take n (drop (bpos b) (bbuf b)) = take n (contents b)"
    using assms len by (intro nth_equalityI) (auto simp: contents_def)
  have "((bpos b + n) mod BBUF_CAP + k) mod BBUF_CAP = (bpos b + (n + k)) mod BBUF_CAP" for k
    by (metis add.assoc mod_add_left_eq)
  then show "contents (b\<lparr>bpos := (bpos b + n) mod BBUF_CAP, blen := blen b - n\<rparr>) = drop n (contents b)"
    using assms(2) by (intro nth_equalityI) (auto simp: contents_def)
qed

text \<open>Both copy loops terminate; they move as many bytes as fit.\<close>

lemma write_loop_correct:
  assumes "bbuf_inv b" "length src < 2 ^ 31" "p \<le> length src"
    and n: "n = min (length src - p) (BBUF_CAP - blen b)"
  shows "\<exists>buf'. write_loop b src p = Some (p + n, b\<lparr>bbuf := buf', blen := blen b + n\<rparr>)
    \<and> bbuf_inv (b\<lparr>bbuf := buf', blen := blen b + n\<rparr>)
    \<and> contents (b\<lparr>bbuf := buf', blen := blen b + n\<rparr>) = contents b @ take n (drop p src)"
  using assms
proof (induction "BBUF_CAP - blen b" arbitrary: b p n rule: less_induct)
  case less
  have ic: "int_cast (length src) = int (length src)" using less.prems by (simp add: int_cast_small)
  show ?case
  proof (cases "p < length src \<and> blen b < BBUF_CAP")
    case False
    then have "n = 0" "write_loop b src p = Some (p, b)"
      using less.prems by (auto simp: write_loop.simps [of b] ic)
    then show ?thesis using less.prems by (intro exI [of _ "bbuf b"]) simp
  next
    case True
    define i where "i = (bpos b + blen b) mod BBUF_CAP"
    define w where "w = min (length src - p) (min (BBUF_CAP - i) (BBUF_CAP - blen b))"
    define xs where "xs = take w (drop p src)"
    let ?b = "b\<lparr>bbuf := blit (bbuf b) i xs, blen := blen b + w\<rparr>"
    have i: "i < BBUF_CAP" by (simp add: i_def kconst)
    have w: "0 < w" "w \<le> length src - p" "w \<le> BBUF_CAP - i" "w \<le> BBUF_CAP - blen b"
      using True i by (auto simp: w_def)
    have lx: "length xs = w" using w(2) by (simp add: xs_def)
    have unf: "write_loop b src p = write_loop ?b src (p + w)"
      using True by (subst write_loop.simps) (simp add: ic Let_def w_def xs_def i_def)
    have "i + w \<le> length (bbuf b)" "blen b + w \<le> BBUF_CAP"
      using less.prems(1) True i w unfolding bbuf_inv_def by linarith+
    then have inv: "bbuf_inv ?b" using less.prems(1) lx by (simp add: bbuf_inv_def)
    have c: "contents ?b = contents b @ xs"
      using contents_write_chunk [OF less.prems(1), of xs] w lx by (simp add: i_def)
    define m where "m = n - w"
    have nm: "m = min (length src - (p + w)) (BBUF_CAP - blen ?b)" "n = w + m"
      using less.prems(4) w(2,4) by (auto simp: m_def min_def)
    have "\<exists>buf'. write_loop ?b src (p + w) = Some (p + w + m, ?b\<lparr>bbuf := buf', blen := blen ?b + m\<rparr>)
      \<and> bbuf_inv (?b\<lparr>bbuf := buf', blen := blen ?b + m\<rparr>)
      \<and> contents (?b\<lparr>bbuf := buf', blen := blen ?b + m\<rparr>) = contents ?b @ take m (drop (p + w) src)"
      by (rule less.hyps [OF _ inv less.prems(2) _ nm(1)]) (use w True in auto)
    moreover have "take n (drop p src) = xs @ take m (drop (p + w) src)"
      using take_add [of w m "drop p src"] by (simp add: nm(2) xs_def add.commute)
    ultimately show ?thesis using unf c nm(2) by (simp add: add.assoc)
  qed
qed

lemma read_loop_correct:
  assumes "bbuf_inv b" "sz < 2 ^ 31" "p \<le> sz"
    and n: "n = min (sz - p) (blen b)"
  shows "\<exists>q. read_loop b sz p acc = Some (p + n, acc @ take n (contents b), b\<lparr>bpos := q, blen := blen b - n\<rparr>)
    \<and> bbuf_inv (b\<lparr>bpos := q, blen := blen b - n\<rparr>)
    \<and> contents (b\<lparr>bpos := q, blen := blen b - n\<rparr>) = drop n (contents b)"
  using assms
proof (induction "blen b" arbitrary: b p n acc rule: less_induct)
  case less
  have ic: "int_cast sz = int sz" using less.prems by (simp add: int_cast_small)
  show ?case
  proof (cases "p < sz \<and> 0 < blen b")
    case False
    then have "n = 0" "read_loop b sz p acc = Some (p, acc, b)"
      using less.prems by (auto simp: read_loop.simps [of b] ic)
    then show ?thesis using less.prems by (intro exI [of _ "bpos b"]) simp
  next
    case True
    define k where "k = min (sz - p) (min (blen b) (BBUF_CAP - bpos b))"
    let ?b = "b\<lparr>bpos := (bpos b + k) mod BBUF_CAP, blen := blen b - k\<rparr>"
    have k: "0 < k" "k \<le> sz - p" "k \<le> blen b" "k \<le> BBUF_CAP - bpos b"
      using True less.prems(1) by (auto simp: k_def bbuf_inv_def)
    note chunk = contents_read_chunk [OF less.prems(1) k(3,4)]
    let ?acc = "acc @ take k (contents b)"
    have unf: "read_loop b sz p acc = read_loop ?b sz (p + k) ?acc"
      using True chunk(1) by (subst read_loop.simps) (simp add: ic Let_def k_def)
    have inv: "bbuf_inv ?b" using less.prems(1) by (auto simp: bbuf_inv_def kconst)
    define m where "m = n - k"
    have nm: "m = min (sz - (p + k)) (blen ?b)" "n = k + m"
      using less.prems(4) k(2,3) by (auto simp: m_def min_def)
    have "\<exists>q. read_loop ?b sz (p + k) ?acc
        = Some (p + k + m, ?acc @ take m (contents ?b), ?b\<lparr>bpos := q, blen := blen ?b - m\<rparr>)
      \<and> bbuf_inv (?b\<lparr>bpos := q, blen := blen ?b - m\<rparr>)
      \<and> contents (?b\<lparr>bpos := q, blen := blen ?b - m\<rparr>) = drop m (contents ?b)"
      by (rule less.hyps [OF _ inv less.prems(2) _ nm(1)]) (use k True in auto)
    moreover have "take n (contents b) = take k (contents b) @ take m (drop k (contents b))"
      using take_add [of k m "contents b"] by (simp add: nm(2))
    ultimately show ?thesis using unf chunk(2) nm(2) by (simp add: add.assoc add.commute [of m k])
  qed
qed

subsection \<open>The operations against the abstract pipe\<close>

lemma bbuf_write_blocked:
  assumes "bbuf_inv b" "\<not> write_closed b" "blen b = BBUF_CAP" "src \<noteq> []" "\<not> read_closed b"
  shows "bbuf_write me b src = Some (Blocked, b\<lparr>wrq := wrq b @ [me]\<rparr>)"
  using assms by (simp add: bbuf_write_def pipe_full_def)

lemma bbuf_write_broken:
  assumes "bbuf_inv b" "\<not> write_closed b" "read_closed b"
  shows "bbuf_write me b src = Some (Done E_PIPE [] [], b)"
  using assms by (simp add: bbuf_write_def pipe_full_def bbuf_inv_def)

lemma bbuf_write_done:
  assumes "bbuf_inv b" "length src < 2 ^ 31" "\<not> write_closed b" "\<not> read_closed b"
    "blen b < BBUF_CAP \<or> src = []"
    and n: "n = min (length src) (BBUF_CAP - blen b)"
  shows "\<exists>b'. bbuf_write me b src = Some (Done (int n) [] (rdq b), b') \<and> bbuf_inv b'
    \<and> contents b' = contents b @ take n src \<and> blen b' = blen b + n
    \<and> rdq b' = [] \<and> wrq b' = wrq b \<and> write_closed b' = write_closed b \<and> read_closed b' = read_closed b"
proof -
  obtain buf' where w: "write_loop b src 0 = Some (n, b\<lparr>bbuf := buf', blen := blen b + n\<rparr>)"
    "bbuf_inv (b\<lparr>bbuf := buf', blen := blen b + n\<rparr>)"
    "contents (b\<lparr>bbuf := buf', blen := blen b + n\<rparr>) = contents b @ take n src"
    using write_loop_correct [OF assms(1,2), of 0 n] n by auto
  have "bbuf_write me b src
      = Some (Done (int n) [] (rdq b), b\<lparr>bbuf := buf', blen := blen b + n, rdq := []\<rparr>)"
    using w(1) assms by (auto simp: bbuf_write_def pipe_full_def bbuf_inv_def)
  moreover have "bbuf_inv (b\<lparr>bbuf := buf', blen := blen b + n, rdq := []\<rparr>)"
    using w(2) by (simp add: bbuf_inv_def)
  moreover have "contents (b\<lparr>bbuf := buf', blen := blen b + n, rdq := []\<rparr>) = contents b @ take n src"
    using w(3) by (simp add: contents_def)
  ultimately show ?thesis by auto
qed

lemma bbuf_read_blocked:
  assumes "\<not> read_closed b" "blen b = 0" "\<not> write_closed b" "sz \<noteq> 0"
  shows "bbuf_read me b sz = Some (Blocked, b\<lparr>rdq := rdq b @ [me]\<rparr>)"
  using assms by (simp add: bbuf_read_def pipe_empty_def)

lemma bbuf_read_eof:
  assumes "\<not> read_closed b" "blen b = 0" "write_closed b"
  shows "bbuf_read me b sz = Some (Done 0 [] [], b)"
  using assms by (simp add: bbuf_read_def pipe_empty_def)

lemma bbuf_read_done:
  assumes "bbuf_inv b" "sz < 2 ^ 31" "\<not> read_closed b" "0 < blen b \<or> \<not> write_closed b \<and> sz = 0"
    and n: "n = min sz (blen b)"
  shows "\<exists>b'. bbuf_read me b sz = Some (Done (int n) (take n (contents b)) (wrq b), b') \<and> bbuf_inv b'
    \<and> contents b' = drop n (contents b) \<and> blen b' = blen b - n
    \<and> wrq b' = [] \<and> rdq b' = rdq b \<and> write_closed b' = write_closed b \<and> read_closed b' = read_closed b"
proof -
  obtain q where r: "read_loop b sz 0 [] = Some (n, take n (contents b), b\<lparr>bpos := q, blen := blen b - n\<rparr>)"
    "bbuf_inv (b\<lparr>bpos := q, blen := blen b - n\<rparr>)"
    "contents (b\<lparr>bpos := q, blen := blen b - n\<rparr>) = drop n (contents b)"
    using read_loop_correct [OF assms(1,2), of 0 n "[]"] n by auto
  have "bbuf_read me b sz
      = Some (Done (int n) (take n (contents b)) (wrq b), b\<lparr>bpos := q, blen := blen b - n, wrq := []\<rparr>)"
    using r(1) assms by (auto simp: bbuf_read_def pipe_empty_def)
  moreover have "bbuf_inv (b\<lparr>bpos := q, blen := blen b - n, wrq := []\<rparr>)"
    using r(2) by (simp add: bbuf_inv_def)
  moreover have "contents (b\<lparr>bpos := q, blen := blen b - n, wrq := []\<rparr>) = drop n (contents b)"
    using r(3) by (simp add: contents_def)
  ultimately show ?thesis by auto
qed

subsection \<open>Interleavings of readers and writers\<close>

datatype pipe_op = Write nat "u8 list" | Read nat nat | CloseWrite | CloseRead

fun op_ok :: "pipe_op \<Rightarrow> bool" where
  "op_ok (Write me src) \<longleftrightarrow> length src < 2 ^ 31"
| "op_ok (Read me sz) \<longleftrightarrow> sz < 2 ^ 31"
| "op_ok _ \<longleftrightarrow> True"

text \<open>One call: the bytes it put into the pipe, the bytes it took out, and the new buffer.\<close>

fun pipe_step :: "pipe_bbuf \<Rightarrow> pipe_op \<Rightarrow> (u8 list \<times> u8 list \<times> pipe_bbuf) option" where
  "pipe_step b (Write me src) =
     map_option (\<lambda>(r, b'). (case r of Blocked \<Rightarrow> [] | Done n _ _ \<Rightarrow> take (nat n) src, [], b'))
       (bbuf_write me b src)"
| "pipe_step b (Read me sz) =
     map_option (\<lambda>(r, b'). ([], case r of Blocked \<Rightarrow> [] | Done _ out _ \<Rightarrow> out, b')) (bbuf_read me b sz)"
| "pipe_step b CloseWrite = map_option (\<lambda>(_, b', _). ([], [], b')) (close_end False b)"
| "pipe_step b CloseRead = map_option (\<lambda>(_, b', _). ([], [], b')) (close_end True b)"

fun pipe_run :: "pipe_bbuf \<Rightarrow> pipe_op list \<Rightarrow> (u8 list \<times> u8 list \<times> pipe_bbuf) option" where
  "pipe_run b [] = Some ([], [], b)"
| "pipe_run b (x # xs) =
     (case pipe_step b x of
        None \<Rightarrow> None
      | Some (i, out, b') \<Rightarrow>
          map_option (\<lambda>(is, os, b''). (i @ is, out @ os, b'')) (pipe_run b' xs))"

text \<open>Every step conserves the stream, keeps the buffer well formed and loses no wake-up.\<close>

definition stream_ok :: "pipe_bbuf \<Rightarrow> u8 list \<times> u8 list \<times> pipe_bbuf \<Rightarrow> bool" where
  "stream_ok b r \<longleftrightarrow> (case r of (i, out, b') \<Rightarrow>
     bbuf_inv b' \<and> contents b @ i = out @ contents b' \<and> (sleepers_ok b \<longrightarrow> sleepers_ok b'))"

lemma pipe_step_write:
  assumes "bbuf_inv b" "length src < 2 ^ 31" "pipe_step b (Write me src) = Some r"
  shows "stream_ok b r"
proof -
  have wc: "\<not> write_closed b" using assms(3) by (auto simp: bbuf_write_def split: if_splits)
  consider (blocked) "blen b = BBUF_CAP" "src \<noteq> []" "\<not> read_closed b" | (broken) "read_closed b"
    | (fin) "blen b < BBUF_CAP \<or> src = []" "\<not> read_closed b"
    using assms(1) by (force simp: bbuf_inv_def)
  then show ?thesis
  proof cases
    case blocked
    then have "r = ([], [], b\<lparr>wrq := wrq b @ [me]\<rparr>)"
      using assms(1,3) wc by (simp add: bbuf_write_blocked)
    then show ?thesis
      using assms(1) blocked by (auto simp: stream_ok_def bbuf_inv_def contents_def sleepers_ok_def)
  next
    case broken
    then show ?thesis
      using assms(1,3) wc by (auto simp: bbuf_write_broken stream_ok_def errno)
  next
    case fin
    obtain b' where "bbuf_write me b src = Some (Done (int (min (length src) (BBUF_CAP - blen b))) [] (rdq b), b')"
      "bbuf_inv b'" "contents b' = contents b @ take (min (length src) (BBUF_CAP - blen b)) src"
      "blen b' = blen b + min (length src) (BBUF_CAP - blen b)" "rdq b' = []" "wrq b' = wrq b"
      "read_closed b' = read_closed b"
      using bbuf_write_done [OF assms(1,2) wc fin(2,1) refl] by blast
    then show ?thesis
      using assms(3) fin(1) by (auto simp: stream_ok_def sleepers_ok_def)
  qed
qed

lemma pipe_step_read:
  assumes "bbuf_inv b" "sz < 2 ^ 31" "pipe_step b (Read me sz) = Some r"
  shows "stream_ok b r"
proof -
  have rc: "\<not> read_closed b" using assms(3) by (auto simp: bbuf_read_def split: if_splits)
  consider (blocked) "blen b = 0" "\<not> write_closed b" "sz \<noteq> 0" | (eof) "blen b = 0" "write_closed b"
    | (fin) "0 < blen b \<or> \<not> write_closed b \<and> sz = 0"
    by fastforce
  then show ?thesis
  proof cases
    case blocked
    then have "r = ([], [], b\<lparr>rdq := rdq b @ [me]\<rparr>)"
      using assms(3) rc by (simp add: bbuf_read_blocked)
    then show ?thesis
      using assms(1) blocked by (auto simp: stream_ok_def bbuf_inv_def contents_def sleepers_ok_def)
  next
    case eof
    then show ?thesis
      using assms(1,3) rc by (auto simp: bbuf_read_eof stream_ok_def)
  next
    case fin
    obtain b' where "bbuf_read me b sz = Some (Done (int (min sz (blen b))) (take (min sz (blen b)) (contents b)) (wrq b), b')"
      "bbuf_inv b'" "contents b' = drop (min sz (blen b)) (contents b)" "blen b' = blen b - min sz (blen b)"
      "wrq b' = []" "rdq b' = rdq b" "write_closed b' = write_closed b"
      using bbuf_read_done [OF assms(1,2) rc fin refl] by blast
    then show ?thesis
      using assms(3) by (auto simp: stream_ok_def sleepers_ok_def)
  qed
qed

lemma pipe_step_close:
  assumes "bbuf_inv b" "close_end e b = Some (ws, b', d)"
  shows "stream_ok b ([], [], b')"
  using assms
  by (auto simp: close_end_def close_read_def close_write_def stream_ok_def bbuf_inv_def contents_def
      sleepers_ok_def split: if_splits)

lemma pipe_step_ok: "bbuf_inv b \<Longrightarrow> op_ok x \<Longrightarrow> pipe_step b x = Some r \<Longrightarrow> stream_ok b r"
  by (cases x) (use pipe_step_write pipe_step_read pipe_step_close in \<open>auto simp del: pipe_step.simps(1,2)\<close>)

lemma pipe_run_ok:
  "bbuf_inv b \<Longrightarrow> list_all op_ok xs \<Longrightarrow> pipe_run b xs = Some r \<Longrightarrow> stream_ok b r"
proof (induction xs arbitrary: b r)
  case Nil
  then show ?case by (auto simp: stream_ok_def)
next
  case (Cons x xs)
  obtain i out b1 "is" os b2 where s: "pipe_step b x = Some (i, out, b1)"
    and t: "pipe_run b1 xs = Some (is, os, b2)" and r: "r = (i @ is, out @ os, b2)"
    using Cons.prems(3) by (auto split: option.splits)
  have 1: "stream_ok b (i, out, b1)" using Cons.prems s by (auto intro: pipe_step_ok)
  then have 2: "stream_ok b1 (is, os, b2)" using Cons t by (auto simp: stream_ok_def)
  from 1 2 show ?case unfolding r stream_ok_def by (auto, (metis append_assoc)+)
qed

subsection \<open>Properties\<close>

text \<open>
  C4. A pipe is a first-in first-out byte stream: whatever calls readers and writers make, in any
  interleaving and from a fresh pipe, the bytes accepted are exactly the bytes delivered followed by
  the bytes still in the buffer, and no process is left asleep on a queue whose condition holds.
\<close>

theorem pipe_stream:
  assumes "length junk = BBUF_CAP" "list_all op_ok ops"
    "pipe_run (bbuf_new junk) ops = Some (accepted, delivered, b')"
  shows "accepted = delivered @ contents b' \<and> bbuf_inv b' \<and> sleepers_ok b'"
proof -
  have inv: "bbuf_inv (bbuf_new junk)" using assms(1) by (simp add: bbuf_inv_def bbuf_new_def kconst)
  have "contents (bbuf_new junk) = []" "sleepers_ok (bbuf_new junk)"
    by (simp_all add: contents_def bbuf_new_def sleepers_ok_def)
  then show ?thesis using pipe_run_ok [OF inv assms(2,3)] by (simp add: stream_ok_def)
qed

theorem pipe_stream_witness:
  "\<exists>b'. pipe_run (bbuf_new (replicate BBUF_CAP 0)) [Write 1 [7, 8], CloseWrite] = Some ([7, 8], [], b')
     \<and> [7, 8] = [] @ contents b'"
proof -
  let ?b = "bbuf_new (replicate BBUF_CAP 0)"
  have inv: "bbuf_inv ?b" "\<not> write_closed ?b" "\<not> read_closed ?b" "blen ?b < BBUF_CAP \<or> [7, 8::u8] = []"
    by (simp_all add: bbuf_inv_def bbuf_new_def kconst)
  obtain b1 where b1: "bbuf_write 1 ?b [7, 8] = Some (Done 2 [] [], b1)" "write_closed b1 = write_closed ?b"
    using bbuf_write_done [OF inv(1) _ inv(2,3,4) refl, where me = 1] by (auto simp: bbuf_new_def kconst)
  then obtain b' where r: "pipe_run ?b [Write 1 [7, 8], CloseWrite] = Some ([7, 8], [], b')"
    by (auto simp: close_end_def close_write_def bbuf_new_def numeral_2_eq_2)
  have "[7, 8] = [] @ contents b'" using pipe_stream [OF _ _ r] by simp
  with r show ?thesis by blast
qed

text \<open>
  C5. What each call does on each branch, for a buffer in any state. A write asserts that its own end is open; on a
  full pipe with a reader it sleeps, unless it has no bytes; with the read end closed it returns \<^verbatim>\<open>E_PIPE\<close>; otherwise
  it appends as many bytes as fit and wakes every sleeping reader. A read asserts that its own end is open; on an
  empty pipe it sleeps while there is a writer, and returns 0 once the write end is closed; otherwise, also when
  the write end is closed, it takes the oldest bytes and wakes every sleeping writer.
\<close>

theorem pipe_call_behaviour:
  assumes "bbuf_inv b" "length src < 2 ^ 31" "sz < 2 ^ 31"
  shows "(if write_closed b then bbuf_write me b src = None
      else if blen b = BBUF_CAP \<and> src \<noteq> [] \<and> \<not> read_closed b then bbuf_write me b src = Some (Blocked, b\<lparr>wrq := wrq b @ [me]\<rparr>)
      else if read_closed b then bbuf_write me b src = Some (Done E_PIPE [] [], b)
      else \<exists>b' n. bbuf_write me b src = Some (Done (int n) [] (rdq b), b') \<and> n = min (length src) (BBUF_CAP - blen b)
        \<and> bbuf_inv b' \<and> contents b' = contents b @ take n src
        \<and> rdq b' = [] \<and> wrq b' = wrq b \<and> write_closed b' = write_closed b \<and> read_closed b' = read_closed b)
    \<and> (if read_closed b then bbuf_read me b sz = None
      else if blen b = 0 \<and> \<not> write_closed b \<and> sz \<noteq> 0 then bbuf_read me b sz = Some (Blocked, b\<lparr>rdq := rdq b @ [me]\<rparr>)
      else if blen b = 0 \<and> write_closed b then bbuf_read me b sz = Some (Done 0 [] [], b)
      else \<exists>b' n. bbuf_read me b sz = Some (Done (int n) (take n (contents b)) (wrq b), b') \<and> n = min sz (blen b)
        \<and> bbuf_inv b' \<and> contents b' = drop n (contents b)
        \<and> wrq b' = [] \<and> rdq b' = rdq b \<and> write_closed b' = write_closed b \<and> read_closed b' = read_closed b)"
proof -
  have le: "blen b \<le> BBUF_CAP" using assms(1) by (simp add: bbuf_inv_def)
  have w: "\<exists>b' n. bbuf_write me b src = Some (Done (int n) [] (rdq b), b') \<and> n = min (length src) (BBUF_CAP - blen b)
        \<and> bbuf_inv b' \<and> contents b' = contents b @ take n src
        \<and> rdq b' = [] \<and> wrq b' = wrq b \<and> write_closed b' = write_closed b \<and> read_closed b' = read_closed b"
    if "\<not> write_closed b" "\<not> read_closed b" "\<not> (blen b = BBUF_CAP \<and> src \<noteq> [])"
    using bbuf_write_done [OF assms(1,2) that(1,2) _ refl, where me = me] that(3) le by fastforce
  have r: "\<exists>b' n. bbuf_read me b sz = Some (Done (int n) (take n (contents b)) (wrq b), b') \<and> n = min sz (blen b)
        \<and> bbuf_inv b' \<and> contents b' = drop n (contents b)
        \<and> wrq b' = [] \<and> rdq b' = rdq b \<and> write_closed b' = write_closed b \<and> read_closed b' = read_closed b"
    if "\<not> read_closed b" "\<not> (blen b = 0 \<and> \<not> write_closed b \<and> sz \<noteq> 0)" "\<not> (blen b = 0 \<and> write_closed b)"
  proof -
    have "0 < blen b \<or> \<not> write_closed b \<and> sz = 0" using that(2,3) by auto
    then show ?thesis using bbuf_read_done [OF assms(1,3) that(1) _ refl, where me = me] by blast
  qed
  have "write_closed b \<Longrightarrow> bbuf_write me b src = None" by (simp add: bbuf_write_def)
  moreover have "read_closed b \<Longrightarrow> bbuf_read me b sz = None" by (simp add: bbuf_read_def)
  ultimately show ?thesis
    using w r bbuf_write_blocked [OF assms(1), of src me] bbuf_write_broken [OF assms(1), of me src]
      bbuf_read_blocked [of b sz me] bbuf_read_eof [of b me sz]
    unfolding if_bool_eq_conj by (intro conjI impI) simp_all
qed

text \<open>A sleeping read of a new pipe, and a read after the writer has written three bytes and closed its end.\<close>

theorem pipe_call_behaviour_witness:
  "bbuf_read 3 (bbuf_new (replicate BBUF_CAP 0)) 5 = Some (Blocked, (bbuf_new (replicate BBUF_CAP 0))\<lparr>rdq := [3]\<rparr>)
   \<and> (\<exists>b. bbuf_read 3 ((bbuf_new (replicate BBUF_CAP 7))\<lparr>blen := 3, write_closed := True\<rparr>) 5 = Some (Done 3 [7, 7, 7] [], b))"
proof -
  let ?b = "(bbuf_new (replicate BBUF_CAP 7))\<lparr>blen := 3, write_closed := True\<rparr>"
  have inv: "bbuf_inv ?b" "bbuf_inv (bbuf_new (replicate BBUF_CAP 0))" by (simp_all add: bbuf_inv_def bbuf_new_def kconst)
  have c: "contents ?b = [7, 7, 7]" by (simp add: contents_def bbuf_new_def kconst upt_rec [of _ 3] upt_rec [of _ "Suc _"])
  show ?thesis
    using pipe_call_behaviour [OF inv(1), of "[1]" 5 3] pipe_call_behaviour [OF inv(2), of "[1]" 5 3]
    unfolding c by (auto simp: bbuf_new_def)
qed

end
