(* ===== verification/Buddy.thy ===== *)
theory Buddy
  imports Prelude
begin

unbundle bit_operations_syntax

text \<open>
  The buddy allocator of \<^verbatim>\<open>k-alloc.cc\<close>: \<^verbatim>\<open>pgmap\<close>, the free lists \<^verbatim>\<open>free_blocks\<close>, the
  order computations, \<^verbatim>\<open>init_kalloc\<close>, and the block-level parts of \<^verbatim>\<open>kalloc\<close> and \<^verbatim>\<open>kfree\<close>.
  A \<^verbatim>\<open>bapg*\<close> is its index in \<^verbatim>\<open>pgmap\<close>, which is the number of the physical page it describes.
  \<^verbatim>\<open>free_blocks[k]\<close> is indexed here by the order \<open>k + MIN_ORDER\<close> and holds the sequence of its
  elements (\<open>KList\<close> refines such a sequence to the links of \<^verbatim>\<open>pglink\<close>). Physical addresses
  stay below \<open>MEMSIZE_PHYSICAL\<close>, so address arithmetic is on \<open>nat\<close>; sizes that a caller
  chooses are 64-bit words.
\<close>

definition MIN_ORDER :: nat where [kconst]: "MIN_ORDER = 12"
definition MAX_ORDER :: nat where [kconst]: "MAX_ORDER = 21"

record bapg =
  pfree :: bool
  returned :: bool
  pord :: nat
  r_ord :: nat
  r_addr :: nat

record buddy =
  pgmap :: "nat \<Rightarrow> bapg"
  free_blocks :: "nat \<Rightarrow> nat list"

subsection \<open>Orders\<close>

text \<open>\<^verbatim>\<open>largest_fitting_ord\<close>\<close>

function largest_fitting_ord :: "nat \<Rightarrow> nat \<Rightarrow> nat" where
  "largest_fitting_ord num sz =
     (if num = 1 then sz - 1 else if num = 0 then 0 else largest_fitting_ord (num div 2) (sz + 1))"
  by pat_completeness auto
termination
  by (relation "measure fst") auto

declare largest_fitting_ord.simps [simp del]

text \<open>The loop \<^verbatim>\<open>while (sz >>= 1) ord++\<close>.\<close>

function shift_count :: "nat \<Rightarrow> nat" where
  "shift_count n = (if n div 2 = 0 then 0 else Suc (shift_count (n div 2)))"
  by pat_completeness auto
termination
  by (relation "measure id") auto

declare shift_count.simps [simp del]

definition order :: "u64 \<Rightarrow> bool \<Rightarrow> nat" where
  "order sz set_min =
     (let y = sz - 1; ord = shift_count (unat sz) in
      if y AND (y + 1) = 0 then
        (if set_min then (if ord \<ge> MIN_ORDER then ord else MIN_ORDER) else ord)
      else
        (if set_min then (if ord + 1 \<ge> MIN_ORDER then ord + 1 else MIN_ORDER) else ord + 1))"

subsection \<open>Page descriptors and free lists\<close>

text \<open>A loop that changes the descriptors of the \<open>n\<close> pages from \<open>i\<close> on.\<close>

definition upd_range :: "(bapg \<Rightarrow> bapg) \<Rightarrow> nat \<Rightarrow> nat \<Rightarrow> buddy \<Rightarrow> buddy" where
  "upd_range f i n s = s\<lparr>pgmap := (\<lambda>p. if i \<le> p \<and> p < i + n then f (pgmap s p) else pgmap s p)\<rparr>"

definition set_list :: "nat \<Rightarrow> nat list \<Rightarrow> buddy \<Rightarrow> buddy" where
  "set_list k xs s = s\<lparr>free_blocks := (free_blocks s)(k := xs)\<rparr>"

definition push_free :: "nat \<Rightarrow> nat \<Rightarrow> buddy \<Rightarrow> buddy" where
  "push_free k blk s = set_list k (free_blocks s k @ [blk]) s"

definition page_is_free :: "buddy \<Rightarrow> nat \<Rightarrow> bool option" where
  "page_is_free s pa = check (pa mod PAGESIZE = 0) (Some (pfree (pgmap s (pa div PAGESIZE))))"

definition blk_order :: "buddy \<Rightarrow> nat \<Rightarrow> nat option" where
  "blk_order s pa = check (pa mod PAGESIZE = 0) (Some (pord (pgmap s (pa div PAGESIZE))))"

text \<open>\<^verbatim>\<open>init_kalloc\<close>: the inner loop over one available range, then the loop over the ranges.\<close>

partial_function (option) init_range :: "nat \<Rightarrow> nat \<Rightarrow> buddy \<Rightarrow> buddy option" where
  "init_range curr_addr remaining s =
     (if remaining \<noteq> 0 then
        (let ord = largest_fitting_ord remaining 1 in
         if ord \<ge> MIN_ORDER \<and> ord \<le> MAX_ORDER then
           (let size = 2 ^ ord;
                i = curr_addr div PAGESIZE;
                n = (curr_addr + size) div PAGESIZE - i;
                s1 = upd_range (\<lambda>p. p\<lparr>pfree := True, pord := ord, r_ord := ord, r_addr := curr_addr\<rparr>) i n s
            in init_range (curr_addr + size) (remaining - size) (push_free ord i s1))
         else None)
      else Some s)"

text \<open>A range is its type, its first address and the address past its end.\<close>

fun init_kalloc :: "(bool \<times> nat \<times> nat) list \<Rightarrow> buddy \<Rightarrow> buddy option" where
  "init_kalloc [] s = Some s"
| "init_kalloc ((available, range_first, range_last) # rs) s =
     (if available then
        (case init_range range_first (range_last - range_first) s of None \<Rightarrow> None | Some s' \<Rightarrow> init_kalloc rs s')
      else init_kalloc rs s)"

subsection \<open>Allocation\<close>

text \<open>The search for the next best order, \<^verbatim>\<open>while (nb_ord < MAX_ORDER)\<close>.\<close>

function next_best :: "(nat \<Rightarrow> nat list) \<Rightarrow> nat \<Rightarrow> nat option" where
  "next_best fb nb =
     (if nb < MAX_ORDER then
        (if fb (nb + 1) \<noteq> [] then Some (nb + 1) else next_best fb (nb + 1))
      else None)"
  by pat_completeness auto
termination
  by (relation "measure (\<lambda>(fb, nb). MAX_ORDER - nb)") auto

declare next_best.simps [simp del]

text \<open>The splitting loop \<^verbatim>\<open>while (nb_ord > ord)\<close>; the left half stays in hand.\<close>

fun split_loop :: "nat \<Rightarrow> nat \<Rightarrow> nat \<Rightarrow> buddy \<Rightarrow> buddy" where
  "split_loop ord blk nb s =
     (if nb > ord then
        (let half = 2 ^ (nb - MIN_ORDER - 1);
             split_page = blk + half;
             s1 = upd_range (\<lambda>p. p\<lparr>pord := nb - 1\<rparr>) split_page half s
         in split_loop ord blk (nb - 1) (push_free (nb - 1) split_page s1))
      else s)"

declare split_loop.simps [simp del]

text \<open>Lines 364 to 463 of \<^verbatim>\<open>kalloc\<close>: the block taken, and the state with it marked allocated.\<close>

definition take_block :: "nat \<Rightarrow> buddy \<Rightarrow> (nat \<times> buddy) option" where
  "take_block ord s =
     (case free_blocks s ord of
        [] \<Rightarrow>
          (case next_best (free_blocks s) ord of
             None \<Rightarrow> None
           | Some nb \<Rightarrow>
               (let blk = hd (free_blocks s nb);
                    s1 = set_list nb (tl (free_blocks s nb)) s;
                    s2 = split_loop ord blk nb s1
                in Some (blk, upd_range (\<lambda>p. p\<lparr>pord := ord\<rparr>) blk (2 ^ (ord - MIN_ORDER)) s2)))
      | blk # rest \<Rightarrow> Some (blk, set_list ord rest s))"

definition mark_allocated :: "nat \<Rightarrow> nat \<Rightarrow> buddy \<Rightarrow> buddy" where
  "mark_allocated ord blk s =
     upd_range (\<lambda>p. p\<lparr>pfree := False, pord := ord\<rparr>) blk (2 ^ (ord - MIN_ORDER))
       (upd_range (\<lambda>p. p\<lparr>returned := True\<rparr>) blk 1 s)"

definition buddy_alloc :: "u64 \<Rightarrow> buddy \<Rightarrow> (nat option \<times> buddy)" where
  "buddy_alloc sz s =
     (let ord0 = order sz False;
          ord = (if ord0 \<ge> MIN_ORDER then ord0 else MIN_ORDER)
      in case take_block ord s of
           None \<Rightarrow> (None, s)
         | Some (blk, s1) \<Rightarrow> (Some (blk * PAGESIZE), mark_allocated ord blk s1))"

subsection \<open>Freeing\<close>

definition buddy_to_the_left :: "buddy \<Rightarrow> nat \<Rightarrow> bool" where
  "buddy_to_the_left s blk =
     (let addr = blk * PAGESIZE; tnorm_addr = addr - r_addr (pgmap s blk)
      in tnorm_addr AND 2 ^ pord (pgmap s blk) \<noteq> 0)"

text \<open>The coalescing loop of \<^verbatim>\<open>kfree\<close>.\<close>

partial_function (option) free_loop :: "nat \<Rightarrow> nat \<Rightarrow> buddy \<Rightarrow> buddy option" where
  "free_loop blk addr s =
     (let o0 = pord (pgmap s blk) in
      if o0 = r_ord (pgmap s blk) then Some (push_free o0 blk s)
      else
        (let buddy_addr = (if buddy_to_the_left s blk then addr - 2 ^ o0 else addr + 2 ^ o0);
             buddy_blk = buddy_addr div PAGESIZE
         in if pfree (pgmap s buddy_blk) \<and> pord (pgmap s buddy_blk) = o0 then
              (let s1 = set_list o0 (remove1 buddy_blk (free_blocks s o0)) s;
                   n = 2 ^ o0 div PAGESIZE;
                   inc = (\<lambda>p. p\<lparr>pord := pord p + 1\<rparr>);
                   s2 = upd_range inc buddy_blk n (upd_range inc blk n s1)
               in if buddy_addr < addr then free_loop buddy_blk buddy_addr s2
                  else free_loop blk addr s2)
            else Some (push_free o0 blk s)))"

text \<open>The branch of \<^verbatim>\<open>kfree\<close> for pointers of the buddy allocator; \<open>addr\<close> is \<^verbatim>\<open>kptr2pa(ptr)\<close>.\<close>

definition buddy_free :: "nat \<Rightarrow> buddy \<Rightarrow> buddy option" where
  "buddy_free addr s =
     check (addr mod PAGESIZE = 0)
      (let blk = addr div PAGESIZE in
       check (\<not> pfree (pgmap s blk))
        (check (returned (pgmap s blk))
          (let s1 = upd_range (\<lambda>p. p\<lparr>returned := False\<rparr>) blk 1 s;
               s2 = upd_range (\<lambda>p. p\<lparr>pfree := True\<rparr>) blk (2 ^ pord (pgmap s1 blk) div PAGESIZE) s1
           in free_loop blk addr s2)))"


subsection \<open>The invariant\<close>

text \<open>
  A block is its first page and its order. \<open>B\<close> is the set of blocks the managed memory is cut into;
  \<open>H\<close> holds the block that an operation has taken off its free list and not yet returned. A root
  is the largest block a block was split from (\<^verbatim>\<open>r_addr\<close>, \<^verbatim>\<open>r_ord\<close>).
\<close>

abbreviation npg :: "nat \<Rightarrow> nat" where
  "npg o0 \<equiv> 2 ^ (o0 - MIN_ORDER)"

definition pages :: "nat \<times> nat \<Rightarrow> nat set" where
  "pages b = {fst b ..< fst b + npg (snd b)}"

definition root :: "buddy \<Rightarrow> nat \<Rightarrow> nat" where
  "root s p = r_addr (pgmap s p) div PAGESIZE"

definition root_pages :: "buddy \<Rightarrow> nat \<Rightarrow> nat set" where
  "root_pages s p = {root s p ..< root s p + npg (r_ord (pgmap s p))}"

text \<open>\<open>b\<close> is the \<open>a\<close>-th block of its order in its root.\<close>

definition blk_at :: "buddy \<Rightarrow> nat \<times> nat \<Rightarrow> nat \<Rightarrow> bool" where
  "blk_at s b a \<longleftrightarrow> MIN_ORDER \<le> snd b \<and> snd b \<le> r_ord (pgmap s (fst b))
     \<and> r_ord (pgmap s (fst b)) \<le> MAX_ORDER
     \<and> r_addr (pgmap s (fst b)) mod PAGESIZE = 0
     \<and> fst b = root s (fst b) + a * npg (snd b) \<and> a < 2 ^ (r_ord (pgmap s (fst b)) - snd b)"

definition tiling :: "(nat \<times> nat) set \<Rightarrow> buddy \<Rightarrow> bool" where
  "tiling B s \<longleftrightarrow> (\<forall>b \<in> B. \<exists>a. blk_at s b a)
     \<and> (\<forall>b \<in> B. \<forall>c \<in> B. b \<noteq> c \<longrightarrow> pages b \<inter> pages c = {})
     \<and> (\<forall>b \<in> B. \<forall>p \<in> root_pages s (fst b).
          r_addr (pgmap s p) = r_addr (pgmap s (fst b)) \<and> r_ord (pgmap s p) = r_ord (pgmap s (fst b))
          \<and> (\<exists>c \<in> B. p \<in> pages c))"

definition uniform :: "buddy \<Rightarrow> nat \<times> nat \<Rightarrow> bool" where
  "uniform s b \<longleftrightarrow> (\<forall>p \<in> pages b. pord (pgmap s p) = snd b \<and> pfree (pgmap s p) = pfree (pgmap s (fst b)))"

definition lists_ok :: "(nat \<times> nat) set \<Rightarrow> buddy \<Rightarrow> bool" where
  "lists_ok F s \<longleftrightarrow> (\<forall>k. distinct (free_blocks s k)
     \<and> set (free_blocks s k) = {i. (i, k) \<in> F \<and> pfree (pgmap s i)})"

definition returned_ok :: "(nat \<times> nat) set \<Rightarrow> buddy \<Rightarrow> bool" where
  "returned_ok F s \<longleftrightarrow>
     (\<forall>p. returned (pgmap s p) \<longleftrightarrow> (\<exists>o0. (p, o0) \<in> F \<and> \<not> pfree (pgmap s p)))"

text \<open>The sibling of a block in its root, and full coalescing: no two siblings are both free.\<close>

definition sibling :: "buddy \<Rightarrow> nat \<times> nat \<Rightarrow> nat" where
  "sibling s b = (if odd ((fst b - root s (fst b)) div npg (snd b))
     then fst b - npg (snd b) else fst b + npg (snd b))"

definition coalesced :: "(nat \<times> nat) set \<Rightarrow> buddy \<Rightarrow> bool" where
  "coalesced F s \<longleftrightarrow> (\<forall>b \<in> F. pfree (pgmap s (fst b)) \<and> snd b < r_ord (pgmap s (fst b))
     \<longrightarrow> \<not> ((sibling s b, snd b) \<in> F \<and> pfree (pgmap s (sibling s b))))"

definition binv :: "(nat \<times> nat) set \<Rightarrow> (nat \<times> nat) set \<Rightarrow> buddy \<Rightarrow> bool" where
  "binv B H s \<longleftrightarrow> tiling B s \<and> H \<subseteq> B \<and> (\<forall>b \<in> B - H. uniform s b)
     \<and> (\<forall>b \<in> H. \<forall>p \<in> pages b. pfree (pgmap s p))
     \<and> lists_ok (B - H) s \<and> returned_ok (B - H) s \<and> coalesced (B - H) s"

text \<open>The allocator is well formed.\<close>

definition buddy_inv :: "buddy \<Rightarrow> bool" where
  "buddy_inv s \<longleftrightarrow> (\<exists>B. binv B {} s)"

subsection \<open>Arithmetic of blocks\<close>

lemma pgmap_upd_range [simp]:
  "pgmap (upd_range f i n s) p = (if i \<le> p \<and> p < i + n then f (pgmap s p) else pgmap s p)"
  by (simp add: upd_range_def)

lemma free_blocks_upd_range [simp]: "free_blocks (upd_range f i n s) = free_blocks s"
  by (simp add: upd_range_def)

lemma set_list_simps [simp]:
  "pgmap (set_list k xs s) = pgmap s"
  "free_blocks (set_list k xs s) j = (if j = k then xs else free_blocks s j)"
  by (simp_all add: set_list_def)

lemma push_free_simps [simp]:
  "pgmap (push_free k x s) = pgmap s"
  "free_blocks (push_free k x s) j = (if j = k then free_blocks s k @ [x] else free_blocks s j)"
  by (simp_all add: push_free_def)

lemma exp_order: "MIN_ORDER \<le> o0 \<Longrightarrow> 2 ^ o0 = npg o0 * PAGESIZE"
proof -
  assume "MIN_ORDER \<le> o0"
  then have "(2::nat) ^ o0 = 2 ^ (o0 - MIN_ORDER) * 2 ^ MIN_ORDER"
    by (simp flip: power_add)
  then show ?thesis by (simp add: kconst)
qed

lemma exp_order_div: "MIN_ORDER \<le> o0 \<Longrightarrow> 2 ^ o0 div PAGESIZE = npg o0"
  by (simp add: exp_order kconst)

lemma npg_Suc: "MIN_ORDER \<le> o0 \<Longrightarrow> npg (o0 + 1) = 2 * npg o0"
  by (simp add: Suc_diff_le)

lemma npg_split: "o0 \<le> r \<Longrightarrow> MIN_ORDER \<le> o0 \<Longrightarrow> npg r = npg o0 * 2 ^ (r - o0)"
  by (simp flip: power_add)

lemma blk_at_offset: "blk_at s b a \<Longrightarrow> fst b - root s (fst b) = a * npg (snd b)"
  unfolding blk_at_def by linarith

lemma blk_at_sibling:
  assumes "blk_at s b a"
  shows "sibling s b = root s (fst b) + (if odd a then a - 1 else a + 1) * npg (snd b)"
proof -
  have e: "fst b = root s (fst b) + a * npg (snd b)" using assms unfolding blk_at_def by blast
  have "(fst b - root s (fst b)) div npg (snd b) = a" by (simp add: blk_at_offset [OF assms])
  moreover have "odd a \<Longrightarrow> (a - 1) * npg (snd b) + npg (snd b) = a * npg (snd b)"
    by (cases a) auto
  ultimately show ?thesis using e unfolding sibling_def
    by (cases "odd a") (simp_all, linarith+)
qed

lemma sibling_index:
  "(a::nat) < 2 ^ k \<Longrightarrow> 0 < k \<Longrightarrow> (if odd a then a - 1 else a + 1) < 2 ^ k"
proof -
  assume a: "a < 2 ^ k" "0 < k"
  then have "even ((2::nat) ^ k)" by simp
  then obtain m where "(2::nat) ^ k = 2 * m" by (rule evenE)
  then show ?thesis using a(1) by (cases "odd a") (auto elim!: evenE)
qed

lemma cell_unique: "(a::nat) * n \<le> b * n \<Longrightarrow> b * n < (a + 1) * n \<Longrightarrow> a = b"
  by (simp only: mult_le_cancel2 mult_less_cancel2) auto

lemma blk_pages_in_root:
  assumes "blk_at s b a"
  shows "pages b \<subseteq> root_pages s (fst b)"
proof -
  let ?r = "r_ord (pgmap s (fst b))"
  have "npg ?r = npg (snd b) * 2 ^ (?r - snd b)"
    using assms by (intro npg_split) (auto simp: blk_at_def)
  moreover have "(a + 1) * npg (snd b) \<le> 2 ^ (?r - snd b) * npg (snd b)"
    using assms by (intro mult_le_mono1) (simp add: blk_at_def)
  ultimately have "a * npg (snd b) + npg (snd b) \<le> npg ?r" by (simp add: mult.commute)
  then show ?thesis using assms unfolding blk_at_def pages_def root_pages_def by auto
qed

lemma slots_in_root:
  assumes "MIN_ORDER \<le> o0" "o0 \<le> r" "a < 2 ^ (r - o0)" "p < npg o0"
  shows "a * npg o0 + p < npg r"
proof -
  have "(a + 1) * npg o0 \<le> 2 ^ (r - o0) * npg o0" using assms(3) by (intro mult_le_mono1) simp
  then show ?thesis using assms npg_split [of o0 r] by (simp add: mult.commute)
qed

lemma pages_self [simp]: "fst b \<in> pages b"
  by (simp add: pages_def)

subsection \<open>Tilings\<close>

definition same_roots :: "buddy \<Rightarrow> buddy \<Rightarrow> bool" where
  "same_roots s t \<longleftrightarrow> (\<forall>p. r_addr (pgmap t p) = r_addr (pgmap s p) \<and> r_ord (pgmap t p) = r_ord (pgmap s p))"

lemma same_roots_simps:
  assumes "same_roots s t"
  shows "root t = root s" "root_pages t = root_pages s" "blk_at t = blk_at s" "sibling t = sibling s"
    "tiling B t = tiling B s"
proof -
  show 1: "root t = root s" using assms by (auto simp: root_def same_roots_def)
  show 2: "root_pages t = root_pages s" using assms 1 by (auto simp: root_pages_def same_roots_def fun_eq_iff)
  show 3: "blk_at t = blk_at s" using assms 1 by (auto simp: blk_at_def same_roots_def fun_eq_iff)
  show "sibling t = sibling s" using 1 by (auto simp: sibling_def fun_eq_iff)
  show "tiling B t = tiling B s" using assms 2 3 by (simp add: tiling_def same_roots_def)
qed

lemma tiling_blk: "tiling B s \<Longrightarrow> b \<in> B \<Longrightarrow> \<exists>a. blk_at s b a"
  by (simp add: tiling_def)

lemma tiling_disjoint: "tiling B s \<Longrightarrow> b \<in> B \<Longrightarrow> c \<in> B \<Longrightarrow> b \<noteq> c \<Longrightarrow> pages b \<inter> pages c = {}"
  by (simp add: tiling_def)

lemma tiling_unique: "tiling B s \<Longrightarrow> b \<in> B \<Longrightarrow> c \<in> B \<Longrightarrow> p \<in> pages b \<Longrightarrow> p \<in> pages c \<Longrightarrow> b = c"
  unfolding tiling_def by blast

lemma tiling_root:
  assumes "tiling B s" "b \<in> B" "p \<in> root_pages s (fst b)"
  shows "root s p = root s (fst b)" "r_ord (pgmap s p) = r_ord (pgmap s (fst b))"
    "r_addr (pgmap s p) = r_addr (pgmap s (fst b))"
    "root_pages s p = root_pages s (fst b)" "\<exists>c \<in> B. p \<in> pages c"
proof -
  have e: "r_addr (pgmap s p) = r_addr (pgmap s (fst b)) \<and> r_ord (pgmap s p) = r_ord (pgmap s (fst b))
      \<and> (\<exists>c \<in> B. p \<in> pages c)"
    using assms unfolding tiling_def by blast
  then show "root s p = root s (fst b)" "r_ord (pgmap s p) = r_ord (pgmap s (fst b))"
    "r_addr (pgmap s p) = r_addr (pgmap s (fst b))"
    "root_pages s p = root_pages s (fst b)" "\<exists>c \<in> B. p \<in> pages c"
    by (simp_all add: root_def root_pages_def)
qed

lemma tiling_cover_root:
  assumes t: "tiling B s" and b: "b \<in> B" and p: "p \<in> root_pages s (fst b)" and c: "c \<in> B" "p \<in> pages c"
  shows "root s (fst c) = root s (fst b)" "r_ord (pgmap s (fst c)) = r_ord (pgmap s (fst b))"
    "r_addr (pgmap s (fst c)) = r_addr (pgmap s (fst b))"
proof -
  have "p \<in> root_pages s (fst c)"
    using blk_pages_in_root tiling_blk [OF t c(1)] c(2) by blast
  note 1 = tiling_root(1-3) [OF t c(1) this] and 2 = tiling_root(1-3) [OF t b p]
  show "root s (fst c) = root s (fst b)" "r_ord (pgmap s (fst c)) = r_ord (pgmap s (fst b))"
    "r_addr (pgmap s (fst c)) = r_addr (pgmap s (fst b))"
    using 1 2 by simp_all
qed

text \<open>Replacing the blocks \<open>D\<close> by blocks \<open>N\<close> that cover the same pages.\<close>

lemma tiling_replace:
  assumes t: "tiling B s" and D: "D \<subseteq> B" and same: "\<Union> (pages ` N) = \<Union> (pages ` D)"
    and N: "\<forall>b \<in> N. \<exists>a. blk_at s b a" "\<forall>b \<in> N. \<forall>c \<in> N. b \<noteq> c \<longrightarrow> pages b \<inter> pages c = {}"
    and R: "\<forall>b \<in> N. \<exists>d \<in> B. fst b \<in> root_pages s (fst d)"
  shows "tiling (B - D \<union> N) s"
proof -
  have dj: "pages b \<inter> pages c = {}" if "b \<in> B - D" "c \<in> N" for b c
  proof -
    have "pages b \<inter> pages d = {}" if "d \<in> D" for d
      using tiling_disjoint [OF t, of b d] D \<open>b \<in> B - D\<close> that by blast
    moreover have "pages c \<subseteq> \<Union> (pages ` D)" using same that(2) by blast
    ultimately show ?thesis by blast
  qed
  have cov: "\<exists>c \<in> B - D \<union> N. p \<in> pages c" if ex: "\<exists>c \<in> B. p \<in> pages c" for p
  proof -
    obtain c where c: "c \<in> B" "p \<in> pages c" using ex by blast
    show ?thesis
    proof (cases "c \<in> D")
      case True
      then have "p \<in> \<Union> (pages ` N)" unfolding same using c(2) by blast
      then show ?thesis by blast
    qed (use c in blast)
  qed
  have roots: "r_addr (pgmap s p) = r_addr (pgmap s (fst b)) \<and> r_ord (pgmap s p) = r_ord (pgmap s (fst b))
      \<and> (\<exists>c \<in> B - D \<union> N. p \<in> pages c)" if "b \<in> B - D \<union> N" "p \<in> root_pages s (fst b)" for b p
  proof -
    obtain d where d: "d \<in> B" "fst b \<in> root_pages s (fst d)"
    proof (cases "b \<in> N")
      case True
      then show ?thesis using R that by blast
    next
      case False
      then have "b \<in> B" using \<open>b \<in> B - D \<union> N\<close> by blast
      then show ?thesis
        using that tiling_blk [OF t, of b] blk_pages_in_root [of s b] pages_self [of b] by blast
    qed
    note e = tiling_root [OF t d]
    then have "p \<in> root_pages s (fst d)" using \<open>p \<in> root_pages s (fst b)\<close> by simp
    note f = tiling_root [OF t d(1) this]
    show ?thesis using e f cov by simp
  qed
  show ?thesis
    unfolding tiling_def
  proof (intro conjI ballI impI)
    fix b assume b: "b \<in> B - D \<union> N"
    then show "\<exists>a. blk_at s b a" using tiling_blk [OF t] N(1) by blast
    fix c assume "c \<in> B - D \<union> N" "b \<noteq> c"
    then show "pages b \<inter> pages c = {}"
      using b tiling_disjoint [OF t, of b c] N(2) dj [of b c] dj [of c b] by blast
  qed (use roots in blast)+
qed

subsection \<open>Siblings\<close>

lemma sibling_blk_at:
  assumes t: "tiling B s" and b: "b \<in> B" and a: "blk_at s b a" and lt: "snd b < r_ord (pgmap s (fst b))"
  defines "a' \<equiv> if odd a then a - 1 else a + 1"
  shows "blk_at s (sibling s b, snd b) a'" "sibling s (sibling s b, snd b) = fst b"
    "pages (sibling s b, snd b) \<subseteq> root_pages s (fst b)" "sibling s b \<noteq> fst b"
    "root s (sibling s b) = root s (fst b)" "r_ord (pgmap s (sibling s b)) = r_ord (pgmap s (fst b))"
proof -
  let ?o = "snd b" and ?r = "r_ord (pgmap s (fst b))" and ?R = "root s (fst b)"
  have o: "MIN_ORDER \<le> ?o" "fst b = ?R + a * npg ?o" "a < 2 ^ (?r - ?o)" "?r \<le> MAX_ORDER"
    "r_addr (pgmap s (fst b)) mod PAGESIZE = 0"
    using a unfolding blk_at_def by auto
  have sb: "sibling s b = ?R + a' * npg ?o" using blk_at_sibling [OF a] by (simp add: a'_def)
  have a': "a' < 2 ^ (?r - ?o)" using sibling_index o(3) lt unfolding a'_def by simp
  have "a' * npg ?o + q < npg ?r" if "q < npg ?o" for q
    using slots_in_root [OF o(1) _ a' that] lt by simp
  then have sub: "pages (sibling s b, ?o) \<subseteq> root_pages s (fst b)"
  proof (intro subsetI)
    fix p assume "p \<in> pages (sibling s b, ?o)"
    then obtain q where "p = ?R + a' * npg ?o + q" "q < npg ?o"
      unfolding pages_def sb by (auto simp: le_iff_add)
    then show "p \<in> root_pages s (fst b)"
      using \<open>\<And>q. q < npg ?o \<Longrightarrow> a' * npg ?o + q < npg ?r\<close> [of q] by (simp add: root_pages_def)
  qed
  then show "pages (sibling s b, ?o) \<subseteq> root_pages s (fst b)" .
  have "sibling s b \<in> root_pages s (fst b)" using sub by (metis fst_conv pages_self subsetD)
  note e = tiling_root [OF t b this]
  then show re: "root s (sibling s b) = ?R" "r_ord (pgmap s (sibling s b)) = ?r" by auto
  show at': "blk_at s (sibling s b, ?o) a'"
    using e o a' lt sb unfolding blk_at_def by simp
  have "a' \<noteq> a" unfolding a'_def by (cases a) auto
  then show "sibling s b \<noteq> fst b" using sb o(2) by (metis add_left_cancel mult_right_cancel power_not_zero zero_neq_numeral)
  have "(if odd a' then a' - 1 else a' + 1) = a" unfolding a'_def by (auto elim: oddE)
  then show "sibling s (sibling s b, ?o) = fst b"
    using blk_at_sibling [OF at'] re o(2) by simp
qed

text \<open>A sibling page whose descriptor shows the block's own order starts a block of that order.\<close>

lemma sibling_in_tiling:
  assumes t: "tiling B s" and b: "b \<in> B" and lt: "snd b < r_ord (pgmap s (fst b))"
    and u: "\<forall>c \<in> B - {b}. uniform s c" and po: "pord (pgmap s (sibling s b)) = snd b"
  shows "(sibling s b, snd b) \<in> B"
proof -
  obtain a where a: "blk_at s b a" using tiling_blk [OF t b] by blast
  note sib = sibling_blk_at [OF t b a lt]
  let ?j = "sibling s b" and ?o = "snd b" and ?R = "root s (fst b)"
  have jr: "?j \<in> root_pages s (fst b)" using sib(3) by (metis fst_conv pages_self subsetD)
  obtain c where c: "c \<in> B" "?j \<in> pages c" using tiling_root(5) [OF t b jr] by blast
  obtain ac where ac: "blk_at s c ac" using tiling_blk [OF t c(1)] by blast
  have rc: "root s (fst c) = ?R" using tiling_cover_root [OF t b jr c] by simp
  obtain aj where aj: "?j = ?R + aj * npg ?o"
    using sib(1,5) unfolding blk_at_def by (metis fst_conv snd_conv)
  have fb: "fst b = ?R + a * npg ?o" using a unfolding blk_at_def by blast
  have "c \<noteq> b"
  proof
    assume "c = b"
    then have "?R + a * npg ?o \<le> ?R + aj * npg ?o" "?R + aj * npg ?o < ?R + a * npg ?o + npg ?o"
      using c(2) aj fb unfolding pages_def by (metis atLeastLessThan_iff)+
    then have "a * npg ?o \<le> aj * npg ?o" "aj * npg ?o < (a + 1) * npg ?o" by auto
    then have "a = aj" by (rule cell_unique)
    then show False using sib(4) fb aj by simp
  qed
  then have "uniform s c" using u c by blast
  then have oc: "snd c = ?o" using po c(2) unfolding uniform_def by auto
  have fc: "fst c = ?R + ac * npg ?o" using ac rc oc unfolding blk_at_def by metis
  have "?R + ac * npg ?o \<le> ?R + aj * npg ?o" "?R + aj * npg ?o < ?R + ac * npg ?o + npg ?o"
    using c(2) aj fc oc unfolding pages_def by (metis atLeastLessThan_iff)+
  then have "ac * npg ?o \<le> aj * npg ?o" "aj * npg ?o < (ac + 1) * npg ?o" by auto
  then have "ac = aj" by (rule cell_unique)
  then have "c = (?j, ?o)" using fc aj oc by (metis prod.collapse)
  then show ?thesis using c(1) by simp
qed

subsection \<open>Splitting and merging blocks\<close>

lemma pages_split:
  "MIN_ORDER \<le> o0 \<Longrightarrow> pages (i, o0 + 1) = pages (i, o0) \<union> pages (i + npg o0, o0)"
  unfolding pages_def fst_conv snd_conv npg_Suc by auto

lemma tiling_split:
  assumes t: "tiling B s" and b: "(i, o0 + 1) \<in> B" and o: "MIN_ORDER \<le> o0"
  shows "tiling (B - {(i, o0 + 1)} \<union> {(i, o0), (i + npg o0, o0)}) s"
    and "\<exists>a. blk_at s (i, o0) a \<and> even a" and "o0 < r_ord (pgmap s i)"
proof -
  obtain a where a: "blk_at s (i, o0 + 1) a" using tiling_blk [OF t b] by blast
  let ?r = "r_ord (pgmap s i)" and ?R = "root s i"
  have p: "?r \<le> MAX_ORDER" "o0 + 1 \<le> ?r" "i = ?R + a * npg (o0 + 1)" "a < 2 ^ (?r - (o0 + 1))"
    "r_addr (pgmap s i) mod PAGESIZE = 0"
    using a unfolding blk_at_def by auto
  show lt: "o0 < ?r" using p by simp
  have e: "(2::nat) ^ (?r - o0) = 2 * 2 ^ (?r - (o0 + 1))"
    using lt by (metis Suc_diff_Suc Suc_eq_plus1 power_Suc)
  have ia: "i = ?R + (2 * a) * npg o0" using p(3) npg_Suc [OF o] by simp
  have l: "blk_at s (i, o0) (2 * a)"
    using p ia o lt e unfolding blk_at_def by simp
  then show "\<exists>a. blk_at s (i, o0) a \<and> even a" by auto
  have sub: "i + npg o0 \<in> pages (i, o0 + 1)" using pages_split [OF o, of i] pages_self [of "(i + npg o0, o0)"] by simp
  then have inr: "i + npg o0 \<in> root_pages s i" using blk_pages_in_root [OF a] by auto
  note q = tiling_root [OF t b, unfolded fst_conv, OF inr]
  have r: "blk_at s (i + npg o0, o0) (2 * a + 1)"
    unfolding blk_at_def fst_conv snd_conv q
    using p ia o lt e by simp
  have iir: "i \<in> root_pages s i" using blk_pages_in_root [OF a] pages_self [of "(i, o0 + 1)"] by auto
  show "tiling (B - {(i, o0 + 1)} \<union> {(i, o0), (i + npg o0, o0)}) s"
  proof (rule tiling_replace [OF t])
    show "\<Union> (pages ` {(i, o0), (i + npg o0, o0)}) = \<Union> (pages ` {(i, o0 + 1)})"
      using pages_split [OF o] by simp
    show "\<forall>b \<in> {(i, o0), (i + npg o0, o0)}. \<exists>a. blk_at s b a" using l r by blast
    show "\<forall>b \<in> {(i, o0), (i + npg o0, o0)}. \<forall>c \<in> {(i, o0), (i + npg o0, o0)}. b \<noteq> c \<longrightarrow> pages b \<inter> pages c = {}"
      by (auto simp: pages_def)
    show "\<forall>b \<in> {(i, o0), (i + npg o0, o0)}. \<exists>d \<in> B. fst b \<in> root_pages s (fst d)"
      using b inr iir by force
  qed (use b in simp)
qed

lemma tiling_merge:
  assumes t: "tiling B s" and b: "(i, o0) \<in> B" and c: "(j, o0) \<in> B"
    and j: "j = sibling s (i, o0)" and lt: "o0 < r_ord (pgmap s i)"
  shows "tiling (B - {(i, o0), (j, o0)} \<union> {(min i j, o0 + 1)}) s"
    and "pages (min i j, o0 + 1) = pages (i, o0) \<union> pages (j, o0)"
    and "r_ord (pgmap s (min i j)) = r_ord (pgmap s i)" "i \<noteq> j"
proof -
  obtain a where a: "blk_at s (i, o0) a" using tiling_blk [OF t b] by blast
  note sib = sibling_blk_at [OF t b a, unfolded fst_conv snd_conv, OF lt, folded j]
  let ?r = "r_ord (pgmap s i)" and ?R = "root s i"
  have p: "MIN_ORDER \<le> o0" "?r \<le> MAX_ORDER" "i = ?R + a * npg o0" "a < 2 ^ (?r - o0)"
    "r_addr (pgmap s i) mod PAGESIZE = 0"
    using a unfolding blk_at_def by auto
  have e: "(2::nat) ^ (?r - o0) = 2 * 2 ^ (?r - (o0 + 1))"
    using lt by (metis Suc_diff_Suc Suc_eq_plus1 power_Suc)
  have ja: "j = ?R + (if odd a then a - 1 else a + 1) * npg o0"
    using blk_at_sibling [OF a] j by simp
  obtain k where k: "a = 2 * k \<or> a = 2 * k + 1" by (metis evenE oddE)
  have pos: "0 < npg o0" by simp
  have m: "min i j = ?R + k * npg (o0 + 1) \<and> max i j = min i j + npg o0"
    using k
  proof
    assume "a = 2 * k"
    then have "i = ?R + k * (2 * npg o0)" "j = ?R + k * (2 * npg o0) + npg o0"
      using p(3) ja by (auto simp: algebra_simps)
    then show ?thesis unfolding npg_Suc [OF p(1)] by linarith
  next
    assume "a = 2 * k + 1"
    then have "i = ?R + k * (2 * npg o0) + npg o0" "j = ?R + k * (2 * npg o0)"
      using p(3) ja by (auto simp: algebra_simps)
    then show ?thesis using pos unfolding npg_Suc [OF p(1)] by linarith
  qed
  then have mm: "max i j = min i j + npg o0" by simp
  show ne: "i \<noteq> j" using sib(4) by simp
  have two: "{(i, o0), (j, o0)} = {(min i j, o0), (min i j + npg o0, o0)}"
    using mm by (auto simp: min_def max_def split: if_splits)
  show pg: "pages (min i j, o0 + 1) = pages (i, o0) \<union> pages (j, o0)"
    using pages_split [OF p(1), of "min i j"] mm by (auto simp: min_def max_def split: if_splits)
  have inr: "min i j \<in> root_pages s i"
    using sib(3) blk_pages_in_root [OF a] pages_self [of "(j, o0)"] pages_self [of "(i, o0)"]
    by (auto simp: min_def)
  note q = tiling_root [OF t b, unfolded fst_conv, OF inr]
  show "r_ord (pgmap s (min i j)) = ?r" using q by simp
  have "k < 2 ^ (?r - (o0 + 1))" using k p(4) e by auto
  then have at: "blk_at s (min i j, o0 + 1) k"
    unfolding blk_at_def fst_conv snd_conv q
    using p lt m by simp
  show "tiling (B - {(i, o0), (j, o0)} \<union> {(min i j, o0 + 1)}) s"
  proof (rule tiling_replace [OF t])
    show "\<Union> (pages ` {(min i j, o0 + 1)}) = \<Union> (pages ` {(i, o0), (j, o0)})" using pg by simp
    show "\<forall>b \<in> {(min i j, o0 + 1)}. \<exists>a. blk_at s b a" using at by blast
    show "\<forall>b \<in> {(min i j, o0 + 1)}. \<exists>d \<in> B. fst b \<in> root_pages s (fst d)" using b inr by force
  qed (use b c in auto)
qed

subsection \<open>Single steps keep the invariant\<close>

lemma binvD:
  assumes "binv B H s"
  shows "tiling B s" "H \<subseteq> B" "\<And>b. b \<in> B - H \<Longrightarrow> uniform s b"
    "\<And>b p. b \<in> H \<Longrightarrow> p \<in> pages b \<Longrightarrow> pfree (pgmap s p)"
    "lists_ok (B - H) s" "returned_ok (B - H) s" "coalesced (B - H) s"
  using assms unfolding binv_def by blast+

lemma same_roots_upd_range:
  assumes "\<And>p. r_addr (f p) = r_addr p" "\<And>p. r_ord (f p) = r_ord p"
  shows "same_roots s (upd_range f i n s)"
  using assms by (simp add: same_roots_def)

lemma same_roots_lists: "same_roots s (push_free k x s)" "same_roots s (set_list k xs s)"
  by (simp_all add: same_roots_def)

lemma same_roots_trans: "same_roots s t \<Longrightarrow> same_roots t u \<Longrightarrow> same_roots s u"
  by (simp add: same_roots_def)

lemma uniform_cong:
  assumes "\<And>p. p \<in> pages b \<Longrightarrow> pord (pgmap t p) = pord (pgmap s p) \<and> pfree (pgmap t p) = pfree (pgmap s p)"
  shows "uniform t b = uniform s b"
proof -
  have "pfree (pgmap t (fst b)) = pfree (pgmap s (fst b))" using assms pages_self by blast
  then show ?thesis using assms unfolding uniform_def by simp
qed

lemma not_both:
  assumes t: "tiling B s" and b: "(i, k) \<in> B" and n: "pages c \<inter> pages (i, k) \<noteq> {}" "c \<noteq> (i, k)"
  shows "c \<notin> B"
  using tiling_disjoint [OF t _ b, of c] n by blast

text \<open>Splitting the block in hand and pushing its right half.\<close>

lemma binv_split:
  assumes inv: "binv B {(i, o0 + 1)} s" and o: "MIN_ORDER \<le> o0"
  defines "j \<equiv> i + npg o0"
  defines "t \<equiv> push_free o0 j (upd_range (\<lambda>p. p\<lparr>pord := o0\<rparr>) j (npg o0) s)"
  shows "binv (B - {(i, o0 + 1)} \<union> {(i, o0), (j, o0)}) {(i, o0)} t"
proof -
  note I = binvD [OF inv]
  have b: "(i, o0 + 1) \<in> B" using I(2) by simp
  note T = tiling_split [OF I(1) b o]
  obtain a where a: "blk_at s (i, o0) a" "even a" using T(2) by blast
  let ?B = "B - {(i, o0 + 1)} \<union> {(i, o0), (j, o0)}" and ?F = "B - {(i, o0 + 1)}"
  have pg: "pages (i, o0 + 1) = pages (i, o0) \<union> pages (j, o0)" unfolding j_def by (rule pages_split [OF o])
  have ne: "(i, o0) \<noteq> (j, o0)" by (simp add: j_def)
  have nB: "(i, o0) \<notin> B" "(j, o0) \<notin> B"
    using not_both [OF I(1) b, of "(i, o0)"] not_both [OF I(1) b, of "(j, o0)"] pg
      pages_self [of "(i, o0)"] pages_self [of "(j, o0)"] by auto
  have F: "?B - {(i, o0)} = insert (j, o0) ?F" using nB ne by auto
  have tp: "pgmap t p = (if p \<in> pages (j, o0) then (pgmap s p)\<lparr>pord := o0\<rparr> else pgmap s p)" for p
    by (simp add: t_def pages_def)
  have sr: "same_roots s t" by (simp add: same_roots_def tp)
  note S = same_roots_simps [OF sr]
  have fr: "p \<in> pages (i, o0) \<union> pages (j, o0) \<Longrightarrow> pfree (pgmap s p)" for p
    using I(4) [of "(i, o0 + 1)"] pg by simp
  have pf: "pfree (pgmap t p) = pfree (pgmap s p)" "returned (pgmap t p) = returned (pgmap s p)" for p
    by (simp_all add: tp)
  have fj: "pfree (pgmap s j)" using fr [of j] pages_self [of "(j, o0)"] by simp
  have "i = root s i + a * npg o0" using a(1) unfolding blk_at_def by simp
  moreover have "sibling s (i, o0) = root s i + (a + 1) * npg o0" using blk_at_sibling [OF a(1)] a(2) by simp
  ultimately have ji: "sibling s (i, o0) = j" unfolding j_def add_mult_distrib by linarith
  have sj: "sibling s (j, o0) = i"
    using sibling_blk_at(2) [OF T(1) _ a(1)] T(3) ji by simp
  have "\<forall>b \<in> ?B - {(i, o0)}. uniform t b"
  proof
    fix c assume c: "c \<in> ?B - {(i, o0)}"
    show "uniform t c"
    proof (cases "c = (j, o0)")
      case True
      then show ?thesis using fr pages_self [of "(j, o0)"] by (auto simp: uniform_def tp)
    next
      case False
      then have cF: "c \<in> ?F" using c F by blast
      then have "pages c \<inter> pages (i, o0 + 1) = {}" using tiling_disjoint [OF I(1) _ b] by blast
      then have "uniform t c = uniform s c" using pg by (intro uniform_cong) (auto simp: tp)
      then show ?thesis using I(3) cF by simp
    qed
  qed
  moreover have "lists_ok (?B - {(i, o0)}) t"
  proof -
    have "j \<notin> set (free_blocks s o0)" using I(5) nB unfolding lists_ok_def by auto
    then show ?thesis using I(5) fj unfolding F lists_ok_def pf by (auto simp: t_def)
  qed
  moreover have "returned_ok (?B - {(i, o0)}) t"
    using I(6) fj unfolding F returned_ok_def pf by auto
  moreover have "coalesced (?B - {(i, o0)}) t"
    unfolding coalesced_def S pf
  proof (intro ballI impI)
    fix c assume c: "c \<in> ?B - {(i, o0)}" "pfree (pgmap s (fst c)) \<and> snd c < r_ord (pgmap t (fst c))"
    have lt: "snd c < r_ord (pgmap s (fst c))" using c(2) sr by (simp add: same_roots_def)
    show "\<not> ((sibling s c, snd c) \<in> ?B - {(i, o0)} \<and> pfree (pgmap s (sibling s c)))"
    proof (cases "c = (j, o0)")
      case True
      then show ?thesis using sj nB ne by auto
    next
      case False
      then have cF: "c \<in> ?F" using c(1) F by blast
      obtain ac where "blk_at s c ac" using tiling_blk [OF I(1)] cF by blast
      note sc = sibling_blk_at(2) [OF I(1) _ this lt]
      have "(sibling s c, snd c) \<noteq> (j, o0)"
        using sc cF sj nB(1) by (metis DiffD1 prod.collapse prod.inject)
      then show ?thesis
        using I(7) c(2) lt cF unfolding coalesced_def F by blast
    qed
  qed
  moreover have "tiling ?B t" using T(1) S by (simp add: j_def)
  moreover have "\<forall>b \<in> {(i, o0)}. \<forall>p \<in> pages b. pfree (pgmap t p)" using fr pf by auto
  ultimately show ?thesis unfolding binv_def by blast
qed

text \<open>Merging the block in hand with its free sibling.\<close>

lemma binv_merge:
  assumes inv: "binv B {(i, o0)} s" and u: "uniform s (i, o0)" and lt: "o0 < r_ord (pgmap s i)"
  defines "j \<equiv> sibling s (i, o0)"
  assumes jB: "(j, o0) \<in> B" and jf: "pfree (pgmap s j)"
  defines "t \<equiv> upd_range (\<lambda>p. p\<lparr>pord := pord p + 1\<rparr>) j (npg o0)
      (upd_range (\<lambda>p. p\<lparr>pord := pord p + 1\<rparr>) i (npg o0)
        (set_list o0 (remove1 j (free_blocks s o0)) s))"
  defines "m \<equiv> (min i j, o0 + 1)"
  shows "binv (B - {(i, o0), (j, o0)} \<union> {m}) {m} t" "uniform t m"
proof -
  note I = binvD [OF inv]
  have b: "(i, o0) \<in> B" using I(2) by simp
  have js: "j = sibling s (i, o0)" by (simp add: j_def)
  note T = tiling_merge [OF I(1) b jB js lt]
  obtain a where a: "blk_at s (i, o0) a" using tiling_blk [OF I(1) b] by blast
  have o: "MIN_ORDER \<le> o0" using a unfolding blk_at_def by simp
  let ?B = "B - {(i, o0), (j, o0)} \<union> {m}" and ?F = "B - {(i, o0), (j, o0)}"
  have ne: "(j, o0) \<noteq> (i, o0)" using T(4) by simp
  have dj: "pages (i, o0) \<inter> pages (j, o0) = {}" using tiling_disjoint [OF I(1) b jB] ne by simp
  have mB: "m \<notin> B"
  proof
    assume "m \<in> B"
    moreover have "i \<in> pages m" using T(2) pages_self [of "(i, o0)"] unfolding m_def by auto
    ultimately have "m = (i, o0)" using tiling_unique [OF I(1) _ b, of m i] pages_self [of "(i, o0)"] by simp
    then show False by (simp add: m_def)
  qed
  have F: "?B - {m} = ?F" using mB by auto
  have tp: "pgmap t p = (if p \<in> pages (i, o0) \<union> pages (j, o0) then (pgmap s p)\<lparr>pord := pord (pgmap s p) + 1\<rparr> else pgmap s p)" for p
    using dj by (auto simp: t_def pages_def)
  have sr: "same_roots s t" by (simp add: same_roots_def tp)
  note S = same_roots_simps [OF sr]
  have pf: "pfree (pgmap t p) = pfree (pgmap s p)" "returned (pgmap t p) = returned (pgmap s p)" for p
    by (simp_all add: tp)
  have uj: "uniform s (j, o0)" using I(3) jB ne by blast
  have frm: "pfree (pgmap s p)" if "p \<in> pages m" for p
    using that T(2) I(4) [of "(i, o0)"] uj jf unfolding m_def uniform_def by auto
  show "uniform t m"
  proof -
    have "pord (pgmap t p) = o0 + 1" if "p \<in> pages m" for p
      using that T(2) u uj unfolding m_def uniform_def tp by auto
    then show ?thesis using frm pf pages_self [of m] unfolding uniform_def by (simp add: m_def)
  qed
  have "\<forall>c \<in> ?B - {m}. uniform t c"
  proof
    fix c assume "c \<in> ?B - {m}"
    then have c: "c \<in> B" "c \<noteq> (i, o0)" "c \<noteq> (j, o0)" using F by auto
    have "pages c \<inter> (pages (i, o0) \<union> pages (j, o0)) = {}"
      using tiling_disjoint [OF I(1) c(1) b c(2)] tiling_disjoint [OF I(1) c(1) jB c(3)] by blast
    then have "uniform t c = uniform s c" by (intro uniform_cong) (auto simp: tp)
    then show "uniform t c" using I(3) c by blast
  qed
  moreover have "lists_ok (?B - {m}) t"
    unfolding F lists_ok_def pf
  proof
    fix k
    have d: "distinct (free_blocks s k)" and
      e: "set (free_blocks s k) = {p. (p, k) \<in> B - {(i, o0)} \<and> pfree (pgmap s p)}"
      using I(5) unfolding lists_ok_def by blast+
    have tk: "free_blocks t k = (if k = o0 then remove1 j (free_blocks s k) else free_blocks s k)"
      by (simp add: t_def)
    show "distinct (free_blocks t k) \<and> set (free_blocks t k) = {p. (p, k) \<in> ?F \<and> pfree (pgmap s p)}"
    proof (cases "k = o0")
      case True
      then show ?thesis using d e unfolding tk by (simp add: set_diff_eq) blast
    next
      case False
      then show ?thesis using d e unfolding tk by simp
    qed
  qed
  moreover have "returned_ok (?B - {m}) t"
    unfolding F returned_ok_def pf
  proof
    fix p
    have "returned (pgmap s p) = (\<exists>k. (p, k) \<in> B - {(i, o0)} \<and> \<not> pfree (pgmap s p))"
      using I(6) unfolding returned_ok_def by blast
    then show "returned (pgmap s p) = (\<exists>k. (p, k) \<in> ?F \<and> \<not> pfree (pgmap s p))"
      using jf by blast
  qed
  moreover have "coalesced (?B - {m}) t"
  proof -
    have "coalesced ?F s" using I(7) unfolding coalesced_def by blast
    then show ?thesis using sr unfolding F coalesced_def S pf by (simp add: same_roots_def)
  qed
  moreover have "tiling ?B t" using T(1) S by (simp add: m_def)
  moreover have "\<forall>b \<in> {m}. \<forall>p \<in> pages b. pfree (pgmap t p)" using frm pf by auto
  ultimately show "binv ?B {m} t" unfolding binv_def by blast
qed

end
