(* ===== verification/BuddyOps.thy ===== *)
theory BuddyOps
  imports Buddy
begin

unbundle bit_operations_syntax

text \<open>
  The operations of the buddy allocator against its invariant. \<open>allocated\<close> is the set of blocks
  that callers hold, the abstraction \<^verbatim>\<open>kalloc\<close> and \<^verbatim>\<open>kfree\<close> are specified by. Shown: what an
  allocation returns, that freeing an allocated block never panics and coalesces completely, that
  every other pointer panics, and that \<^verbatim>\<open>init_kalloc\<close> establishes the invariant.
\<close>

definition allocated :: "buddy \<Rightarrow> (nat \<times> nat) set" where
  "allocated s = {(i, pord (pgmap s i)) | i. returned (pgmap s i)}"

text \<open>The pages that lie in the blocks of the free lists, which are the ones allocations can be served from.\<close>

definition free_pages :: "buddy \<Rightarrow> nat set" where
  "free_pages s = {p. \<exists>k i. i \<in> set (free_blocks s k) \<and> p \<in> pages (i, k)}"

text \<open>A step that only changes orders of free pages.\<close>

definition ord_only :: "buddy \<Rightarrow> buddy \<Rightarrow> bool" where
  "ord_only s t \<longleftrightarrow> (\<forall>p. returned (pgmap t p) = returned (pgmap s p) \<and> pfree (pgmap t p) = pfree (pgmap s p)
     \<and> r_addr (pgmap t p) = r_addr (pgmap s p) \<and> r_ord (pgmap t p) = r_ord (pgmap s p)
     \<and> (\<not> pfree (pgmap s p) \<longrightarrow> pord (pgmap t p) = pord (pgmap s p)))"

lemma ord_only_refl: "ord_only s s"
  by (simp add: ord_only_def)

lemma ord_only_trans: "ord_only s t \<Longrightarrow> ord_only t u \<Longrightarrow> ord_only s u"
  by (simp add: ord_only_def)

lemma ord_only_lists [simp]: "ord_only s (push_free k x t) = ord_only s t" "ord_only s (set_list k xs t) = ord_only s t"
  by (simp_all add: ord_only_def)

lemma ord_only_upd:
  assumes "\<forall>p \<in> pages (i, o0). pfree (pgmap s p)"
    and "\<And>p. returned (f p) = returned p" "\<And>p. pfree (f p) = pfree p" "\<And>p. r_addr (f p) = r_addr p" "\<And>p. r_ord (f p) = r_ord p"
  shows "ord_only s (upd_range f i (npg o0) s)"
  using assms by (simp add: ord_only_def pages_def)

lemma ord_only_roots: "ord_only s t \<Longrightarrow> same_roots s t"
  by (simp add: ord_only_def same_roots_def)

lemma binv_returned:
  "binv B H s \<Longrightarrow> returned (pgmap s p) \<Longrightarrow> \<not> pfree (pgmap s p)"
  unfolding binv_def returned_ok_def by blast

lemma ord_only_allocated:
  assumes "binv B H s" "ord_only s t"
  shows "allocated t = allocated s"
proof -
  have "returned (pgmap t p) = returned (pgmap s p)"
    "returned (pgmap s p) \<Longrightarrow> pord (pgmap t p) = pord (pgmap s p)" for p
    using assms binv_returned [OF assms(1)] unfolding ord_only_def by blast+
  then show ?thesis unfolding allocated_def by auto
qed

lemma allocated_blocks:
  assumes "binv B {} s"
  shows "allocated s = {b \<in> B. \<not> pfree (pgmap s (fst b))}"
proof -
  note I = binvD [OF assms]
  have o: "pord (pgmap s i) = k" if "(i, k) \<in> B" for i k
    using I(3) [of "(i, k)"] that pages_self [of "(i, k)"] unfolding uniform_def by force
  have r: "returned (pgmap s i) \<longleftrightarrow> (\<exists>k. (i, k) \<in> B \<and> \<not> pfree (pgmap s i))" for i
    using I(6) unfolding returned_ok_def by simp
  show ?thesis
  proof (intro set_eqI iffI)
    fix b assume "b \<in> allocated s"
    then obtain i where i: "b = (i, pord (pgmap s i))" "returned (pgmap s i)" unfolding allocated_def by blast
    then show "b \<in> {b \<in> B. \<not> pfree (pgmap s (fst b))}" using r o by auto
  next
    fix b assume "b \<in> {b \<in> B. \<not> pfree (pgmap s (fst b))}"
    then show "b \<in> allocated s" using r o unfolding allocated_def by (cases b) auto
  qed
qed

lemma free_pages_blocks:
  assumes "binv B {} s"
  shows "free_pages s = \<Union> (pages ` {b \<in> B. pfree (pgmap s (fst b))})"
proof -
  have "i \<in> set (free_blocks s k) \<longleftrightarrow> (i, k) \<in> B \<and> pfree (pgmap s i)" for i k
    using binvD(5) [OF assms] unfolding lists_ok_def by simp
  then show ?thesis unfolding free_pages_def by (auto, metis fst_conv)
qed

text \<open>The blocks are the free ones and the allocated ones, so no managed page is lost.\<close>

lemma free_pages_rest:
  assumes "binv B {} s"
  shows "free_pages s = \<Union> (pages ` B) - \<Union> (pages ` allocated s)"
proof -
  have "pages b \<inter> pages c = {}" if "b \<in> B" "c \<in> B" "pfree (pgmap s (fst b))" "\<not> pfree (pgmap s (fst c))" for b c
    using tiling_disjoint [OF binvD(1) [OF assms] that(1,2)] that(3,4) by blast
  then show ?thesis unfolding free_pages_blocks [OF assms] allocated_blocks [OF assms] by blast
qed

subsection \<open>Taking, pushing and marking a block\<close>

lemma binv_pop:
  assumes inv: "binv B {} s" and l: "free_blocks s k = i # rest"
  shows "binv B {(i, k)} (set_list k rest s)"
proof -
  note I = binvD [OF inv]
  have L: "distinct (free_blocks s j)" "set (free_blocks s j) = {p. (p, j) \<in> B \<and> pfree (pgmap s p)}" for j
    using I(5) unfolding lists_ok_def by simp_all
  have ik: "(i, k) \<in> B" "pfree (pgmap s i)" using L(2) [of k] l by auto
  have sr: "same_roots s (set_list k rest s)" by (rule same_roots_lists)
  note S = same_roots_simps [OF sr]
  have "lists_ok (B - {(i, k)}) (set_list k rest s)"
    unfolding lists_ok_def
  proof
    fix j
    show "distinct (free_blocks (set_list k rest s) j) \<and> set (free_blocks (set_list k rest s) j)
        = {p. (p, j) \<in> B - {(i, k)} \<and> pfree (pgmap (set_list k rest s) p)}"
    proof (cases "j = k")
      case True
      then show ?thesis using L [of k] l by auto
    next
      case False
      then show ?thesis using L [of j] by auto
    qed
  qed
  moreover have "returned_ok (B - {(i, k)}) (set_list k rest s)"
    using I(6) ik unfolding returned_ok_def by auto
  moreover have "coalesced (B - {(i, k)}) (set_list k rest s)"
    using I(7) unfolding coalesced_def S by auto
  moreover have "\<forall>p \<in> pages (i, k). pfree (pgmap (set_list k rest s) p)"
    using I(3) [of "(i, k)"] ik unfolding uniform_def by auto
  moreover have "\<forall>b \<in> B - {(i, k)}. uniform (set_list k rest s) b"
    using I(3) unfolding uniform_def by simp
  ultimately show ?thesis using I(1) ik unfolding binv_def S by simp
qed

lemma binv_push:
  assumes inv: "binv B {(i, o0)} s" and u: "uniform s (i, o0)"
    and top: "o0 = r_ord (pgmap s i) \<or> \<not> ((sibling s (i, o0), o0) \<in> B \<and> pfree (pgmap s (sibling s (i, o0))))"
  shows "binv B {} (push_free o0 i s)"
proof -
  note I = binvD [OF inv]
  have b: "(i, o0) \<in> B" "pfree (pgmap s i)"
    using I(2) I(4) [of "(i, o0)" i] pages_self [of "(i, o0)"] by simp_all
  note S = same_roots_simps [OF same_roots_lists(1) [of s o0 i]]
  have L: "distinct (free_blocks s j)" "set (free_blocks s j) = {p. (p, j) \<in> B - {(i, o0)} \<and> pfree (pgmap s p)}" for j
    using I(5) unfolding lists_ok_def by simp_all
  have "lists_ok B (push_free o0 i s)"
    unfolding lists_ok_def
  proof
    fix j
    show "distinct (free_blocks (push_free o0 i s) j) \<and> set (free_blocks (push_free o0 i s) j)
        = {p. (p, j) \<in> B \<and> pfree (pgmap (push_free o0 i s) p)}"
    proof (cases "j = o0")
      case True
      then show ?thesis using L [of o0] b by auto
    next
      case False
      then show ?thesis using L [of j] by auto
    qed
  qed
  moreover have "returned_ok B (push_free o0 i s)" using I(6) b unfolding returned_ok_def by auto
  moreover have "\<forall>c \<in> B. uniform (push_free o0 i s) c"
    using I(3) u unfolding uniform_def by (metis DiffI push_free_simps(1) singletonD)
  moreover have "coalesced B (push_free o0 i s)"
    unfolding coalesced_def S push_free_simps
  proof (intro ballI impI)
    fix c assume c: "c \<in> B" "pfree (pgmap s (fst c)) \<and> snd c < r_ord (pgmap s (fst c))"
    obtain a where "blk_at s c a" using tiling_blk [OF I(1) c(1)] by blast
    note sib = sibling_blk_at [OF I(1) c(1) this conjunct2 [OF c(2)]]
    show "\<not> ((sibling s c, snd c) \<in> B \<and> pfree (pgmap s (sibling s c)))"
    proof (cases "c = (i, o0) \<or> (sibling s c, snd c) = (i, o0)")
      case True
      then show ?thesis
      proof
        assume "c = (i, o0)"
        then show ?thesis using top c(2) by simp
      next
        assume e: "(sibling s c, snd c) = (i, o0)"
        then have "sibling s (i, o0) = fst c" "r_ord (pgmap s i) = r_ord (pgmap s (fst c))"
          using sib(2,6) by simp_all
        then show ?thesis using top c e by (cases c) auto
      qed
    next
      case False
      then show ?thesis using I(7) c unfolding coalesced_def by blast
    qed
  qed
  ultimately show ?thesis using I(1) unfolding binv_def S by simp
qed

lemma binv_setord:
  assumes inv: "binv B {(i, o0)} s"
  shows "binv B {(i, o0)} (upd_range (\<lambda>p. p\<lparr>pord := k\<rparr>) i (npg o0) s)" (is "binv _ _ ?t")
proof -
  note I = binvD [OF inv]
  have b: "(i, o0) \<in> B" using I(2) by simp
  have sr: "same_roots s ?t" by (rule same_roots_upd_range) simp_all
  note S = same_roots_simps [OF sr]
  have pf: "pfree (pgmap ?t p) = pfree (pgmap s p)" "returned (pgmap ?t p) = returned (pgmap s p)"
    "r_ord (pgmap ?t p) = r_ord (pgmap s p)" for p
    by simp_all
  have "uniform ?t c" if c: "c \<in> B - {(i, o0)}" for c
  proof -
    have "pages c \<inter> pages (i, o0) = {}" using tiling_disjoint [OF I(1) _ b] c by blast
    then have "uniform ?t c = uniform s c" by (intro uniform_cong) (auto simp: pages_def)
    then show ?thesis using I(3) c by simp
  qed
  moreover have "lists_ok (B - {(i, o0)}) ?t" using I(5) unfolding lists_ok_def pf by simp
  moreover have "returned_ok (B - {(i, o0)}) ?t" using I(6) unfolding returned_ok_def pf .
  moreover have "coalesced (B - {(i, o0)}) ?t" using I(7) unfolding coalesced_def S pf .
  moreover have "\<forall>b \<in> {(i, o0)}. \<forall>p \<in> pages b. pfree (pgmap ?t p)" using I(4) unfolding pf by blast
  ultimately show ?thesis using I(1,2) unfolding binv_def S by blast
qed

lemma binv_mark:
  assumes inv: "binv B {(i, o0)} s"
  shows "binv B {} (mark_allocated o0 i s)" "allocated (mark_allocated o0 i s) = insert (i, o0) (allocated s)"
    "(i, o0) \<notin> allocated s" "same_roots s (mark_allocated o0 i s)"
proof -
  let ?t = "mark_allocated o0 i s"
  note I = binvD [OF inv]
  have b: "(i, o0) \<in> B" using I(2) by simp
  have fr: "p \<in> pages (i, o0) \<Longrightarrow> pfree (pgmap s p)" for p using I(4) by simp
  have fi: "pfree (pgmap s i)" using fr [of i] pages_self [of "(i, o0)"] by simp
  have tp: "pgmap ?t p = (if p \<in> pages (i, o0) then (pgmap s p)\<lparr>returned := (p = i \<or> returned (pgmap s p)), pfree := False, pord := o0\<rparr> else pgmap s p)" for p
  proof -
    have "0 < npg o0" by simp
    then have "(i \<le> p \<and> p < i + 1) = (p = i)" "p = i \<Longrightarrow> i \<le> p \<and> p < i + npg o0" by auto
    then show ?thesis unfolding mark_allocated_def pgmap_upd_range pages_def by simp
  qed
  have sr: "same_roots s ?t" by (simp add: same_roots_def tp)
  note S = same_roots_simps [OF sr]
  have dj: "fst c \<notin> pages (i, o0)" "pages c \<inter> pages (i, o0) = {}" if "c \<in> B" "c \<noteq> (i, o0)" for c
    using tiling_disjoint [OF I(1) that(1) b that(2)] pages_self [of c] by blast+
  have nr: "\<not> returned (pgmap s p)" if "p \<in> pages (i, o0)" for p
    using fr [OF that] binv_returned [OF inv] by blast
  have "uniform ?t c" if c: "c \<in> B" for c
  proof (cases "c = (i, o0)")
    case True
    then show ?thesis using pages_self [of "(i, o0)"] by (auto simp: uniform_def tp)
  next
    case False
    then have "uniform ?t c = uniform s c" using dj [OF c] by (intro uniform_cong) (auto simp: tp)
    then show ?thesis using I(3) c False by simp
  qed
  moreover have "lists_ok B ?t"
    unfolding lists_ok_def
  proof
    fix k
    have L: "distinct (free_blocks s k)" "set (free_blocks s k) = {p. (p, k) \<in> B - {(i, o0)} \<and> pfree (pgmap s p)}"
      using I(5) unfolding lists_ok_def by simp_all
    have "((p, k) \<in> B \<and> pfree (pgmap ?t p)) = ((p, k) \<in> B - {(i, o0)} \<and> pfree (pgmap s p))" for p
      using dj(1) [of "(p, k)"] pages_self [of "(i, o0)"] by (auto simp: tp)
    then show "distinct (free_blocks ?t k) \<and> set (free_blocks ?t k) = {p. (p, k) \<in> B \<and> pfree (pgmap ?t p)}"
      using L by (simp add: mark_allocated_def)
  qed
  moreover have "returned_ok B ?t"
    unfolding returned_ok_def
  proof
    fix p
    have r: "returned (pgmap s p) = (\<exists>k. (p, k) \<in> B - {(i, o0)} \<and> \<not> pfree (pgmap s p))"
      using I(6) unfolding returned_ok_def by blast
    show "returned (pgmap ?t p) = (\<exists>k. (p, k) \<in> B \<and> \<not> pfree (pgmap ?t p))"
    proof (cases "p \<in> pages (i, o0)")
      case True
      have "p = i" if "(p, k) \<in> B" for k
        using dj(1) [OF that] True by (cases "(p, k) = (i, o0)") simp_all
      then have "(\<exists>k. (p, k) \<in> B) \<longleftrightarrow> p = i" using b by blast
      then show ?thesis using True nr by (simp add: tp)
    next
      case False
      then have "p \<noteq> i" using pages_self [of "(i, o0)"] by auto
      then show ?thesis using False r by (simp add: tp)
    qed
  qed
  moreover have "coalesced B ?t"
    unfolding coalesced_def S
  proof (intro ballI impI)
    fix c assume c: "c \<in> B" "pfree (pgmap ?t (fst c)) \<and> snd c < r_ord (pgmap ?t (fst c))"
    then have ne: "c \<noteq> (i, o0)" using pages_self [of "(i, o0)"] by (auto simp: tp)
    then have "pgmap ?t (fst c) = pgmap s (fst c)" using dj(1) c(1) by (simp add: tp)
    moreover have "pfree (pgmap ?t q) \<Longrightarrow> pfree (pgmap s q) \<and> q \<noteq> i" for q
      using pages_self [of "(i, o0)"] by (auto simp: tp split: if_splits)
    ultimately show "\<not> ((sibling s c, snd c) \<in> B \<and> pfree (pgmap ?t (sibling s c)))"
      using I(7) c ne unfolding coalesced_def by (metis DiffI Pair_inject singletonD)
  qed
  ultimately show "binv B {} ?t" using I(1) unfolding binv_def S by simp
  show "same_roots s ?t" by (rule sr)
  show "(i, o0) \<notin> allocated s" using nr [of i] pages_self [of "(i, o0)"] unfolding allocated_def by auto
  show "allocated ?t = insert (i, o0) (allocated s)"
  proof -
    have "returned (pgmap ?t p) = (p = i \<or> returned (pgmap s p))" for p
      using pages_self [of "(i, o0)"] by (auto simp: tp)
    moreover have "returned (pgmap s p) \<Longrightarrow> pord (pgmap ?t p) = pord (pgmap s p)" "pord (pgmap ?t i) = o0" for p
      using nr pages_self [of "(i, o0)"] by (auto simp: tp)
    ultimately show ?thesis unfolding allocated_def by auto
  qed
qed

lemma binv_unmark:
  assumes inv: "binv B {} s" and b: "(i, o0) \<in> B" and na: "\<not> pfree (pgmap s i)"
  defines "t \<equiv> upd_range (\<lambda>p. p\<lparr>pfree := True\<rparr>) i (npg o0) (upd_range (\<lambda>p. p\<lparr>returned := False\<rparr>) i 1 s)"
  shows "binv B {(i, o0)} t" "uniform t (i, o0)" "allocated t = allocated s - {(i, o0)}" "same_roots s t"
proof -
  note I = binvD [OF inv]
  have ub: "uniform s (i, o0)" using I(3) b by simp
  have tp: "pgmap t p = (if p \<in> pages (i, o0) then (pgmap s p)\<lparr>returned := (p \<noteq> i \<and> returned (pgmap s p)), pfree := True\<rparr> else pgmap s p)" for p
  proof -
    have "0 < npg o0" by simp
    then have "(i \<le> p \<and> p < i + 1) = (p = i)" "p = i \<Longrightarrow> i \<le> p \<and> p < i + npg o0" by auto
    then show ?thesis unfolding t_def pgmap_upd_range pages_def by simp
  qed
  have sr: "same_roots s t" by (simp add: same_roots_def tp)
  note S = same_roots_simps [OF sr]
  have dj: "fst c \<notin> pages (i, o0)" "pages c \<inter> pages (i, o0) = {}" if "c \<in> B" "c \<noteq> (i, o0)" for c
    using tiling_disjoint [OF I(1) that(1) b that(2)] pages_self [of c] by blast+
  have self: "i \<in> pages (i, o0)" using pages_self [of "(i, o0)"] by simp
  have ro: "returned (pgmap s p) = (\<exists>k. (p, k) \<in> B \<and> \<not> pfree (pgmap s p))" for p
    using I(6) unfolding returned_ok_def by simp
  have only: "p = i" if "p \<in> pages (i, o0)" "(p, k) \<in> B" for p k
    using dj(1) [OF that(2)] that(1) by (cases "(p, k) = (i, o0)") simp_all
  have nr: "\<not> returned (pgmap s p)" if "p \<in> pages (i, o0)" "p \<noteq> i" for p
    using ro only that by blast
  show "same_roots s t" by (rule sr)
  show "uniform t (i, o0)" using ub self unfolding uniform_def by (simp add: tp)
  have "uniform t c" if c: "c \<in> B - {(i, o0)}" for c
  proof -
    have "uniform t c = uniform s c" using dj [of c] c by (intro uniform_cong) (auto simp: tp)
    then show ?thesis using I(3) c by simp
  qed
  moreover have "lists_ok (B - {(i, o0)}) t"
    unfolding lists_ok_def
  proof
    fix k
    have L: "distinct (free_blocks s k)" "set (free_blocks s k) = {p. (p, k) \<in> B \<and> pfree (pgmap s p)}"
      using I(5) unfolding lists_ok_def by simp_all
    have "((p, k) \<in> B - {(i, o0)} \<and> pfree (pgmap t p)) = ((p, k) \<in> B \<and> pfree (pgmap s p))" for p
    proof (cases "(p, k) = (i, o0)")
      case False
      then show ?thesis using dj(1) [of "(p, k)"] by (auto simp: tp)
    qed (use na in auto)
    then show "distinct (free_blocks t k) \<and> set (free_blocks t k) = {p. (p, k) \<in> B - {(i, o0)} \<and> pfree (pgmap t p)}"
      using L by (simp add: t_def)
  qed
  moreover have "returned_ok (B - {(i, o0)}) t"
    unfolding returned_ok_def
  proof
    fix p
    show "returned (pgmap t p) = (\<exists>k. (p, k) \<in> B - {(i, o0)} \<and> \<not> pfree (pgmap t p))"
    proof (cases "p \<in> pages (i, o0)")
      case True
      then show ?thesis using nr by (auto simp: tp)
    next
      case False
      then have "p \<noteq> i" using self by blast
      then show ?thesis using False ro [of p] by (simp add: tp)
    qed
  qed
  moreover have "coalesced (B - {(i, o0)}) t"
    unfolding coalesced_def S
  proof (intro ballI impI)
    fix c assume c: "c \<in> B - {(i, o0)}" "pfree (pgmap t (fst c)) \<and> snd c < r_ord (pgmap t (fst c))"
    then have e: "pgmap t (fst c) = pgmap s (fst c)" using dj(1) [of c] by (simp add: tp)
    show "\<not> ((sibling s c, snd c) \<in> B - {(i, o0)} \<and> pfree (pgmap t (sibling s c)))"
    proof
      assume d: "(sibling s c, snd c) \<in> B - {(i, o0)} \<and> pfree (pgmap t (sibling s c))"
      then have "pgmap t (sibling s c) = pgmap s (sibling s c)"
        using dj(1) [of "(sibling s c, snd c)"] by (simp add: tp)
      then show False using I(7) c d e unfolding coalesced_def by auto
    qed
  qed
  moreover have "\<forall>b \<in> {(i, o0)}. \<forall>p \<in> pages b. pfree (pgmap t p)" by (simp add: tp)
  ultimately show "binv B {(i, o0)} t" using I(1) b unfolding binv_def S by blast
  show "allocated t = allocated s - {(i, o0)}"
  proof -
    have o: "pord (pgmap t p) = pord (pgmap s p)" for p by (simp add: tp)
    have r: "returned (pgmap t p) = (p \<noteq> i \<and> returned (pgmap s p))" for p
      using self nr by (auto simp: tp)
    have oi: "pord (pgmap s i) = o0" using ub self unfolding uniform_def by simp
    show ?thesis unfolding allocated_def o r using oi by blast
  qed
qed

subsection \<open>The loops\<close>

lemma split_loop_binv:
  assumes "binv B {(i, nb)} s" "MIN_ORDER \<le> ord" "ord \<le> nb"
  shows "\<exists>B'. binv B' {(i, ord)} (split_loop ord i nb s) \<and> ord_only s (split_loop ord i nb s) \<and> \<Union> (pages ` B') = \<Union> (pages ` B)"
  using assms
proof (induction "nb - ord" arbitrary: B nb s)
  case 0
  then have "nb = ord" by simp
  then show ?case using 0 ord_only_refl by (auto simp: split_loop.simps)
next
  case (Suc d)
  obtain o0 where o0: "nb = o0 + 1" "ord \<le> o0" "d = o0 - ord" using Suc by (cases nb) auto
  let ?j = "i + npg o0"
  let ?t = "push_free o0 ?j (upd_range (\<lambda>p. p\<lparr>pord := o0\<rparr>) ?j (npg o0) s)"
  have m: "MIN_ORDER \<le> o0" using Suc.prems o0 by simp
  let ?B = "B - {(i, o0 + 1)} \<union> {(i, o0), (?j, o0)}"
  have st: "binv ?B {(i, o0)} ?t"
    using binv_split Suc.prems(1) m unfolding o0(1) by blast
  have "(i, o0 + 1) \<in> B" using binvD(2) [OF Suc.prems(1)] o0(1) by simp
  then have cov: "\<Union> (pages ` ?B) = \<Union> (pages ` B)" using pages_split [OF m, of i] by blast
  have "\<forall>p \<in> pages (?j, o0). pfree (pgmap s p)"
    using binvD(4) [OF Suc.prems(1)] pages_split [OF m, of i] o0 by blast
  then have oo: "ord_only s ?t" using ord_only_upd [of ?j o0 s "\<lambda>p. p\<lparr>pord := o0\<rparr>"] by simp
  have "split_loop ord i nb s = split_loop ord i o0 ?t"
    using o0 by (subst split_loop.simps) (simp add: Let_def)
  then show ?case using Suc.hyps(1) [OF o0(3) st Suc.prems(2) o0(2)] ord_only_trans [OF oo] unfolding cov by metis
qed

lemma buddy_address:
  assumes a: "blk_at s (i, o0) a" and o: "pord (pgmap s i) = o0"
  shows "(if buddy_to_the_left s i then i * PAGESIZE - 2 ^ o0 else i * PAGESIZE + 2 ^ o0)
      = sibling s (i, o0) * PAGESIZE" "buddy_to_the_left s i = odd a"
proof -
  have p: "MIN_ORDER \<le> o0" "i = root s i + a * npg o0" "r_addr (pgmap s i) mod PAGESIZE = 0"
    using a unfolding blk_at_def by auto
  have ra: "r_addr (pgmap s i) = root s i * PAGESIZE" using p(3) unfolding root_def by auto
  have ia: "i * PAGESIZE = r_addr (pgmap s i) + a * 2 ^ o0"
    using p(2) ra exp_order [OF p(1)] by (metis add_mult_distrib mult.assoc)
  have "(a * 2 ^ o0 AND 2 ^ o0 \<noteq> 0) = odd a"
    by (simp add: and_exp_eq_0_iff_not_bit flip: push_bit_eq_mult) (simp add: bit_push_bit_iff bit_0)
  then show l: "buddy_to_the_left s i = odd a"
    unfolding buddy_to_the_left_def Let_def ia o by simp
  have sa: "sibling s (i, o0) * PAGESIZE = r_addr (pgmap s i) + (if odd a then a - 1 else a + 1) * 2 ^ o0"
    using blk_at_sibling [OF a] ra exp_order [OF p(1)] by (simp add: add_mult_distrib mult.assoc)
  show "(if buddy_to_the_left s i then i * PAGESIZE - 2 ^ o0 else i * PAGESIZE + 2 ^ o0)
      = sibling s (i, o0) * PAGESIZE"
  proof (cases "odd a")
    case True
    then obtain k where "a = 2 * k + 1" by (rule oddE)
    then show ?thesis unfolding l sa ia using True by simp
  next
    case False
    then show ?thesis unfolding l sa ia by simp
  qed
qed

lemma free_loop_binv:
  assumes "binv B {(i, o0)} s" "uniform s (i, o0)"
  shows "\<exists>B' t. free_loop i (i * PAGESIZE) s = Some t \<and> binv B' {} t \<and> ord_only s t \<and> \<Union> (pages ` B') = \<Union> (pages ` B)"
  using assms
proof (induction "r_ord (pgmap s i) - o0" arbitrary: B i o0 s)
  case 0
  obtain a where a: "blk_at s (i, o0) a" using tiling_blk [OF binvD(1)] binvD(2) 0 by blast
  then have r: "o0 = r_ord (pgmap s i)" using 0 unfolding blk_at_def by simp
  have o: "pord (pgmap s i) = o0" using 0(3) pages_self [of "(i, o0)"] unfolding uniform_def by simp
  have "free_loop i (i * PAGESIZE) s = Some (push_free o0 i s)"
    using o r by (subst free_loop.simps) simp
  moreover have "binv B {} (push_free o0 i s)" using binv_push 0 r by blast
  ultimately show ?case using ord_only_refl by (metis ord_only_lists(1))
next
  case (Suc d)
  note I = binvD [OF Suc.prems(1)]
  have b: "(i, o0) \<in> B" using I(2) by simp
  obtain a where a: "blk_at s (i, o0) a" using tiling_blk [OF I(1) b] by blast
  have m: "MIN_ORDER \<le> o0" and lt: "o0 < r_ord (pgmap s i)" using a Suc unfolding blk_at_def by simp_all
  have o: "pord (pgmap s i) = o0" using Suc.prems(2) pages_self [of "(i, o0)"] unfolding uniform_def by simp
  define j where "j = sibling s (i, o0)"
  note ad = buddy_address(1) [OF a o, folded j_def]
  have P: "0 < PAGESIZE" by (simp add: kconst)
  define t where "t = upd_range (\<lambda>p. p\<lparr>pord := pord p + 1\<rparr>) j (npg o0)
      (upd_range (\<lambda>p. p\<lparr>pord := pord p + 1\<rparr>) i (npg o0)
        (set_list o0 (remove1 j (free_blocks s o0)) s))"
  have step: "free_loop i (i * PAGESIZE) s =
      (if pfree (pgmap s j) \<and> pord (pgmap s j) = o0 then
         (if j * PAGESIZE < i * PAGESIZE then free_loop j (j * PAGESIZE) t else free_loop i (i * PAGESIZE) t)
       else Some (push_free o0 i s))"
    using lt P by (subst free_loop.simps) (simp add: Let_def o ad t_def exp_order_div [OF m])
  show ?case
  proof (cases "pfree (pgmap s j) \<and> pord (pgmap s j) = o0")
    case False
    have "\<not> ((j, o0) \<in> B \<and> pfree (pgmap s j))"
    proof
      assume jB: "(j, o0) \<in> B \<and> pfree (pgmap s j)"
      have "(j, o0) \<noteq> (i, o0)" using sibling_blk_at(4) [OF I(1) b a] lt unfolding j_def by simp
      then have "uniform s (j, o0)" using I(3) jB by blast
      then have "pord (pgmap s j) = o0" using pages_self [of "(j, o0)"] unfolding uniform_def by simp
      then show False using False jB by blast
    qed
    then have "binv B {} (push_free o0 i s)" using binv_push Suc.prems unfolding j_def by blast
    moreover have "ord_only s (push_free o0 i s)" using ord_only_refl by simp
    ultimately show ?thesis using step False by auto
  next
    case True
    have "\<forall>c \<in> B - {(i, o0)}. uniform s c" using I(3) by blast
    then have jB: "(j, o0) \<in> B" using sibling_in_tiling [OF I(1) b] lt True unfolding j_def by simp
    let ?m = "(min i j, o0 + 1)"
    have M: "binv (B - {(i, o0), (j, o0)} \<union> {?m}) {?m} t" "uniform t ?m"
      using binv_merge [OF Suc.prems lt] jB True unfolding t_def j_def by simp_all
    have cov: "\<Union> (pages ` (B - {(i, o0), (j, o0)} \<union> {?m})) = \<Union> (pages ` B)"
      using tiling_merge(2) [OF I(1) b jB j_def lt] b jB by blast
    have "r_ord (pgmap t p) = r_ord (pgmap s p)" for p by (simp add: t_def)
    then have jr: "r_ord (pgmap t (min i j)) = r_ord (pgmap s i)"
      using tiling_merge(3) [OF I(1) b jB j_def lt] by simp
    have "\<forall>p \<in> pages (i, o0). pfree (pgmap s p)" using I(4) by simp
    moreover have "\<forall>p \<in> pages (j, o0). pfree (pgmap s p)"
      using tiling_merge(4) [OF I(1) b jB j_def lt] I(3) [of "(j, o0)"] jB True unfolding uniform_def by auto
    ultimately have oo: "ord_only s t"
      unfolding t_def ord_only_def pages_def by simp
    have "d = r_ord (pgmap t (min i j)) - (o0 + 1)" using Suc.hyps(2) jr by simp
    from Suc.hyps(1) [OF this M] obtain B' u where
      u: "free_loop (min i j) (min i j * PAGESIZE) t = Some u" "binv B' {} u" "ord_only t u" "\<Union> (pages ` B') = \<Union> (pages ` B)"
      unfolding cov by blast
    have "free_loop i (i * PAGESIZE) s = Some u"
      using step True u(1) P by (cases "j < i") (simp_all add: min_def)
    then show ?thesis using u(2,4) ord_only_trans [OF oo u(3)] by blast
  qed
qed

lemma next_best_Some:
  "next_best fb nb = Some k \<Longrightarrow> nb < k \<and> k \<le> MAX_ORDER \<and> fb k \<noteq> []"
  by (induction fb nb rule: next_best.induct) (subst (asm) next_best.simps, force split: if_splits)

lemma next_best_None:
  "next_best fb nb = None \<Longrightarrow> nb < k \<Longrightarrow> k \<le> MAX_ORDER \<Longrightarrow> fb k = []"
proof (induction fb nb rule: next_best.induct)
  case (1 fb nb)
  then have lt: "nb < MAX_ORDER" by linarith
  then have n: "fb (nb + 1) = []" "next_best fb (nb + 1) = None"
    using 1(2) by (auto simp: next_best.simps [of fb nb] split: if_splits)
  show ?case
  proof (cases "k = nb + 1")
    case False
    then show ?thesis using 1(1) [OF lt] n 1(3,4) by simp
  qed (use n in simp)
qed

subsection \<open>Allocation and freeing\<close>

lemma take_block_binv:
  assumes inv: "binv B {} s" and o: "MIN_ORDER \<le> ord" and tk: "take_block ord s = Some (i, t)"
  shows "\<exists>B'. binv B' {(i, ord)} t \<and> ord_only s t \<and> \<Union> (pages ` B') = \<Union> (pages ` B)"
proof (cases "free_blocks s ord")
  case Nil
  then obtain nb where nb: "next_best (free_blocks s) ord = Some nb"
    using tk unfolding take_block_def by (auto split: option.splits)
  then have nb': "ord < nb" "free_blocks s nb \<noteq> []" using next_best_Some by blast+
  let ?s1 = "set_list nb (tl (free_blocks s nb)) s" and ?i = "hd (free_blocks s nb)"
  have b: "binv B {(?i, nb)} ?s1" using binv_pop [OF inv, of nb ?i "tl (free_blocks s nb)"] nb'(2) by simp
  obtain B' where B': "binv B' {(?i, ord)} (split_loop ord ?i nb ?s1)" "ord_only ?s1 (split_loop ord ?i nb ?s1)"
    "\<Union> (pages ` B') = \<Union> (pages ` B)"
    using split_loop_binv [OF b o less_imp_le [OF nb'(1)]] by blast
  have i: "i = ?i" and t: "t = upd_range (\<lambda>p. p\<lparr>pord := ord\<rparr>) ?i (npg ord) (split_loop ord ?i nb ?s1)"
    using tk nb Nil unfolding take_block_def by (auto simp: Let_def)
  have "binv B' {(i, ord)} t" using binv_setord [OF B'(1)] unfolding t i .
  moreover have "ord_only (split_loop ord ?i nb ?s1) t"
    unfolding t using binvD(4) [OF B'(1)] by (intro ord_only_upd) auto
  moreover have "ord_only s ?s1" using ord_only_refl by simp
  ultimately have "binv B' {(i, ord)} t \<and> ord_only s t" using ord_only_trans B'(2) by metis
  then show ?thesis using B'(3) by metis
next
  case (Cons x rest)
  then have "i = x" "t = set_list ord rest s" using tk unfolding take_block_def by simp_all
  then have "binv B {(i, ord)} t \<and> ord_only s t" using binv_pop [OF inv Cons] ord_only_refl by simp
  then show ?thesis by blast
qed

lemma take_block_None:
  assumes "take_block ord s = None" "ord \<le> k" "k \<le> MAX_ORDER"
  shows "free_blocks s k = []"
proof -
  have "free_blocks s ord = []" "next_best (free_blocks s) ord = None"
    using assms(1) unfolding take_block_def by (auto split: list.splits option.splits simp: Let_def)
  then show ?thesis using next_best_None [of "free_blocks s" ord k] assms by (cases "k = ord") auto
qed

text \<open>The order \<^verbatim>\<open>kalloc\<close> computes from a size is the least one that fits.\<close>

lemma shift_count_bounds: "0 < n \<Longrightarrow> 2 ^ shift_count n \<le> n \<and> n < 2 ^ (shift_count n + 1)"
proof (induction n rule: shift_count.induct)
  case (1 n)
  show ?case
  proof (cases "n div 2 = 0")
    case True
    then have "n = 1" using 1(2) by linarith
    then show ?thesis by (simp add: shift_count.simps)
  next
    case False
    then have IH: "2 ^ shift_count (n div 2) \<le> n div 2 \<and> n div 2 < 2 ^ (shift_count (n div 2) + 1)"
      using 1(1) by simp
    have e: "shift_count n = Suc (shift_count (n div 2))" using False by (simp add: shift_count.simps [of n])
    show ?thesis using IH unfolding e by auto
  qed
qed

lemma and_pred_zero: "0 < (n::nat) \<Longrightarrow> (n - 1) AND n = 0 \<longleftrightarrow> n = 2 ^ shift_count n"
proof (induction n rule: shift_count.induct)
  case (1 n)
  show ?case
  proof (cases "n div 2 = 0")
    case True
    then have "n = 1" using 1(2) by linarith
    then show ?thesis by (simp add: shift_count.simps)
  next
    case big: False
    have e: "shift_count n = Suc (shift_count (n div 2))" using big by (simp add: shift_count.simps [of n])
    show ?thesis
    proof (cases "even n")
      case True
      then obtain m where m: "n = 2 * m" by (rule evenE)
      then have "0 < m" using 1(2) by simp
      have "(n - 1) AND n = 2 * ((m - 1) AND m)"
        using \<open>0 < m\<close> unfolding m by (subst and_rec) (cases m, auto)
      then show ?thesis using 1(1) [OF big] big e m by simp
    next
      case False
      then obtain m where m: "n = 2 * m + 1" by (rule oddE)
      then have "0 < m" using big by simp
      have "(n - 1) AND n = 2 * (m AND m)" unfolding m by (subst and_rec) simp
      then have "(n - 1) AND n \<noteq> 0" using \<open>0 < m\<close> by simp
      moreover have "even ((2::nat) ^ shift_count n)" unfolding e by simp
      then have "n \<noteq> 2 ^ shift_count n" using False by metis
      ultimately show ?thesis by simp
    qed
  qed
qed

lemma order_unat:
  assumes "sz \<noteq> 0"
  shows "order sz False = (if unat sz = 2 ^ shift_count (unat sz) then shift_count (unat sz) else shift_count (unat sz) + 1)"
proof -
  let ?n = "unat sz"
  have n: "0 < ?n" using assms by (simp add: unat_gt_0)
  have "unat (sz - 1) = ?n - 1" using assms by (simp add: unat_minus_one)
  then have "unat ((sz - 1) AND sz) = (?n - 1) AND ?n" by (simp add: unsigned_and_eq)
  then have "((sz - 1) AND sz = 0) = ((?n - 1) AND ?n = 0)" by (metis unat_eq_zero)
  then show ?thesis using and_pred_zero [OF n] unfolding order_def by (simp add: Let_def)
qed

lemma order_least:
  assumes "sz \<noteq> 0"
  shows "order sz False \<le> k \<longleftrightarrow> unat sz \<le> 2 ^ k"
proof -
  let ?n = "unat sz"
  let ?c = "shift_count ?n"
  have n: "0 < ?n" using assms by (simp add: unat_gt_0)
  note B = shift_count_bounds [OF n]
  have mono: "i \<le> j \<Longrightarrow> (2::nat) ^ i \<le> 2 ^ j" for i j by simp
  show ?thesis
  proof (cases "?n = 2 ^ ?c")
    case True
    have "order sz False = ?c" using True by (simp add: order_unat [OF assms])
    then show ?thesis by (subst True) simp
  next
    case False
    have e: "order sz False = ?c + 1" using False by (simp add: order_unat [OF assms])
    show ?thesis
    proof
      assume "order sz False \<le> k"
      then show "?n \<le> 2 ^ k" using B e mono [of "?c + 1" k] by linarith
    next
      assume le: "?n \<le> 2 ^ k"
      show "order sz False \<le> k"
      proof (rule ccontr)
        assume "\<not> order sz False \<le> k"
        then show False using le B False e mono [of k ?c] by linarith
      qed
    qed
  qed
qed

lemma order_min: "order sz True = max (order sz False) MIN_ORDER"
  by (simp add: order_def Let_def max_def)

lemma binv_block_bounds: "binv B H s \<Longrightarrow> (i, k) \<in> B \<Longrightarrow> MIN_ORDER \<le> k \<and> k \<le> MAX_ORDER"
  using tiling_blk [OF binvD(1), of B H s "(i, k)"] unfolding blk_at_def by fastforce

lemma buddy_alloc_cases:
  fixes s sz
  assumes inv: "buddy_inv s"
  defines "ord \<equiv> max (order sz False) MIN_ORDER"
  shows "(fst (buddy_alloc sz s) = None \<and> snd (buddy_alloc sz s) = s \<and> take_block ord s = None)
    \<or> (\<exists>i B t. buddy_alloc sz s = (Some (i * PAGESIZE), t) \<and> binv B {} t \<and> (i, ord) \<in> B
         \<and> allocated t = insert (i, ord) (allocated s) \<and> (i, ord) \<notin> allocated s
         \<and> same_roots s t \<and> pages (i, ord) \<subseteq> free_pages s \<and> free_pages t = free_pages s - pages (i, ord))"
proof -
  obtain B where B: "binv B {} s" using inv unfolding buddy_inv_def by blast
  have o: "MIN_ORDER \<le> ord" by (simp add: ord_def)
  have e: "buddy_alloc sz s = (case take_block ord s of None \<Rightarrow> (None, s)
      | Some (blk, s1) \<Rightarrow> (Some (blk * PAGESIZE), mark_allocated ord blk s1))"
  proof -
    have m: "(if order sz False \<ge> MIN_ORDER then order sz False else MIN_ORDER) = ord"
      by (simp add: ord_def max_def)
    show ?thesis unfolding buddy_alloc_def Let_def m ..
  qed
  show ?thesis
  proof (cases "take_block ord s")
    case None
    then show ?thesis using e by simp
  next
    case (Some r)
    obtain i t where r: "r = (i, t)" by (cases r)
    obtain B' where B': "binv B' {(i, ord)} t" "ord_only s t" "\<Union> (pages ` B') = \<Union> (pages ` B)"
      using take_block_binv [OF B o] Some r by blast
    note M = binv_mark [OF B'(1)]
    have "buddy_alloc sz s = (Some (i * PAGESIZE), mark_allocated ord i t)" using e Some r by simp
    moreover note al = ord_only_allocated [OF B B'(2)]
    moreover have ib: "(i, ord) \<in> B'" using binvD(2) [OF B'(1)] by simp
    moreover have "same_roots s (mark_allocated ord i t)"
      using same_roots_trans [OF ord_only_roots [OF B'(2)] M(4)] .
    moreover have fp: "free_pages (mark_allocated ord i t) = free_pages s - pages (i, ord)"
      unfolding free_pages_rest [OF M(1)] free_pages_rest [OF B] M(2) al B'(3) by blast
    moreover have "pages (i, ord) \<subseteq> free_pages s"
    proof -
      have "pages (i, ord) \<inter> pages b = {}" if "b \<in> allocated s" for b
        using tiling_disjoint [OF binvD(1) [OF B'(1)] ib, of b] that M(2,3) allocated_blocks [OF M(1)] al by blast
      moreover have "pages (i, ord) \<subseteq> \<Union> (pages ` B)" using ib B'(3) by blast
      ultimately show ?thesis unfolding free_pages_rest [OF B] by blast
    qed
    ultimately show ?thesis using M(1,2,3) by metis
  qed
qed

text \<open>
  C2. An allocation through the buddy allocator. If it returns an address, the address is page
  aligned and starts a block of the least order (at least \<open>MIN_ORDER\<close>) whose size is enough,
  the block shares no page with any block a caller holds, it is the only block added to the
  allocated ones, all other free pages stay available, and the allocator stays well formed. If it returns null, nothing changed and
  no free block of a sufficient order exists.
\<close>

theorem buddy_alloc_correct:
  assumes "buddy_inv s" "sz \<noteq> 0"
  shows "case buddy_alloc sz s of
      (Some addr, t) \<Rightarrow> \<exists>o0. addr mod PAGESIZE = 0 \<and> MIN_ORDER \<le> o0 \<and> o0 \<le> MAX_ORDER \<and> unat sz \<le> 2 ^ o0
        \<and> (\<forall>k. MIN_ORDER \<le> k \<and> unat sz \<le> 2 ^ k \<longrightarrow> o0 \<le> k)
        \<and> (\<forall>b \<in> allocated s. pages b \<inter> pages (addr div PAGESIZE, o0) = {})
        \<and> allocated t = insert (addr div PAGESIZE, o0) (allocated s) \<and> buddy_inv t
        \<and> pages (addr div PAGESIZE, o0) \<subseteq> free_pages s \<and> free_pages t = free_pages s - pages (addr div PAGESIZE, o0)
    | (None, t) \<Rightarrow> t = s \<and> (\<forall>k. MIN_ORDER \<le> k \<and> k \<le> MAX_ORDER \<and> unat sz \<le> 2 ^ k \<longrightarrow> free_blocks s k = [])"
proof -
  define ord where "ord = max (order sz False) MIN_ORDER"
  have le: "ord \<le> k \<longleftrightarrow> MIN_ORDER \<le> k \<and> unat sz \<le> 2 ^ k" for k
    using order_least [OF assms(2)] unfolding ord_def by auto
  from buddy_alloc_cases [OF assms(1), of sz, folded ord_def]
  show ?thesis
  proof
    assume a: "fst (buddy_alloc sz s) = None \<and> snd (buddy_alloc sz s) = s \<and> take_block ord s = None"
    then have "buddy_alloc sz s = (None, s)" by (metis prod.collapse)
    moreover have "free_blocks s k = []" if "MIN_ORDER \<le> k \<and> k \<le> MAX_ORDER \<and> unat sz \<le> 2 ^ k" for k
      using take_block_None [of ord s k] a le [of k] that by simp
    ultimately show ?thesis by simp
  next
    assume "\<exists>i B t. buddy_alloc sz s = (Some (i * PAGESIZE), t) \<and> binv B {} t \<and> (i, ord) \<in> B
         \<and> allocated t = insert (i, ord) (allocated s) \<and> (i, ord) \<notin> allocated s
         \<and> same_roots s t \<and> pages (i, ord) \<subseteq> free_pages s \<and> free_pages t = free_pages s - pages (i, ord)"
    then obtain i B t where a: "buddy_alloc sz s = (Some (i * PAGESIZE), t)" "binv B {} t" "(i, ord) \<in> B"
      "allocated t = insert (i, ord) (allocated s)" "(i, ord) \<notin> allocated s"
      "pages (i, ord) \<subseteq> free_pages s" "free_pages t = free_pages s - pages (i, ord)" by blast
    have "allocated t \<subseteq> B" using allocated_blocks [OF a(2)] by blast
    then have "pages b \<inter> pages (i, ord) = {}" if "b \<in> allocated s" for b
      using tiling_disjoint [OF binvD(1) [OF a(2)] _ a(3), of b] that a(4,5) by blast
    moreover have "MIN_ORDER \<le> ord \<and> ord \<le> MAX_ORDER" using binv_block_bounds [OF a(2,3)] .
    moreover have "buddy_inv t" using a(2) unfolding buddy_inv_def by blast
    moreover have "i * PAGESIZE mod PAGESIZE = 0" "i * PAGESIZE div PAGESIZE = i" by (simp_all add: kconst)
    moreover have "unat sz \<le> 2 ^ ord" "\<forall>k. MIN_ORDER \<le> k \<and> unat sz \<le> 2 ^ k \<longrightarrow> ord \<le> k"
      using le le [of ord] by blast+
    ultimately show ?thesis using a(4,6,7) unfolding a(1) prod.case option.case by (intro exI [of _ ord]) simp
  qed
qed

lemma buddy_free_allocated:
  assumes inv: "buddy_inv s" and al: "(i, o0) \<in> allocated s"
  shows "\<exists>t. buddy_free (i * PAGESIZE) s = Some t \<and> buddy_inv t \<and> allocated t = allocated s - {(i, o0)}
     \<and> (\<forall>p \<in> pages (i, o0). pfree (pgmap t p) \<and> \<not> returned (pgmap t p))
     \<and> same_roots s t \<and> free_pages t = free_pages s \<union> pages (i, o0)"
proof -
  obtain B where B: "binv B {} s" using inv unfolding buddy_inv_def by blast
  have b: "(i, o0) \<in> B" "\<not> pfree (pgmap s i)" using al allocated_blocks [OF B] by auto
  have m: "MIN_ORDER \<le> o0" using binv_block_bounds [OF B b(1)] by simp
  have r: "returned (pgmap s i)" "pord (pgmap s i) = o0" using al unfolding allocated_def by auto
  define t where "t = upd_range (\<lambda>p. p\<lparr>pfree := True\<rparr>) i (npg o0) (upd_range (\<lambda>p. p\<lparr>returned := False\<rparr>) i 1 s)"
  note U = binv_unmark [OF B b, folded t_def]
  obtain B' u where u: "free_loop i (i * PAGESIZE) t = Some u" "binv B' {} u" "ord_only t u" "\<Union> (pages ` B') = \<Union> (pages ` B)"
    using free_loop_binv [OF U(1,2)] by blast
  have "buddy_free (i * PAGESIZE) s = free_loop i (i * PAGESIZE) t"
    unfolding buddy_free_def t_def using b r exp_order_div [OF m] by (simp add: kconst Let_def)
  then have bf: "buddy_free (i * PAGESIZE) s = Some u" "buddy_inv u" "allocated u = allocated s - {(i, o0)}"
    using u U(3) ord_only_allocated [OF U(1) u(3)] unfolding buddy_inv_def by auto
  moreover have "same_roots s u" using same_roots_trans [OF U(4) ord_only_roots [OF u(3)]] .
  moreover have "free_pages u = free_pages s \<union> pages (i, o0)"
  proof -
    have "pages (i, o0) \<inter> pages c = {}" if "c \<in> allocated s - {(i, o0)}" for c
      using tiling_disjoint [OF binvD(1) [OF B] b(1), of c] that allocated_blocks [OF B] by blast
    then show ?thesis unfolding free_pages_rest [OF u(2)] free_pages_rest [OF B] bf(3) u(4) using b(1) al by blast
  qed
  moreover have "pfree (pgmap u p) \<and> \<not> returned (pgmap u p)" if "p \<in> pages (i, o0)" for p
  proof -
    have "pfree (pgmap t p)" using binvD(4) [OF U(1)] that by blast
    then have "pfree (pgmap u p)" using u(3) unfolding ord_only_def by blast
    then show ?thesis using binv_returned [OF u(2)] by blast
  qed
  ultimately show ?thesis by blast
qed

text \<open>
  C3. Freeing. For the address of an allocated block \<^verbatim>\<open>kfree\<close> runs to its end (no assertion fails and
  the coalescing loop terminates), removes exactly that block from the allocated ones, adds exactly its
  pages to those on the free lists and keeps the invariant, which includes that no two free siblings remain. For every other address, an
  unaligned one, an inner page of a block or a block already freed, an assertion fails.
\<close>

theorem buddy_free_correct:
  assumes "buddy_inv s"
  shows "if addr mod PAGESIZE = 0 \<and> (\<exists>o0. (addr div PAGESIZE, o0) \<in> allocated s)
     then \<exists>t o0. buddy_free addr s = Some t \<and> buddy_inv t \<and> (addr div PAGESIZE, o0) \<in> allocated s
            \<and> allocated t = allocated s - {(addr div PAGESIZE, o0)} \<and> free_pages t = free_pages s \<union> pages (addr div PAGESIZE, o0)
     else buddy_free addr s = None"
proof (cases "addr mod PAGESIZE = 0 \<and> (\<exists>o0. (addr div PAGESIZE, o0) \<in> allocated s)")
  case True
  then obtain o0 where o: "(addr div PAGESIZE, o0) \<in> allocated s" by blast
  have "addr div PAGESIZE * PAGESIZE = addr" using True by auto
  then show ?thesis using buddy_free_allocated [OF assms o] True o by auto
next
  case False
  then have "addr mod PAGESIZE \<noteq> 0 \<or> \<not> returned (pgmap s (addr div PAGESIZE))"
    unfolding allocated_def by auto
  then show ?thesis using False unfolding buddy_free_def by (auto simp: Let_def)
qed

subsection \<open>Initialisation\<close>

definition root_free :: "nat \<Rightarrow> nat \<Rightarrow> buddy \<Rightarrow> buddy" where
  "root_free i k s = push_free k i
     (upd_range (\<lambda>p. p\<lparr>pfree := True, pord := k, r_ord := k, r_addr := i * PAGESIZE\<rparr>) i (npg k) s)"

lemma root_free_pgmap:
  "pgmap (root_free i k s) p = (if p \<in> pages (i, k)
     then (pgmap s p)\<lparr>pfree := True, pord := k, r_ord := k, r_addr := i * PAGESIZE\<rparr> else pgmap s p)"
  by (simp add: root_free_def pages_def)

lemma binv_returned_in:
  assumes "binv B {} s" "returned (pgmap s p)"
  shows "p \<in> \<Union> (pages ` B)"
proof -
  obtain k where "(p, k) \<in> B" using binvD(6) [OF assms(1)] assms(2) unfolding returned_ok_def by auto
  then show ?thesis using pages_self [of "(p, k)"] by force
qed

lemma tiling_add_root:
  assumes t: "tiling B s" and new: "pages (i, k) \<inter> \<Union> (pages ` B) = {}" and k: "MIN_ORDER \<le> k" "k \<le> MAX_ORDER"
  shows "tiling (insert (i, k) B) (root_free i k s)"
proof -
  let ?t = "root_free i k s"
  have P: "0 < PAGESIZE" by (simp add: kconst)
  have self: "i \<in> pages (i, k)" using pages_self [of "(i, k)"] by simp
  have ir: "root ?t i = i" "r_ord (pgmap ?t i) = k" "r_addr (pgmap ?t i) = i * PAGESIZE"
    using self P by (simp_all add: root_free_pgmap root_def)
  have rp: "root_pages s (fst c) \<subseteq> \<Union> (pages ` B)" if "c \<in> B" for c
    using tiling_root(5) [OF t that] by blast
  have same: "pgmap ?t p = pgmap s p" if "p \<in> \<Union> (pages ` B)" for p
    using that new unfolding root_free_pgmap by (metis IntI emptyE)
  have fc: "fst c \<in> \<Union> (pages ` B)" if "c \<in> B" for c using that pages_self [of c] by blast
  have old: "root ?t (fst c) = root s (fst c)" "root_pages ?t (fst c) = root_pages s (fst c)"
    "blk_at ?t c a = blk_at s c a" if "c \<in> B" for c a
    using same [OF fc [OF that]] by (simp_all add: root_def root_pages_def blk_at_def)
  have "blk_at ?t (i, k) 0" using ir k self by (simp add: blk_at_def)
  moreover have "\<exists>a. blk_at ?t c a" if "c \<in> B" for c using tiling_blk [OF t that] old(3) [OF that] by blast
  moreover have "pages b \<inter> pages c = {}" if "b \<in> insert (i, k) B" "c \<in> insert (i, k) B" "b \<noteq> c" for b c
  proof -
    have "pages (i, k) \<inter> pages d = {}" if "d \<in> B" for d using new that by blast
    then show ?thesis using that tiling_disjoint [OF t, of b c] by (metis Int_commute insertE)
  qed
  moreover have "r_addr (pgmap ?t p) = r_addr (pgmap ?t (fst c)) \<and> r_ord (pgmap ?t p) = r_ord (pgmap ?t (fst c))
          \<and> (\<exists>d \<in> insert (i, k) B. p \<in> pages d)"
    if c: "c \<in> insert (i, k) B" "p \<in> root_pages ?t (fst c)" for c p
  proof (cases "c \<in> B")
    case True
    then have "p \<in> root_pages s (fst c)" using c(2) old(2) by simp
    note r = tiling_root [OF t True this]
    have "p \<in> \<Union> (pages ` B)" using r(5) by blast
    then show ?thesis using r(2,3) same same [OF fc [OF True]] by auto
  next
    case False
    then have "c = (i, k)" "p \<in> pages (i, k)" using c ir by (auto simp: root_pages_def pages_def)
    then show ?thesis using self by (auto simp: root_free_pgmap)
  qed
  ultimately show ?thesis unfolding tiling_def by blast
qed

lemma binv_add_root:
  assumes inv: "binv B {} s" and new: "pages (i, k) \<inter> \<Union> (pages ` B) = {}" and k: "MIN_ORDER \<le> k" "k \<le> MAX_ORDER"
  shows "binv (insert (i, k) B) {} (root_free i k s)" "allocated (root_free i k s) = allocated s"
proof -
  let ?t = "root_free i k s" and ?b = "(i, k)"
  note I = binvD [OF inv]
  have self: "i \<in> pages (i, k)" using pages_self [of "(i, k)"] by simp
  have same: "pgmap ?t p = pgmap s p" if "p \<in> \<Union> (pages ` B)" for p
    using that new unfolding root_free_pgmap by (metis IntI emptyE)
  have fc: "fst c \<in> \<Union> (pages ` B)" if "c \<in> B" for c using that pages_self [of c] by blast
  have fc': "p \<in> \<Union> (pages ` B)" if "(p, j) \<in> B" for p j using fc [OF that] by simp
  have nB: "?b \<notin> B" using fc [of ?b] new self by auto
  have u: "uniform ?t c" if "c \<in> insert ?b B" for c
  proof (cases "c \<in> B")
    case True
    have "pgmap ?t p = pgmap s p" if "p \<in> pages c" for p using same [of p] True that by blast
    then have "uniform ?t c = uniform s c" by (intro uniform_cong) simp
    then show ?thesis using I(3) True by simp
  next
    case False
    then show ?thesis using that self by (auto simp: uniform_def root_free_pgmap)
  qed
  have l: "lists_ok (insert ?b B) ?t"
    unfolding lists_ok_def
  proof
    fix j
    have L: "distinct (free_blocks s j)" "set (free_blocks s j) = {p. (p, j) \<in> B \<and> pfree (pgmap s p)}"
      using I(5) unfolding lists_ok_def by simp_all
    have "pfree (pgmap ?t p) = pfree (pgmap s p)" if "(p, j) \<in> B" for p using same [OF fc' [OF that]] by simp
    then have e: "{p. (p, j) \<in> B \<and> pfree (pgmap ?t p)} = {p. (p, j) \<in> B \<and> pfree (pgmap s p)}" by blast
    have "pfree (pgmap ?t i)" using self by (simp add: root_free_pgmap)
    then have f: "{p. (p, j) \<in> insert ?b B \<and> pfree (pgmap ?t p)} = {p. (p, j) \<in> B \<and> pfree (pgmap s p)} \<union> (if j = k then {i} else {})"
      unfolding e [symmetric] by auto
    have g: "free_blocks ?t j = (if j = k then free_blocks s j @ [i] else free_blocks s j)"
      by (simp add: root_free_def)
    show "distinct (free_blocks ?t j) \<and> set (free_blocks ?t j) = {p. (p, j) \<in> insert ?b B \<and> pfree (pgmap ?t p)}"
      unfolding f g using L nB by (cases "j = k") simp_all
  qed
  have r: "returned (pgmap ?t p) = returned (pgmap s p)" for p by (simp add: root_free_pgmap)
  have ro: "returned_ok (insert ?b B) ?t"
    unfolding returned_ok_def r
  proof
    fix p
    have "returned (pgmap s p) = (\<exists>j. (p, j) \<in> B \<and> \<not> pfree (pgmap s p))"
      using I(6) unfolding returned_ok_def by simp
    moreover have "(\<exists>j. (p, j) \<in> B \<and> \<not> pfree (pgmap s p)) = (\<exists>j. (p, j) \<in> B \<and> \<not> pfree (pgmap ?t p))"
      using same [OF fc'] by (metis (no_types))
    moreover have "pfree (pgmap ?t i)" using self by (simp add: root_free_pgmap)
    ultimately show "returned (pgmap s p) = (\<exists>j. (p, j) \<in> insert ?b B \<and> \<not> pfree (pgmap ?t p))" by auto
  qed
  have "coalesced (insert ?b B) ?t"
    unfolding coalesced_def
  proof (intro ballI impI)
    fix c assume c: "c \<in> insert ?b B" "pfree (pgmap ?t (fst c)) \<and> snd c < r_ord (pgmap ?t (fst c))"
    have "c \<noteq> ?b" using c(2) self by (auto simp: root_free_pgmap)
    then have cB: "c \<in> B" using c(1) by simp
    note e = same [OF fc [OF cB]]
    have sb: "sibling ?t c = sibling s c" by (simp add: sibling_def root_def e)
    obtain a where a: "blk_at s c a" using tiling_blk [OF I(1) cB] by blast
    have lt: "snd c < r_ord (pgmap s (fst c))" using c(2) e by simp
    have "sibling s c \<in> root_pages s (fst c)"
      using sibling_blk_at(3) [OF I(1) cB a lt] pages_self [of "(sibling s c, snd c)"] by auto
    then have "sibling s c \<in> \<Union> (pages ` B)" using tiling_root(5) [OF I(1) cB] by blast
    moreover from this have "(sibling s c, snd c) \<noteq> ?b" using new self by auto
    ultimately show "\<not> ((sibling ?t c, snd c) \<in> insert ?b B \<and> pfree (pgmap ?t (sibling ?t c)))"
      using I(7) cB c(2) e same unfolding sb coalesced_def by auto
  qed
  then show "binv (insert ?b B) {} ?t"
    using tiling_add_root [OF I(1) new k] u l ro unfolding binv_def by simp
  have "returned (pgmap s p) \<Longrightarrow> pord (pgmap ?t p) = pord (pgmap s p)" for p
    using binv_returned_in [OF inv, of p] same by simp
  then show "allocated ?t = allocated s" unfolding allocated_def r by auto
qed

lemma largest_fitting_ord_log: "0 < n \<Longrightarrow> largest_fitting_ord n (Suc sz) = sz + shift_count n"
proof (induction n arbitrary: sz rule: shift_count.induct)
  case (1 n)
  show ?case
  proof (cases "n div 2 = 0")
    case True
    then have "n = 1" using 1(2) by linarith
    then show ?thesis by (simp add: shift_count.simps largest_fitting_ord.simps)
  next
    case False
    then have "n \<noteq> 1" by auto
    then have "largest_fitting_ord n (Suc sz) = largest_fitting_ord (n div 2) (Suc (Suc sz))"
      using 1(2) by (subst largest_fitting_ord.simps) simp
    then show ?thesis using 1(1) [OF False] False by (simp add: shift_count.simps [of n])
  qed
qed

text \<open>The pages of an address range, and what \<^verbatim>\<open>init_kalloc\<close> needs of the physical memory map.\<close>

definition range_pages :: "nat \<Rightarrow> nat \<Rightarrow> nat set" where
  "range_pages a b = {a div PAGESIZE ..< b div PAGESIZE}"

fun ranges_ok :: "nat \<Rightarrow> (bool \<times> nat \<times> nat) list \<Rightarrow> bool" where
  "ranges_ok lo [] = True"
| "ranges_ok lo ((av, f, l) # rs) = (lo \<le> f \<and> f \<le> l \<and> ranges_ok l rs
     \<and> (av \<longrightarrow> f mod PAGESIZE = 0 \<and> l mod PAGESIZE = 0 \<and> l - f < 2 ^ (MAX_ORDER + 1)))"

fun avail_pages :: "(bool \<times> nat \<times> nat) list \<Rightarrow> nat set" where
  "avail_pages [] = {}"
| "avail_pages ((av, f, l) # rs) = (if av then range_pages f l else {}) \<union> avail_pages rs"

lemma init_range_step:
  assumes c: "ca mod PAGESIZE = 0" "remaining mod PAGESIZE = 0" "remaining \<noteq> 0" "remaining < 2 ^ (MAX_ORDER + 1)"
  defines "k \<equiv> shift_count remaining"
  shows "init_range ca remaining s = init_range (ca + 2 ^ k) (remaining - 2 ^ k) (root_free (ca div PAGESIZE) k s)"
    "MIN_ORDER \<le> k" "k \<le> MAX_ORDER" "2 ^ k \<le> remaining" "2 ^ k = npg k * PAGESIZE"
proof -
  have B: "2 ^ k \<le> remaining" "remaining < 2 ^ (k + 1)"
    using shift_count_bounds [of remaining] c(3) unfolding k_def by auto
  show "2 ^ k \<le> remaining" by (rule B)
  have "(2::nat) ^ k < 2 ^ (MAX_ORDER + 1)" using B(1) c(4) by linarith
  then show hi: "k \<le> MAX_ORDER" by (simp add: power_strict_increasing_iff [of "2::nat"] del: power_Suc)
  have "PAGESIZE \<le> remaining" using c(2,3) by (metis mod_less not_le)
  then have "(2::nat) ^ MIN_ORDER < 2 ^ (k + 1)" using B(2) by (simp add: kconst)
  then show lo: "MIN_ORDER \<le> k" by (simp add: power_strict_increasing_iff [of "2::nat"] del: power_Suc)
  show e: "2 ^ k = npg k * PAGESIZE" by (rule exp_order [OF lo])
  have P: "0 < PAGESIZE" by (simp add: kconst)
  have n: "(ca + 2 ^ k) div PAGESIZE - ca div PAGESIZE = npg k" unfolding e using P by simp
  have a: "ca div PAGESIZE * PAGESIZE = ca" using c(1) by auto
  have f: "largest_fitting_ord remaining 1 = k" using largest_fitting_ord_log [of remaining 0] c(3) by (simp add: k_def)
  show "init_range ca remaining s = init_range (ca + 2 ^ k) (remaining - 2 ^ k) (root_free (ca div PAGESIZE) k s)"
    using c(3) lo hi by (subst init_range.simps) (simp add: Let_def f [unfolded One_nat_def] n a root_free_def)
qed

lemma range_pages_split:
  assumes "a mod PAGESIZE = 0"
  shows "range_pages a (a + m * PAGESIZE) = {a div PAGESIZE ..< a div PAGESIZE + m}"
  using assms by (simp add: range_pages_def kconst add.commute)

lemma init_range_binv:
  assumes "binv B {} s" "ca mod PAGESIZE = 0" "remaining mod PAGESIZE = 0" "remaining < 2 ^ (MAX_ORDER + 1)"
    "range_pages ca (ca + remaining) \<inter> \<Union> (pages ` B) = {}"
  shows "\<exists>B' t. init_range ca remaining s = Some t \<and> binv B' {} t \<and> allocated t = allocated s
     \<and> \<Union> (pages ` B') = \<Union> (pages ` B) \<union> range_pages ca (ca + remaining)
     \<and> (\<forall>p. pfree (pgmap t p) = (pfree (pgmap s p) \<or> p \<in> range_pages ca (ca + remaining)))"
  using assms
proof (induction remaining arbitrary: ca s B rule: less_induct)
  case (less remaining)
  show ?case
  proof (cases "remaining = 0")
    case True
    then show ?thesis using less.prems by (auto simp: init_range.simps range_pages_def)
  next
    case False
    define k where "k = shift_count remaining"
    note S = init_range_step [OF less.prems(2,3) False less.prems(4), folded k_def]
    let ?i = "ca div PAGESIZE" and ?c = "ca + 2 ^ k" and ?r = "remaining - 2 ^ k"
    let ?s = "root_free ?i k s"
    obtain m where m: "remaining = m * PAGESIZE" using less.prems(3) by (metis mod_0_imp_dvd dvdE mult.commute)
    have P: "0 < PAGESIZE" by (simp add: kconst)
    have mk: "npg k \<le> m" using S(4) P unfolding S(5) m by simp
    have r: "?r = (m - npg k) * PAGESIZE" unfolding S(5) m by (simp add: diff_mult_distrib)
    have cm: "?c mod PAGESIZE = 0" using less.prems(2) unfolding S(5) by simp
    have cd: "?c div PAGESIZE = ?i + npg k" using P unfolding S(5) by simp
    have R: "range_pages ca (ca + remaining) = {?i ..< ?i + m}"
      using range_pages_split [OF less.prems(2), of m] unfolding m .
    have R': "range_pages ?c (?c + ?r) = {?i + npg k ..< ?i + m}"
      using range_pages_split [OF cm, of "m - npg k"] mk unfolding r cd by simp
    have pg: "pages (?i, k) = {?i ..< ?i + npg k}" by (simp add: pages_def)
    have U: "pages (?i, k) \<union> range_pages ?c (?c + ?r) = range_pages ca (ca + remaining)"
      unfolding R R' pg using mk by auto
    have new: "pages (?i, k) \<inter> \<Union> (pages ` B) = {}" using less.prems(5) U by blast
    note A = binv_add_root [OF less.prems(1) new S(2,3)]
    have lt: "?r < remaining" using S(4) False by simp
    have d: "range_pages ?c (?c + ?r) \<inter> pages (?i, k) = {}" unfolding R' pg by auto
    have "range_pages ?c (?c + ?r) \<inter> \<Union> (pages ` B) = {}" using less.prems(5) U by blast
    then have dj: "range_pages ?c (?c + ?r) \<inter> \<Union> (pages ` insert (?i, k) B) = {}" using d by blast
    have rm: "?r mod PAGESIZE = 0" unfolding r by simp
    have rl: "?r < 2 ^ (MAX_ORDER + 1)" using lt less.prems(4) by linarith
    from less.IH [OF lt A(1) cm rm rl dj] obtain B' t where
      t: "init_range ?c ?r ?s = Some t" "binv B' {} t" "allocated t = allocated ?s"
        "\<Union> (pages ` B') = \<Union> (pages ` insert (?i, k) B) \<union> range_pages ?c (?c + ?r)"
        "\<forall>p. pfree (pgmap t p) = (pfree (pgmap ?s p) \<or> p \<in> range_pages ?c (?c + ?r))"
      by (elim exE conjE) (rule that)
    have "\<Union> (pages ` B') = \<Union> (pages ` B) \<union> range_pages ca (ca + remaining)" using t(4) U by blast
    moreover have "pfree (pgmap t p) = (pfree (pgmap s p) \<or> p \<in> range_pages ca (ca + remaining))" for p
    proof -
      have "pfree (pgmap ?s p) = (pfree (pgmap s p) \<or> p \<in> pages (?i, k))" by (simp add: root_free_pgmap)
      then show ?thesis using t(5) unfolding U [symmetric] by blast
    qed
    moreover have "init_range ca remaining s = Some t" using S(1) t(1) by simp
    ultimately show ?thesis using t(2,3) A(2) by auto
  qed
qed

lemma init_kalloc_binv:
  assumes "binv B {} s" "ranges_ok lo rs" "\<Union> (pages ` B) \<subseteq> {..< lo div PAGESIZE}"
  shows "\<exists>B' t. init_kalloc rs s = Some t \<and> binv B' {} t \<and> allocated t = allocated s
     \<and> \<Union> (pages ` B') = \<Union> (pages ` B) \<union> avail_pages rs
     \<and> (\<forall>p. pfree (pgmap t p) = (pfree (pgmap s p) \<or> p \<in> avail_pages rs))"
  using assms
proof (induction rs arbitrary: lo s B)
  case Nil
  then show ?case by auto
next
  case (Cons a rs)
  obtain av f l where a: "a = (av, f, l)" by (cases a)
  have o: "lo \<le> f" "f \<le> l" "ranges_ok l rs" using Cons.prems(2) a by simp_all
  have le: "lo div PAGESIZE \<le> f div PAGESIZE" "f div PAGESIZE \<le> l div PAGESIZE"
    using o by (simp_all add: div_le_mono)
  show ?case
  proof (cases av)
    case False
    have "{..< lo div PAGESIZE} \<subseteq> {..< l div PAGESIZE}"
      using order_trans [OF le] by (simp only: lessThan_subset_iff)
    then have "\<Union> (pages ` B) \<subseteq> {..< l div PAGESIZE}" using Cons.prems(3) by (rule subset_trans [rotated])
    from Cons.IH [OF Cons.prems(1) o(3) this] show ?thesis using a False by simp
  next
    case True
    then have v: "f mod PAGESIZE = 0" "l mod PAGESIZE = 0" "l - f < 2 ^ (MAX_ORDER + 1)"
      using Cons.prems(2) a by simp_all
    have fl: "f + (l - f) = l" "(l - f) mod PAGESIZE = 0"
      using o v by (simp_all add: mod_eq_dvd_iff_nat dvd_diff_nat mod_0_imp_dvd)
    have "x \<notin> {..< lo div PAGESIZE}" if "x \<in> range_pages f l" for x
      using that le(1) unfolding range_pages_def atLeastLessThan_iff lessThan_iff by linarith
    then have "range_pages f l \<inter> {..< lo div PAGESIZE} = {}" by blast
    then have "range_pages f l \<inter> \<Union> (pages ` B) = {}" using Cons.prems(3) by blast
    from init_range_binv [OF Cons.prems(1) v(1) fl(2) v(3), unfolded fl(1), OF this]
    obtain B1 s1 where 1: "init_range f (l - f) s = Some s1" "binv B1 {} s1" "allocated s1 = allocated s"
      "\<Union> (pages ` B1) = \<Union> (pages ` B) \<union> range_pages f l"
      "\<forall>p. pfree (pgmap s1 p) = (pfree (pgmap s p) \<or> p \<in> range_pages f l)"
      by (elim exE conjE) (rule that)
    have "\<Union> (pages ` B1) \<subseteq> {..< l div PAGESIZE}"
    proof -
      have "{..< lo div PAGESIZE} \<subseteq> {..< l div PAGESIZE}"
        using order_trans [OF le] by (simp only: lessThan_subset_iff)
      moreover have "range_pages f l \<subseteq> {..< l div PAGESIZE}" by (simp add: range_pages_def subset_eq)
      ultimately show ?thesis unfolding 1(4) using Cons.prems(3) by (meson Un_least subset_trans)
    qed
    from Cons.IH [OF 1(2) o(3) this] obtain B' t where
      t: "init_kalloc rs s1 = Some t" "binv B' {} t" "allocated t = allocated s1"
        "\<Union> (pages ` B') = \<Union> (pages ` B1) \<union> avail_pages rs"
        "\<forall>p. pfree (pgmap t p) = (pfree (pgmap s1 p) \<or> p \<in> avail_pages rs)"
      by (elim exE conjE) (rule that)
    have "init_kalloc (a # rs) s = Some t" using a True 1(1) t(1) by simp
    moreover have "pfree (pgmap t p) = (pfree (pgmap s p) \<or> p \<in> avail_pages (a # rs))" for p
      using t(5) 1(5) a True by simp
    moreover have "\<Union> (pages ` B') = \<Union> (pages ` B) \<union> avail_pages (a # rs)" using t(4) 1(4) a True by auto
    ultimately show ?thesis using t(2,3) 1(3) by metis
  qed
qed

text \<open>The state the kernel boots with: \<^verbatim>\<open>pgmap\<close> is in the zeroed data segment.\<close>

definition boot :: buddy where
  "boot = \<lparr>pgmap = (\<lambda>_. \<lparr>pfree = False, returned = False, pord = 0, r_ord = 0, r_addr = 0\<rparr>),
     free_blocks = (\<lambda>_. [])\<rparr>"

lemma boot_binv: "binv {} {} boot" "allocated boot = {}"
  by (simp_all add: binv_def tiling_def lists_ok_def returned_ok_def coalesced_def boot_def allocated_def)

lemma init_kalloc_boot:
  assumes "ranges_ok 0 rs"
  shows "\<exists>t. init_kalloc rs boot = Some t \<and> buddy_inv t \<and> allocated t = {} \<and> free_pages t = avail_pages rs
     \<and> (\<forall>p. pfree (pgmap t p) \<longleftrightarrow> p \<in> avail_pages rs)"
proof -
  have "\<Union> (pages ` {}) \<subseteq> {..< 0 div PAGESIZE}" by simp
  from init_kalloc_binv [OF boot_binv(1) assms this] obtain B' t where
    t: "init_kalloc rs boot = Some t" "binv B' {} t" "allocated t = allocated boot" "\<Union> (pages ` B') = \<Union> (pages ` {}) \<union> avail_pages rs"
    "\<forall>p. pfree (pgmap t p) = (pfree (pgmap boot p) \<or> p \<in> avail_pages rs)"
    by (elim exE conjE) (rule that)
  then have "free_pages t = avail_pages rs" using free_pages_rest [OF t(2)] boot_binv(2) by simp
  then show ?thesis using t boot_binv(2) \<open>\<forall>p. _\<close> unfolding buddy_inv_def by (auto simp: boot_def)
qed

text \<open>
  C9. \<^verbatim>\<open>init_kalloc\<close> on a page-aligned memory map (ranges in address order, each available one below
  \<open>2 ^ (MAX_ORDER + 1)\<close> bytes): its loops end and none of its assertions fails, the allocator is
  well formed, no block is allocated, and the pages on the free lists, as well as the pages marked free, are exactly
  those of the available ranges.
\<close>

theorem init_kalloc_correct:
  assumes "ranges_ok 0 rs"
  shows "\<exists>t. init_kalloc rs boot = Some t \<and> buddy_inv t \<and> allocated t = {} \<and> free_pages t = avail_pages rs
     \<and> (\<forall>p. pfree (pgmap t p) \<longleftrightarrow> p \<in> avail_pages rs)"
  by (rule init_kalloc_boot [OF assms])

text \<open>A memory map with a reserved page and two available ranges.\<close>

abbreviation sample_ranges :: "(bool \<times> nat \<times> nat) list" where
  "sample_ranges \<equiv> [(False, 0, 4096), (True, 4096, 16384), (False, 16384, 20480), (True, 20480, 53248)]"

lemma sample_ranges_ok: "ranges_ok 0 sample_ranges"
  by (simp add: kconst)

theorem init_kalloc_correct_witness:
  "ranges_ok 0 sample_ranges \<and> (\<exists>t. init_kalloc sample_ranges boot = Some t \<and> buddy_inv t \<and> allocated t = {} \<and> free_pages t = {1, 2, 3} \<union> {5..12}
     \<and> (\<forall>p. pfree (pgmap t p) \<longleftrightarrow> p \<in> avail_pages sample_ranges))"
proof -
  have "avail_pages sample_ranges = {1, 2, 3} \<union> {5..12}" by (auto simp: range_pages_def kconst)
  then show ?thesis using init_kalloc_correct [OF sample_ranges_ok] sample_ranges_ok by metis
qed

lemma sibling_pair_in_cell:
  assumes "x * (2 * e) \<le> (if odd a then a - 1 else a + 1)" "(if odd a then a - 1 else a + 1) < (x + 1) * (2 * e)"
  shows "x * (2 * e) \<le> (a::nat) \<and> a < (x + 1) * (2 * e)"
proof -
  obtain q where q: "a = 2 * q \<or> a = 2 * q + 1" by (metis evenE oddE)
  have e: "x * (2 * e) = 2 * (x * e)" "(x + 1) * (2 * e) = 2 * ((x + 1) * e)" by simp_all
  have "x * e \<le> q \<and> q < (x + 1) * e"
    using assms q unfolding e by (cases "odd a") auto
  then have "x * e \<le> q" "q + 1 \<le> (x + 1) * e" by auto
  then show ?thesis using q unfolding e by linarith
qed

lemma bigger_cell_contains:
  assumes t: "tiling B s" and b: "b \<in> B" and a: "blk_at s b a" and lt: "snd b < r_ord (pgmap s (fst b))"
    and c: "c \<in> B" "sibling s b \<in> pages c" and big: "snd b < snd c"
  shows "fst b \<in> pages c"
proof -
  let ?R = "root s (fst b)" and ?n = "npg (snd b)" and ?e = "2 ^ (snd c - snd b - 1) :: nat"
  note sib = sibling_blk_at [OF t b a lt]
  have jr: "sibling s b \<in> root_pages s (fst b)"
    using sib(3) pages_self [of "(sibling s b, snd b)"] by auto
  obtain x where x: "blk_at s c x" using tiling_blk [OF t c(1)] by blast
  have fc: "fst c = ?R + x * npg (snd c)"
    using x tiling_cover_root(1) [OF t b jr c] unfolding blk_at_def by simp
  have m: "MIN_ORDER \<le> snd b" and fb: "fst b = ?R + a * ?n" using a unfolding blk_at_def by blast+
  have "snd c - snd b = Suc (snd c - snd b - 1)" using big by simp
  then have "(2::nat) ^ (snd c - snd b) = 2 * ?e" by (metis power_Suc)
  then have nc: "npg (snd c) = 2 * ?e * ?n" using npg_split [of "snd b" "snd c"] m big by simp
  have sb: "sibling s b = ?R + (if odd a then a - 1 else a + 1) * ?n" by (rule blk_at_sibling [OF a])
  let ?a' = "if odd a then a - 1 else a + 1"
  have "?R + x * (2 * ?e) * ?n \<le> ?R + ?a' * ?n" "?R + ?a' * ?n < ?R + x * (2 * ?e) * ?n + 2 * ?e * ?n"
    using c(2) unfolding pages_def fc sb nc by (simp_all only: atLeastLessThan_iff mult.assoc)
  then have "x * (2 * ?e) * ?n \<le> ?a' * ?n" "?a' * ?n < (x + 1) * (2 * ?e) * ?n"
    unfolding add_mult_distrib by linarith+
  then have "x * (2 * ?e) \<le> ?a'" "?a' < (x + 1) * (2 * ?e)" by (simp_all only: mult_le_cancel2 mult_less_cancel2)
  from sibling_pair_in_cell [OF this]
  have "x * (2 * ?e) * ?n \<le> a * ?n" "a * ?n < (x + 1) * (2 * ?e) * ?n" by simp_all
  then have "fst c \<le> fst b" "fst b < fst c + npg (snd c)"
    using fb fc unfolding nc add_mult_distrib mult.assoc by linarith+
  then show ?thesis by (simp add: pages_def)
qed

lemma no_split_left:
  assumes inv: "binv B {} s" and fr: "\<forall>b \<in> B. pfree (pgmap s (fst b))" and b: "b \<in> B"
  shows "\<not> snd b < r_ord (pgmap s (fst b))"
proof
  assume "snd b < r_ord (pgmap s (fst b))"
  then have ex: "\<exists>k b. b \<in> B \<and> snd b = k \<and> snd b < r_ord (pgmap s (fst b))" using b by blast
  define k where "k = (LEAST k. \<exists>b. b \<in> B \<and> snd b = k \<and> snd b < r_ord (pgmap s (fst b)))"
  obtain d where d: "d \<in> B" "snd d = k" "snd d < r_ord (pgmap s (fst d))"
    using LeastI_ex [OF ex] unfolding k_def by blast
  have least: "k \<le> snd c" if "c \<in> B" "snd c < r_ord (pgmap s (fst c))" for c
    unfolding k_def using that by (intro Least_le) blast
  note I = binvD [OF inv]
  obtain a where a: "blk_at s d a" using tiling_blk [OF I(1) d(1)] by blast
  note sib = sibling_blk_at [OF I(1) d(1) a d(3)]
  have jr: "sibling s d \<in> root_pages s (fst d)" using sib(3) pages_self [of "(sibling s d, snd d)"] by auto
  obtain c where c: "c \<in> B" "sibling s d \<in> pages c" using tiling_root(5) [OF I(1) d(1) jr] by blast
  obtain ac where "blk_at s c ac" using tiling_blk [OF I(1) c(1)] by blast
  then have "snd c \<le> r_ord (pgmap s (fst c))" by (simp add: blk_at_def)
  moreover have "r_ord (pgmap s (fst c)) = r_ord (pgmap s (fst d))"
    using tiling_cover_root(2) [OF I(1) d(1) jr c] .
  ultimately have ge: "snd d \<le> snd c" using least [OF c(1)] d(2,3) by linarith
  have "snd c = snd d"
  proof (rule ccontr)
    assume "snd c \<noteq> snd d"
    then have "fst d \<in> pages c" using bigger_cell_contains [OF I(1) d(1) a d(3) c] ge by simp
    then have "c = d" using tiling_unique [OF I(1) c(1) d(1)] pages_self by blast
    then show False using \<open>snd c \<noteq> snd d\<close> by simp
  qed
  moreover have "uniform s c" using I(3) c(1) by simp
  ultimately have "pord (pgmap s (sibling s d)) = snd d" using c(2) unfolding uniform_def by simp
  then have "(sibling s d, snd d) \<in> B"
    using sibling_in_tiling [OF I(1) d(1) d(3)] I(3) by simp
  moreover from this have "pfree (pgmap s (sibling s d))" using fr by force
  ultimately show False using I(7) d fr unfolding coalesced_def by auto
qed

lemma all_free_roots:
  assumes "buddy_inv s" "allocated s = {}" "i \<in> set (free_blocks s k)"
  shows "k = r_ord (pgmap s i) \<and> i * PAGESIZE = r_addr (pgmap s i)"
proof -
  obtain B where B: "binv B {} s" using assms(1) unfolding buddy_inv_def by blast
  have fr: "\<forall>b \<in> B. pfree (pgmap s (fst b))" using allocated_blocks [OF B] assms(2) by blast
  have ib: "(i, k) \<in> B" using binvD(5) [OF B] assms(3) unfolding lists_ok_def by auto
  obtain a where a: "blk_at s (i, k) a" using tiling_blk [OF binvD(1) [OF B] ib] by blast
  then have k: "k = r_ord (pgmap s i)" using no_split_left [OF B fr ib] unfolding blk_at_def by simp
  then have "a = 0" "r_addr (pgmap s i) mod PAGESIZE = 0" "i = root s i" using a unfolding blk_at_def by auto
  then show ?thesis using k unfolding root_def by auto
qed


text \<open>So the free lists are determined by the pages on them and the roots.\<close>

lemma all_free_lists:
  assumes inv: "buddy_inv s" and al: "allocated s = {}"
  shows "set (free_blocks s k) = {i \<in> free_pages s. k = r_ord (pgmap s i) \<and> i * PAGESIZE = r_addr (pgmap s i)}"
proof (intro set_eqI iffI)
  fix i assume i: "i \<in> set (free_blocks s k)"
  then have "i \<in> free_pages s" using pages_self [of "(i, k)"] unfolding free_pages_def by auto
  then show "i \<in> {i \<in> free_pages s. k = r_ord (pgmap s i) \<and> i * PAGESIZE = r_addr (pgmap s i)}"
    using all_free_roots [OF inv al i] by simp
next
  fix i assume "i \<in> {i \<in> free_pages s. k = r_ord (pgmap s i) \<and> i * PAGESIZE = r_addr (pgmap s i)}"
  then obtain j l where j: "j \<in> set (free_blocks s l)" "i \<in> pages (j, l)" "k = r_ord (pgmap s i)" "i * PAGESIZE = r_addr (pgmap s i)"
    unfolding free_pages_def by blast
  obtain B where B: "binv B {} s" using inv unfolding buddy_inv_def by blast
  have jl: "(j, l) \<in> B" using binvD(5) [OF B] j(1) unfolding lists_ok_def by auto
  obtain a where "blk_at s (j, l) a" using tiling_blk [OF binvD(1) [OF B] jl] by blast
  then have "i \<in> root_pages s j" using blk_pages_in_root j(2) by fastforce
  then have "r_addr (pgmap s i) = r_addr (pgmap s j)" "r_ord (pgmap s i) = r_ord (pgmap s j)"
    using tiling_root(2,3) [OF binvD(1) [OF B] jl] by simp_all
  moreover note all_free_roots [OF inv al j(1)]
  ultimately have "i * PAGESIZE = j * PAGESIZE" "k = l" using j(3,4) by simp_all
  then show "i \<in> set (free_blocks s k)" using j(1) by (simp add: kconst)
qed

subsection \<open>Histories\<close>

text \<open>A sequence of allocations and releases of blocks.\<close>

datatype block_op = BAlloc u64 | BFree nat

fun block_exec :: "block_op \<Rightarrow> buddy \<Rightarrow> buddy option" where
  "block_exec (BAlloc sz) s = Some (snd (buddy_alloc sz s))"
| "block_exec (BFree addr) s = buddy_free addr s"

fun block_run :: "block_op list \<Rightarrow> buddy \<Rightarrow> buddy option" where
  "block_run [] s = Some s"
| "block_run (op # ops) s = (case block_exec op s of None \<Rightarrow> None | Some t \<Rightarrow> block_run ops t)"

abbreviation held_pages :: "buddy \<Rightarrow> nat set" where
  "held_pages s \<equiv> \<Union> (pages ` allocated s)"

lemma buddy_free_Some:
  assumes "buddy_free addr s = Some t"
  shows "\<exists>i o0. addr = i * PAGESIZE \<and> (i, o0) \<in> allocated s"
proof -
  have "addr mod PAGESIZE = 0 \<and> returned (pgmap s (addr div PAGESIZE))"
    using assms unfolding buddy_free_def by (auto simp: Let_def split: if_splits)
  moreover from this have "addr = addr div PAGESIZE * PAGESIZE" by auto
  ultimately show ?thesis unfolding allocated_def by blast
qed

lemma allocated_disjoint: "buddy_inv s \<Longrightarrow> b \<in> allocated s \<Longrightarrow> c \<in> allocated s \<Longrightarrow> b \<noteq> c \<Longrightarrow> pages b \<inter> pages c = {}"
  unfolding buddy_inv_def using allocated_blocks tiling_disjoint [OF binvD(1)] by blast

lemma block_exec_conserves:
  assumes "buddy_inv s" "free_pages s = A - held_pages s" "held_pages s \<subseteq> A" "block_exec op s = Some t"
  shows "buddy_inv t \<and> same_roots s t \<and> free_pages t = A - held_pages t \<and> held_pages t \<subseteq> A"
proof (cases op)
  case (BAlloc sz)
  then have t: "t = snd (buddy_alloc sz s)" using assms(4) by simp
  from buddy_alloc_cases [OF assms(1), of sz] show ?thesis
  proof (elim disjE exE conjE)
    fix i B t' assume a: "buddy_alloc sz s = (Some (i * PAGESIZE), t')" "binv B {} t'"
      "allocated t' = insert (i, max (order sz False) MIN_ORDER) (allocated s)" "same_roots s t'"
      "pages (i, max (order sz False) MIN_ORDER) \<subseteq> free_pages s" "free_pages t' = free_pages s - pages (i, max (order sz False) MIN_ORDER)"
    have "held_pages t' = pages (i, max (order sz False) MIN_ORDER) \<union> held_pages s" unfolding a(3) by blast
    moreover have e: "t = t'" and "buddy_inv t'" using t a(1,2) unfolding buddy_inv_def by auto
    moreover have "pages (i, max (order sz False) MIN_ORDER) \<subseteq> A" using a(5) assms(2) by blast
    ultimately show ?thesis using a(4) a(6) assms(2,3) unfolding e by (simp add: Un_commute set_diff_eq)
  next
    assume "snd (buddy_alloc sz s) = s" then show ?thesis using t assms by (simp add: same_roots_def)
  qed
next
  case (BFree addr)
  then obtain i o0 where a: "addr = i * PAGESIZE" "(i, o0) \<in> allocated s" using buddy_free_Some assms(4) by fastforce
  then have t: "buddy_inv t" "allocated t = allocated s - {(i, o0)}" "same_roots s t" "free_pages t = free_pages s \<union> pages (i, o0)"
    using buddy_free_allocated [OF assms(1) a(2)] assms(4) BFree by auto
  have "pages (i, o0) \<inter> pages c = {}" if "c \<in> allocated s - {(i, o0)}" for c
    using allocated_disjoint [OF assms(1) a(2), of c] that by blast
  then have dj: "pages (i, o0) \<inter> held_pages t = {}" unfolding t(2) by blast
  have "allocated s = insert (i, o0) (allocated t)" using a(2) unfolding t(2) by blast
  then have hs: "held_pages s = pages (i, o0) \<union> held_pages t" by simp
  have "free_pages t = A - held_pages t" using t(4) dj assms(3) unfolding assms(2) hs by blast
  moreover have "held_pages t \<subseteq> A" using assms(3) hs by simp
  ultimately show ?thesis using t(1,3) by simp
qed

lemma block_run_conserves:
  "block_run ops s = Some t \<Longrightarrow> buddy_inv s \<Longrightarrow> free_pages s = A - held_pages s \<Longrightarrow> held_pages s \<subseteq> A \<Longrightarrow>
   buddy_inv t \<and> same_roots s t \<and> free_pages t = A - held_pages t \<and> held_pages t \<subseteq> A"
proof (induction ops arbitrary: s)
  case Nil then show ?case by (simp add: same_roots_def)
next
  case (Cons op ops)
  then obtain u where u: "block_exec op s = Some u" "block_run ops u = Some t" by (auto split: option.splits)
  from block_exec_conserves [OF Cons.prems(2-4) u(1)] have c: "buddy_inv u" "same_roots s u" "free_pages u = A - held_pages u" "held_pages u \<subseteq> A"
    by simp_all
  from Cons.IH [OF u(2) c(1,3,4)] show ?case using same_roots_trans [OF c(2)] by simp
qed

text \<open>
  C10. No memory is lost and no fragmentation is left behind. After \<^verbatim>\<open>init_kalloc\<close> and any sequence of allocations and
  releases that no assertion stopped, every available page is either in an allocated block or on a free list, and
  when no block is allocated any more the free lists hold again exactly the blocks \<^verbatim>\<open>init_kalloc\<close> put there.
\<close>

theorem buddy_fully_coalesced:
  assumes "ranges_ok 0 rs" "init_kalloc rs boot = Some s" "block_run ops s = Some t"
  shows "buddy_inv t \<and> held_pages t \<subseteq> avail_pages rs \<and> free_pages t = avail_pages rs - held_pages t
     \<and> (allocated t = {} \<longrightarrow> (\<forall>k. set (free_blocks t k) = set (free_blocks s k)))"
proof -
  have s: "buddy_inv s" "allocated s = {}" "free_pages s = avail_pages rs" using init_kalloc_boot [OF assms(1)] assms(2) by auto
  then have t: "buddy_inv t" "same_roots s t" "free_pages t = avail_pages rs - held_pages t" "held_pages t \<subseteq> avail_pages rs"
    using block_run_conserves [OF assms(3), of "avail_pages rs"] by simp_all
  moreover have "set (free_blocks t k) = set (free_blocks s k)" if "allocated t = {}" for k
    unfolding all_free_lists [OF t(1) that] all_free_lists [OF s(1,2)] using t(2,3) that s(3) by (auto simp: same_roots_def)
  ultimately show ?thesis by blast
qed

subsection \<open>A sample run\<close>

definition sample :: buddy where
  "sample = root_free 5 15 (root_free 3 12 (root_free 1 13 boot))"

lemma sample_init: "init_kalloc sample_ranges boot = Some sample"
proof -
  have l: "shift_count 12288 = 13" "shift_count 4096 = 12" "shift_count 32768 = 15"
    by (simp_all add: shift_count.simps)
  have z: "init_range c 0 s = Some s" for c s by (simp add: init_range.simps)
  have "init_range 4096 12288 s = Some (root_free 3 12 (root_free 1 13 s))" for s
    using init_range_step(1) [of 4096 12288 s] init_range_step(1) [of 12288 4096 "root_free 1 13 s"]
    by (simp add: l z kconst)
  moreover have "init_range 20480 32768 s = Some (root_free 5 15 s)" for s
    using init_range_step(1) [of 20480 32768 s] by (simp add: l z kconst)
  ultimately show ?thesis by (simp add: sample_def)
qed

lemma sample_ok: "buddy_inv sample" "allocated sample = {}"
  using init_kalloc_boot [OF sample_ranges_ok] sample_init by auto

lemma sample_alloc_addr: "order 5000 False = 13" "fst (buddy_alloc 5000 sample) = Some 4096"
proof -
  show o: "order 5000 False = 13" by (simp add: order_unat shift_count.simps)
  have fb: "free_blocks sample 13 = [1]" by (simp add: sample_def root_free_def boot_def)
  have "take_block 13 sample = Some (1, set_list 13 [] sample)" by (simp add: take_block_def fb)
  then show "fst (buddy_alloc 5000 sample) = Some 4096" by (simp add: buddy_alloc_def o kconst)
qed

theorem buddy_alloc_correct_witness:
  "buddy_inv sample \<and> fst (buddy_alloc 5000 sample) = Some 4096 \<and>
   (\<exists>t. buddy_alloc 5000 sample = (Some 4096, t) \<and> allocated t = {(1, 13)} \<and> buddy_inv t)"
proof -
  define t where "t = snd (buddy_alloc 5000 sample)"
  have e: "buddy_alloc 5000 sample = (Some 4096, t)"
    unfolding t_def using sample_alloc_addr(2) by (metis prod.collapse)
  have "\<exists>o0. MIN_ORDER \<le> o0 \<and> o0 \<le> MAX_ORDER \<and> 5000 \<le> (2::nat) ^ o0 \<and> (\<forall>k. MIN_ORDER \<le> k \<and> 5000 \<le> (2::nat) ^ k \<longrightarrow> o0 \<le> k)
     \<and> allocated t = {(1, o0)} \<and> buddy_inv t"
    using buddy_alloc_correct [OF sample_ok(1), of 5000] unfolding e prod.case option.case sample_ok(2)
    by (auto simp: kconst)
  then obtain o0 where o0: "MIN_ORDER \<le> o0" "5000 \<le> (2::nat) ^ o0" "\<forall>k. MIN_ORDER \<le> k \<and> 5000 \<le> (2::nat) ^ k \<longrightarrow> o0 \<le> k"
    "allocated t = {(1, o0)}" "buddy_inv t" by blast
  have "o0 \<le> 13" using o0(3) [rule_format, of 13] by (simp add: kconst)
  moreover have "o0 \<noteq> 12" using o0(2) by auto
  ultimately have "o0 = 13" using o0(1) by (simp add: kconst)
  then show ?thesis using e o0 sample_ok by auto
qed

lemma sample_alloc: "\<exists>t. buddy_alloc 5000 sample = (Some 4096, t) \<and> buddy_inv t \<and> allocated t = {(1, 13)}"
proof -
  note o = sample_alloc_addr(1) and e = sample_alloc_addr(2)
  have "max (13::nat) MIN_ORDER = 13" by (simp add: kconst)
  then obtain i B t where "buddy_alloc 5000 sample = (Some (i * PAGESIZE), t)" "binv B {} t" "allocated t = insert (i, 13) {}"
    using buddy_alloc_cases [OF sample_ok(1), of 5000] e unfolding o sample_ok(2) by auto
  moreover from this have "i = 1" using e by (simp add: kconst)
  ultimately show ?thesis unfolding buddy_inv_def by (auto simp: kconst)
qed

theorem buddy_free_correct_witness:
  "buddy_inv sample \<and> buddy_free 4096 sample = None
   \<and> (\<exists>t u. buddy_alloc 5000 sample = (Some 4096, t) \<and> buddy_inv t \<and> buddy_free 4096 t = Some u \<and> allocated u = {})"
proof -
  obtain t where t: "buddy_alloc 5000 sample = (Some 4096, t)" "buddy_inv t" "allocated t = {(1, 13)}"
    using sample_alloc by blast
  have "buddy_free 4096 sample = None" using buddy_free_correct [OF sample_ok(1), of 4096] sample_ok(2) by simp
  moreover have "\<exists>u. buddy_free 4096 t = Some u \<and> allocated u = {}"
    using buddy_free_correct [OF t(2), of 4096] t(3) by (auto simp: kconst)
  ultimately show ?thesis using t sample_ok by blast
qed

theorem buddy_fully_coalesced_witness:
  "\<exists>t. block_run [BAlloc 5000, BFree 4096] sample = Some t \<and> free_pages t = avail_pages sample_ranges \<and> set (free_blocks t 13) = {1}"
proof -
  obtain t where t: "buddy_alloc 5000 sample = (Some 4096, t)" "buddy_inv t" "allocated t = {(1, 13)}"
    using sample_alloc by blast
  obtain u where u: "buddy_free (1 * PAGESIZE) t = Some u" "allocated u = {}" using buddy_free_allocated [OF t(2), of 1 13] t(3) by auto
  then have r: "block_run [BAlloc 5000, BFree 4096] sample = Some u" using t(1) by (simp add: kconst)
  have "set (free_blocks sample 13) = {1}" by (simp add: sample_def root_free_def boot_def)
  then show ?thesis using buddy_fully_coalesced [OF sample_ranges_ok sample_init r] r u(2) by simp
qed

end
