(* ===== verification/Slab.thy ===== *)
theory Slab
  imports Prelude
begin

unbundle bit_operations_syntax

text \<open>
  The slabs of \<^verbatim>\<open>k-memrange.hh\<close>: arrays of fixed-size chunks with a header each. \<^verbatim>\<open>smallslab\<close> and
  \<^verbatim>\<open>bigslab\<close> are two copies of the same code with other constants, so both are instances of
  one definition. A chunk pointer is the chunk's index in its slab. The interface \<open>chunk_pool\<close>
  says what \<^verbatim>\<open>kalloc\<close> needs from a slab; both slabs satisfy it.
\<close>

definition SLAB_FREE :: nat where [kconst]: "SLAB_FREE = 0"
definition SLAB_PARTIAL :: nat where [kconst]: "SLAB_PARTIAL = 1"
definition SLAB_FULL :: nat where [kconst]: "SLAB_FULL = 2"
definition SMALL_CHUNKSIZE :: u16 where [kconst]: "SMALL_CHUNKSIZE = 128"
definition BIG_CHUNKSIZE :: u16 where [kconst]: "BIG_CHUNKSIZE = 512"
definition NUM_SMALL_SLABS :: nat where [kconst]: "NUM_SMALL_SLABS = 4096 div 128 - 1"
definition NUM_BIG_SLABS :: nat where [kconst]: "NUM_BIG_SLABS = 2 * 4096 div 512 - 1"
definition SLAB_CANARY :: u32 where [kconst]: "SLAB_CANARY = 984257"

text \<open>The header of \<^verbatim>\<open>small_chunk\<close> and \<^verbatim>\<open>big_chunk\<close>; the data bytes belong to the caller.\<close>

record chunk =
  ch_sz :: u16
  ch_ind :: u16
  ch_canary :: u32

record slab =
  nallocs :: int
  state :: nat
  s_ind :: int
  chunks :: "chunk list"
  free_chunks :: "bool list"

definition slab_new :: "nat \<Rightarrow> u16 \<Rightarrow> nat \<Rightarrow> slab" where
  "slab_new n csz index = \<lparr>nallocs = 0, state = SLAB_FREE, s_ind = int index,
     chunks = replicate n \<lparr>ch_sz = csz, ch_ind = of_nat index, ch_canary = SLAB_CANARY\<rparr>,
     free_chunks = replicate n True\<rparr>"

text \<open>The bookkeeping of \<^verbatim>\<open>give\<close> for the chunk it found.\<close>

definition slab_take :: "nat \<Rightarrow> slab \<Rightarrow> nat \<Rightarrow> slab" where
  "slab_take n s free_ind =
     (let na = nallocs s + 1
      in s\<lparr>free_chunks := (free_chunks s)[free_ind := False], nallocs := na,
           state := (if na = int n then SLAB_FULL else if na > 0 then SLAB_PARTIAL else state s)\<rparr>)"

text \<open>The search loop of \<^verbatim>\<open>give\<close>; running off the end is \<^verbatim>\<open>assert(false)\<close>.\<close>

function give_scan :: "nat \<Rightarrow> slab \<Rightarrow> nat \<Rightarrow> (nat \<times> slab) option" where
  "give_scan n s free_ind =
     (if free_ind < n then
        (if free_chunks s ! free_ind then
           check (ch_canary (chunks s ! free_ind) = SLAB_CANARY) (Some (free_ind, slab_take n s free_ind))
         else give_scan n s (free_ind + 1))
      else None)"
  by pat_completeness auto
termination
  by (relation "measure (\<lambda>(n, s, i). n - i)") auto

declare give_scan.simps [simp del]

definition slab_give :: "nat \<Rightarrow> slab \<Rightarrow> (nat \<times> slab) option" where
  "slab_give n s = check (state s \<noteq> SLAB_FULL) (give_scan n s 0)"

text \<open>A pointer outside the chunk array is an error of the caller the code does not define.\<close>

definition slab_receive :: "nat \<Rightarrow> u16 \<Rightarrow> slab \<Rightarrow> nat \<Rightarrow> slab option" where
  "slab_receive n csz s j =
     (if j < n then
        (let sc = chunks s ! j in
         check (int (unat (ch_ind sc)) = s_ind s)
          (check (ch_sz sc = csz)
           (check (ch_canary sc = SLAB_CANARY)
            (check (\<not> free_chunks s ! j)
              (let na = nallocs s - 1
               in Some (s\<lparr>free_chunks := (free_chunks s)[j := True], nallocs := na,
                         state := (if na > 0 then SLAB_PARTIAL else SLAB_FREE)\<rparr>))))))
      else None)"

definition smallslab_new :: "nat \<Rightarrow> slab" where
  "smallslab_new = slab_new NUM_SMALL_SLABS SMALL_CHUNKSIZE"

definition smallslab_give :: "slab \<Rightarrow> (nat \<times> slab) option" where
  "smallslab_give = slab_give NUM_SMALL_SLABS"

definition smallslab_receive :: "slab \<Rightarrow> nat \<Rightarrow> slab option" where
  "smallslab_receive = slab_receive NUM_SMALL_SLABS SMALL_CHUNKSIZE"

definition bigslab_new :: "nat \<Rightarrow> slab" where
  "bigslab_new = slab_new NUM_BIG_SLABS BIG_CHUNKSIZE"

definition bigslab_give :: "slab \<Rightarrow> (nat \<times> slab) option" where
  "bigslab_give = slab_give NUM_BIG_SLABS"

definition bigslab_receive :: "slab \<Rightarrow> nat \<Rightarrow> slab option" where
  "bigslab_receive = slab_receive NUM_BIG_SLABS BIG_CHUNKSIZE"

subsection \<open>The invariant\<close>

text \<open>The chunks that callers hold, and a well-formed slab.\<close>

definition slab_used :: "slab \<Rightarrow> nat set" where
  "slab_used s = {j. j < length (free_chunks s) \<and> \<not> free_chunks s ! j}"

definition slab_inv :: "nat \<Rightarrow> u16 \<Rightarrow> slab \<Rightarrow> bool" where
  "slab_inv n csz s \<longleftrightarrow> length (chunks s) = n \<and> length (free_chunks s) = n
     \<and> (\<forall>c \<in> set (chunks s). ch_sz c = csz \<and> int (unat (ch_ind c)) = s_ind s \<and> ch_canary c = SLAB_CANARY)
     \<and> nallocs s = int (card (slab_used s))
     \<and> state s = (if card (slab_used s) = 0 then SLAB_FREE else if card (slab_used s) = n then SLAB_FULL else SLAB_PARTIAL)"

lemma finite_slab_used [simp]: "finite (slab_used s)"
  by (simp add: slab_used_def)

lemma slab_used_sub: "slab_inv n csz s \<Longrightarrow> slab_used s \<subseteq> {..<n}"
  by (auto simp: slab_inv_def slab_used_def)

lemma slab_used_card: "slab_inv n csz s \<Longrightarrow> card (slab_used s) \<le> n"
  using card_mono [OF finite_lessThan slab_used_sub, of n csz s] by simp

lemma slab_invD:
  assumes "slab_inv n csz s"
  shows "length (chunks s) = n" "length (free_chunks s) = n"
    "\<forall>c \<in> set (chunks s). ch_sz c = csz \<and> int (unat (ch_ind c)) = s_ind s \<and> ch_canary c = SLAB_CANARY"
    "nallocs s = int (card (slab_used s))"
    "state s = (if card (slab_used s) = 0 then SLAB_FREE else if card (slab_used s) = n then SLAB_FULL else SLAB_PARTIAL)"
  using assms unfolding slab_inv_def by blast+

lemma slab_states_differ: "SLAB_FREE \<noteq> SLAB_FULL" "SLAB_PARTIAL \<noteq> SLAB_FULL"
  by (simp_all add: kconst)

lemma slab_state_full:
  assumes "slab_inv n csz s" "0 < n"
  shows "state s = SLAB_FULL \<longleftrightarrow> slab_used s = {..<n}"
proof
  assume "state s = SLAB_FULL"
  then have "card (slab_used s) = n" using slab_invD(5) [OF assms(1)] slab_states_differ by metis
  then show "slab_used s = {..<n}" using card_subset_eq [of "{..<n}" "slab_used s"] slab_used_sub [OF assms(1)] by simp
next
  assume "slab_used s = {..<n}"
  then show "state s = SLAB_FULL" using slab_invD(5) [OF assms(1)] assms(2) by simp
qed

lemma slab_used_update:
  assumes "j < length (free_chunks s)" "free_chunks t = (free_chunks s)[j := b]"
  shows "slab_used t = (if b then slab_used s - {j} else insert j (slab_used s))"
  using assms unfolding slab_used_def by (auto simp: nth_list_update split: if_splits)

lemma slab_new_inv:
  assumes "index < 2 ^ 16"
  shows "slab_inv n csz (slab_new n csz index)" "slab_used (slab_new n csz index) = {}"
proof -
  show u: "slab_used (slab_new n csz index) = {}" by (simp add: slab_used_def slab_new_def)
  have "unat (of_nat index :: u16) = index" using assms by (simp add: unat_of_nat take_bit_nat_eq_self)
  then show "slab_inv n csz (slab_new n csz index)"
    unfolding slab_inv_def u by (simp add: slab_new_def)
qed

lemma give_scan_first:
  assumes "slab_inv n csz s" "\<exists>j. i \<le> j \<and> j < n \<and> j \<notin> slab_used s"
  shows "\<exists>j. i \<le> j \<and> j < n \<and> j \<notin> slab_used s \<and> (\<forall>k. i \<le> k \<and> k < j \<longrightarrow> k \<in> slab_used s)
     \<and> give_scan n s i = Some (j, slab_take n s j)"
  using assms
proof (induction "n - i" arbitrary: i)
  case 0
  then show ?case by auto
next
  case (Suc d)
  then have lt: "i < n" by linarith
  have len: "length (free_chunks s) = n" "length (chunks s) = n" using Suc.prems(1) by (simp_all add: slab_inv_def)
  have can: "ch_canary (chunks s ! i) = SLAB_CANARY"
    using Suc.prems(1) lt len(2) unfolding slab_inv_def by simp
  show ?case
  proof (cases "free_chunks s ! i")
    case True
    then have "i \<notin> slab_used s" by (simp add: slab_used_def)
    moreover have "give_scan n s i = Some (i, slab_take n s i)"
      using True lt can by (subst give_scan.simps) simp
    ultimately show ?thesis using lt by (intro exI [of _ i]) auto
  next
    case False
    then have ui: "i \<in> slab_used s" using lt len by (simp add: slab_used_def)
    obtain j0 where j0: "i \<le> j0" "j0 < n" "j0 \<notin> slab_used s" using Suc.prems(2) by blast
    then have "j0 \<noteq> i" using ui by blast
    then have ex: "\<exists>j. i + 1 \<le> j \<and> j < n \<and> j \<notin> slab_used s" using j0 by (intro exI [of _ j0]) simp
    have "d = n - (i + 1)" using Suc.hyps(2) by simp
    from Suc.hyps(1) [OF this Suc.prems(1) ex] obtain j where
      j: "i + 1 \<le> j" "j < n" "j \<notin> slab_used s" "\<forall>k. i + 1 \<le> k \<and> k < j \<longrightarrow> k \<in> slab_used s"
      "give_scan n s (i + 1) = Some (j, slab_take n s j)"
      by (elim exE conjE) (rule that)
    have "give_scan n s i = give_scan n s (i + 1)" using False lt by (subst give_scan.simps) simp
    moreover have "k \<in> slab_used s" if "i \<le> k" "k < j" for k
      using that ui j(4) by (cases "k = i") auto
    ultimately show ?thesis using j by (intro exI [of _ j]) simp
  qed
qed

lemma slab_give_spec:
  assumes inv: "slab_inv n csz s" and n: "0 < n" and free: "slab_used s \<noteq> {..<n}"
  shows "\<exists>j s'. slab_give n s = Some (j, s') \<and> j < n \<and> j \<notin> slab_used s \<and> (\<forall>k < j. k \<in> slab_used s)
     \<and> slab_inv n csz s' \<and> slab_used s' = insert j (slab_used s) \<and> s_ind s' = s_ind s"
proof -
  have nf: "state s \<noteq> SLAB_FULL" using slab_state_full [OF inv n] free by simp
  have "\<exists>j. 0 \<le> j \<and> j < n \<and> j \<notin> slab_used s" using free slab_used_sub [OF inv] by auto
  from give_scan_first [OF inv this] obtain j where
    j: "j < n" "j \<notin> slab_used s" "\<forall>k. 0 \<le> k \<and> k < j \<longrightarrow> k \<in> slab_used s"
    "give_scan n s 0 = Some (j, slab_take n s j)"
    by (elim exE conjE) (rule that)
  define s' where "s' = slab_take n s j"
  have len: "length (free_chunks s) = n" using inv by (simp add: slab_inv_def)
  have fs: "free_chunks s' = (free_chunks s)[j := False]" "nallocs s' = nallocs s + 1" "chunks s' = chunks s" "s_ind s' = s_ind s"
    "state s' = (if nallocs s + 1 = int n then SLAB_FULL else if nallocs s + 1 > 0 then SLAB_PARTIAL else state s)"
    by (simp_all add: s'_def slab_take_def Let_def)
  have u: "slab_used s' = insert j (slab_used s)" using slab_used_update [OF _ fs(1)] j(1) len by simp
  have c: "card (slab_used s') = card (slab_used s) + 1" unfolding u using j(2) by simp
  have "nallocs s = int (card (slab_used s))" using inv by (simp add: slab_inv_def)
  then have "slab_inv n csz s'"
    using inv unfolding slab_inv_def c fs by simp
  then show ?thesis using j nf u fs(4) unfolding slab_give_def s'_def [symmetric] by auto
qed

lemma slab_receive_spec:
  assumes inv: "slab_inv n csz s" and j: "j \<in> slab_used s"
  shows "\<exists>s'. slab_receive n csz s j = Some s' \<and> slab_inv n csz s' \<and> slab_used s' = slab_used s - {j} \<and> s_ind s' = s_ind s"
proof -
  have lt: "j < n" using j slab_used_sub [OF inv] by auto
  have len: "length (free_chunks s) = n" "length (chunks s) = n" using inv by (simp_all add: slab_inv_def)
  have ch: "int (unat (ch_ind (chunks s ! j))) = s_ind s" "ch_sz (chunks s ! j) = csz" "ch_canary (chunks s ! j) = SLAB_CANARY"
    using inv lt len(2) unfolding slab_inv_def by simp_all
  have nf: "\<not> free_chunks s ! j" using j by (simp add: slab_used_def)
  define na where "na = nallocs s - 1"
  define s' where "s' = s\<lparr>free_chunks := (free_chunks s)[j := True], nallocs := na,
                         state := (if na > 0 then SLAB_PARTIAL else SLAB_FREE)\<rparr>"
  have r: "slab_receive n csz s j = Some s'" using lt ch nf by (simp add: slab_receive_def s'_def na_def Let_def)
  have "free_chunks s' = (free_chunks s)[j := True]" by (simp add: s'_def)
  then have u: "slab_used s' = slab_used s - {j}" using slab_used_update [of j s s' True] lt len by simp
  have c: "card (slab_used s) = card (slab_used s') + 1" unfolding u using card_Suc_Diff1 [OF _ j] by simp
  have m: "card (slab_used s') < n" using c slab_used_card [OF inv] by simp
  have na: "na = int (card (slab_used s'))" using inv c unfolding slab_inv_def na_def by simp
  have st: "state s' = (if card (slab_used s') = 0 then SLAB_FREE else if card (slab_used s') = n then SLAB_FULL else SLAB_PARTIAL)"
  proof -
    have "state s' = (if na > 0 then SLAB_PARTIAL else SLAB_FREE)" by (simp add: s'_def)
    then show ?thesis using m unfolding na by simp
  qed
  have "slab_inv n csz s'"
    unfolding slab_inv_def
  proof (intro conjI)
    show "length (chunks s') = n" "length (free_chunks s') = n" using len by (simp_all add: s'_def)
    show "\<forall>c \<in> set (chunks s'). ch_sz c = csz \<and> int (unat (ch_ind c)) = s_ind s' \<and> ch_canary c = SLAB_CANARY"
      using slab_invD(3) [OF inv] by (simp add: s'_def)
    have "nallocs s' = na" by (simp add: s'_def)
    then show "nallocs s' = int (card (slab_used s'))" using na by (rule trans)
  qed (rule st)
  then show ?thesis using r u by (auto simp: s'_def)
qed

lemma slab_receive_free:
  assumes "slab_inv n csz s" "j \<notin> slab_used s"
  shows "slab_receive n csz s j = None"
  using assms unfolding slab_receive_def slab_inv_def slab_used_def by (auto simp: Let_def)

lemma slab_give_full:
  assumes "slab_inv n csz s" "0 < n" "slab_used s = {..<n}"
  shows "slab_give n s = None"
  using slab_state_full [OF assms(1,2)] assms(3) by (simp add: slab_give_def)

subsection \<open>The interface of a slab\<close>

text \<open>\<open>k\<close> allocations in a row, and the release of a list of chunks.\<close>

fun gives :: "('s \<Rightarrow> (nat \<times> 's) option) \<Rightarrow> nat \<Rightarrow> 's \<Rightarrow> (nat list \<times> 's) option" where
  "gives give 0 s = Some ([], s)"
| "gives give (Suc k) s =
     (case give s of None \<Rightarrow> None
      | Some (j, s1) \<Rightarrow> (case gives give k s1 of None \<Rightarrow> None | Some (js, s2) \<Rightarrow> Some (j # js, s2)))"

fun receives :: "('s \<Rightarrow> nat \<Rightarrow> 's option) \<Rightarrow> nat list \<Rightarrow> 's \<Rightarrow> 's option" where
  "receives receive [] s = Some s"
| "receives receive (j # js) s = (case receive s j of None \<Rightarrow> None | Some s1 \<Rightarrow> receives receive js s1)"

locale chunk_pool =
  fixes give :: "'s \<Rightarrow> (nat \<times> 's) option"
    and receive :: "'s \<Rightarrow> nat \<Rightarrow> 's option"
    and inv :: "'s \<Rightarrow> bool" and used :: "'s \<Rightarrow> nat set" and cap :: nat
  assumes used_sub: "inv s \<Longrightarrow> used s \<subseteq> {..<cap}"
    and give_ok: "inv s \<Longrightarrow> used s \<noteq> {..<cap} \<Longrightarrow>
      \<exists>j s'. give s = Some (j, s') \<and> j < cap \<and> j \<notin> used s \<and> inv s' \<and> used s' = insert j (used s)"
    and give_full: "inv s \<Longrightarrow> used s = {..<cap} \<Longrightarrow> give s = None"
    and receive_ok: "inv s \<Longrightarrow> j \<in> used s \<Longrightarrow>
      \<exists>s'. receive s j = Some s' \<and> inv s' \<and> used s' = used s - {j}"
    and receive_bad: "inv s \<Longrightarrow> j \<notin> used s \<Longrightarrow> receive s j = None"
begin

lemma give_Some:
  assumes "inv s" "give s = Some (j, s')"
  shows "j < cap \<and> j \<notin> used s \<and> inv s' \<and> used s' = insert j (used s)"
proof -
  have "used s \<noteq> {..<cap}" using give_full [OF assms(1)] assms(2) by auto
  then show ?thesis using give_ok [OF assms(1)] assms(2) by auto
qed

lemma gives_ok:
  assumes "inv s" "card (used s) + k \<le> cap"
  shows "\<exists>js s'. gives give k s = Some (js, s') \<and> length js = k \<and> distinct js \<and> set js \<inter> used s = {}
     \<and> inv s' \<and> used s' = used s \<union> set js"
  using assms
proof (induction k arbitrary: s)
  case 0
  then show ?case by simp
next
  case (Suc k)
  have fin: "finite (used s)" using used_sub [OF Suc.prems(1)] finite_subset by blast
  have "card (used s) < cap" using Suc.prems(2) by linarith
  then have "used s \<noteq> {..<cap}" by (metis card_lessThan less_irrefl)
  then obtain j s1 where j: "give s = Some (j, s1)" "j \<notin> used s" "inv s1" "used s1 = insert j (used s)"
    using give_ok [OF Suc.prems(1)] by blast
  have "card (used s1) + k \<le> cap" using j(2,4) fin Suc.prems(2) by simp
  from Suc.IH [OF j(3) this] obtain js s2 where
    js: "gives give k s1 = Some (js, s2)" "length js = k" "distinct js" "set js \<inter> used s1 = {}" "inv s2"
    "used s2 = used s1 \<union> set js"
    by (elim exE conjE) (rule that)
  have "gives give (Suc k) s = Some (j # js, s2)" using j(1) js(1) by simp
  moreover have "distinct (j # js)" "set (j # js) \<inter> used s = {}" "used s2 = used s \<union> set (j # js)"
    using js j by auto
  ultimately show ?case using js(2,5) by (intro exI [of _ "j # js"] exI [of _ s2]) simp
qed

lemma receives_ok:
  assumes "inv s" "distinct js" "set js \<subseteq> used s"
  shows "\<exists>s'. receives receive js s = Some s' \<and> inv s' \<and> used s' = used s - set js"
  using assms
proof (induction js arbitrary: s)
  case Nil
  then show ?case by simp
next
  case (Cons j js)
  then obtain s1 where s1: "receive s j = Some s1" "inv s1" "used s1 = used s - {j}"
    using receive_ok [of s j] by auto
  have "set js \<subseteq> used s1" using Cons.prems s1(3) by auto
  from Cons.IH [OF s1(2) _ this] Cons.prems(2) obtain s' where
    "receives receive js s1 = Some s'" "inv s'" "used s' = used s1 - set js" by auto
  then show ?case using s1 by auto
qed

lemma gives_receives:
  assumes "inv s" "card (used s) + k \<le> cap"
  shows "\<exists>js s' s''. gives give k s = Some (js, s') \<and> length js = k \<and> distinct js \<and> set js \<inter> used s = {} \<and> inv s'
     \<and> receives receive js s' = Some s'' \<and> inv s'' \<and> used s'' = used s"
proof -
  obtain js s' where s': "gives give k s = Some (js, s')" "length js = k" "distinct js" "set js \<inter> used s = {}"
     "inv s'" "used s' = used s \<union> set js" using gives_ok [OF assms] by (elim exE conjE) (rule that)
  then obtain s'' where "receives receive js s' = Some s''" "inv s''" "used s'' = used s' - set js"
    using receives_ok [of s' js] by auto
  then show ?thesis using s' by auto
qed

text \<open>From an empty pool: allocations, and then the release of any of the chunks, in any order.\<close>

lemma lifecycle:
  assumes "inv s0" "used s0 = {}" "k \<le> cap"
  shows "\<exists>js s. gives give k s0 = Some (js, s) \<and> length js = k \<and> distinct js \<and> set js \<subseteq> {..<cap} \<and> (k = cap \<longrightarrow> give s = None)
     \<and> (\<forall>ds. distinct ds \<and> set ds \<subseteq> set js \<longrightarrow>
          (\<exists>s'. receives receive ds s = Some s' \<and> inv s' \<and> used s' = set js - set ds \<and> (\<forall>j. j \<notin> set js - set ds \<longrightarrow> receive s' j = None)))"
proof -
  obtain js s where s: "gives give k s0 = Some (js, s)" "length js = k" "distinct js" "inv s" "used s = set js"
    using gives_ok [OF assms(1), of k] assms(2,3) by auto
  have sub: "set js \<subseteq> {..<cap}" using used_sub [OF s(4)] s(5) by simp
  have "k = cap \<Longrightarrow> used s = {..<cap}" using card_subset_eq [of "{..<cap}" "set js"] sub s(2,3,5) by (simp add: distinct_card)
  then have "k = cap \<longrightarrow> give s = None" using give_full [OF s(4)] by blast
  moreover have "\<exists>s'. receives receive ds s = Some s' \<and> inv s' \<and> used s' = set js - set ds \<and> (\<forall>j. j \<notin> set js - set ds \<longrightarrow> receive s' j = None)"
    if "distinct ds \<and> set ds \<subseteq> set js" for ds
    using receives_ok [OF s(4), of ds] receive_bad that s(5) by auto
  ultimately show ?thesis using s(1-3) sub by blast
qed

end

lemma slab_chunk_pool:
  assumes "0 < n"
  shows "chunk_pool (slab_give n) (slab_receive n csz) (slab_inv n csz) slab_used n"
proof
  fix s j assume inv: "slab_inv n csz s"
  show "slab_used s \<subseteq> {..<n}" by (rule slab_used_sub [OF inv])
  show "slab_used s \<noteq> {..<n} \<Longrightarrow> \<exists>j s'. slab_give n s = Some (j, s') \<and> j < n \<and> j \<notin> slab_used s
      \<and> slab_inv n csz s' \<and> slab_used s' = insert j (slab_used s)"
    using slab_give_spec [OF inv assms] by blast
  show "slab_used s = {..<n} \<Longrightarrow> slab_give n s = None" by (rule slab_give_full [OF inv assms])
  show "j \<in> slab_used s \<Longrightarrow> \<exists>s'. slab_receive n csz s j = Some s' \<and> slab_inv n csz s' \<and> slab_used s' = slab_used s - {j}"
    using slab_receive_spec [OF inv] by blast
  show "j \<notin> slab_used s \<Longrightarrow> slab_receive n csz s j = None" by (rule slab_receive_free [OF inv])
qed

abbreviation small_inv :: "slab \<Rightarrow> bool" where
  "small_inv \<equiv> slab_inv NUM_SMALL_SLABS SMALL_CHUNKSIZE"

abbreviation big_inv :: "slab \<Rightarrow> bool" where
  "big_inv \<equiv> slab_inv NUM_BIG_SLABS BIG_CHUNKSIZE"

interpretation small: chunk_pool smallslab_give smallslab_receive small_inv slab_used NUM_SMALL_SLABS
  unfolding smallslab_give_def smallslab_receive_def by (rule slab_chunk_pool) (simp add: kconst)

interpretation big: chunk_pool bigslab_give bigslab_receive big_inv slab_used NUM_BIG_SLABS
  unfolding bigslab_give_def bigslab_receive_def by (rule slab_chunk_pool) (simp add: kconst)

lemma slab_lifecycle_any:
  assumes pool: "chunk_pool give receive (slab_inv n csz) slab_used n" and new: "slab_inv n csz s0" "slab_used s0 = {}" and k: "k \<le> n"
  shows "\<exists>js s. gives give k s0 = Some (js, s) \<and> length js = k \<and> distinct js \<and> set js \<subseteq> {..<n} \<and> (k = n \<longrightarrow> give s = None)
     \<and> (\<forall>ds. distinct ds \<and> set ds \<subseteq> set js \<longrightarrow>
          (\<exists>s'. receives receive ds s = Some s' \<and> slab_used s' = set js - set ds \<and> (state s' = SLAB_FREE \<longleftrightarrow> set ds = set js)
             \<and> (\<forall>j. j \<notin> set js - set ds \<longrightarrow> receive s' j = None)))"
proof -
  have fr: "state s' = SLAB_FREE \<longleftrightarrow> set ds = set js"
    if "slab_inv n csz s'" "slab_used s' = set js - set ds" "set ds \<subseteq> set js" for s' ds js
  proof -
    have "state s' = SLAB_FREE \<longleftrightarrow> card (slab_used s') = 0" using slab_invD(5) [OF that(1)] by (simp add: kconst)
    then show ?thesis using that(2,3) by auto
  qed
  from chunk_pool.lifecycle [OF pool new k] obtain js s where
    js: "gives give k s0 = Some (js, s)" "length js = k" "distinct js" "set js \<subseteq> {..<n}" "k = n \<longrightarrow> give s = None"
    and ds: "\<And>ds. distinct ds \<and> set ds \<subseteq> set js \<Longrightarrow>
      \<exists>s'. receives receive ds s = Some s' \<and> slab_inv n csz s' \<and> slab_used s' = set js - set ds \<and> (\<forall>j. j \<notin> set js - set ds \<longrightarrow> receive s' j = None)"
    by (elim exE conjE) (rule that, assumption+, rule mp, erule spec, assumption)
  have "\<exists>s'. receives receive ds s = Some s' \<and> slab_used s' = set js - set ds \<and> (state s' = SLAB_FREE \<longleftrightarrow> set ds = set js)
       \<and> (\<forall>j. j \<notin> set js - set ds \<longrightarrow> receive s' j = None)" if d: "distinct ds \<and> set ds \<subseteq> set js" for ds
    using ds [OF d] fr conjunct2 [OF d] by blast
  then show ?thesis using js by blast
qed

text \<open>
  C13. A slab hands out its chunks without duplicates until it is full, and takes them back: from a new
  small slab any number \<open>k \<le> 31\<close> of allocations succeeds with distinct chunks. Any of them can then
  be released, in any order: exactly the chunks released become free again, and releasing a chunk
  that is not in use is refused by an assertion; the slab counts as free just when all were released. At
  31 allocations the next one fails its assertion. The same holds for the 15 chunks of a big slab.
\<close>

theorem slab_lifecycle:
  assumes "index < 2 ^ 16"
  shows "(\<forall>k \<le> NUM_SMALL_SLABS. \<exists>js s. gives smallslab_give k (smallslab_new index) = Some (js, s)
           \<and> length js = k \<and> distinct js \<and> set js \<subseteq> {..<NUM_SMALL_SLABS} \<and> (k = NUM_SMALL_SLABS \<longrightarrow> smallslab_give s = None)
           \<and> (\<forall>ds. distinct ds \<and> set ds \<subseteq> set js \<longrightarrow>
                (\<exists>s'. receives smallslab_receive ds s = Some s' \<and> slab_used s' = set js - set ds \<and> (state s' = SLAB_FREE \<longleftrightarrow> set ds = set js)
                   \<and> (\<forall>j. j \<notin> set js - set ds \<longrightarrow> smallslab_receive s' j = None))))
       \<and> (\<forall>k \<le> NUM_BIG_SLABS. \<exists>js s. gives bigslab_give k (bigslab_new index) = Some (js, s)
           \<and> length js = k \<and> distinct js \<and> set js \<subseteq> {..<NUM_BIG_SLABS} \<and> (k = NUM_BIG_SLABS \<longrightarrow> bigslab_give s = None)
           \<and> (\<forall>ds. distinct ds \<and> set ds \<subseteq> set js \<longrightarrow>
                (\<exists>s'. receives bigslab_receive ds s = Some s' \<and> slab_used s' = set js - set ds \<and> (state s' = SLAB_FREE \<longleftrightarrow> set ds = set js)
                   \<and> (\<forall>j. j \<notin> set js - set ds \<longrightarrow> bigslab_receive s' j = None))))"
  using slab_lifecycle_any [OF small.chunk_pool_axioms slab_new_inv [OF assms, of NUM_SMALL_SLABS SMALL_CHUNKSIZE, folded smallslab_new_def]]
    slab_lifecycle_any [OF big.chunk_pool_axioms slab_new_inv [OF assms, of NUM_BIG_SLABS BIG_CHUNKSIZE, folded bigslab_new_def]]
  by blast

theorem slab_lifecycle_witness:
  "\<exists>js s s'. gives smallslab_give 31 (smallslab_new 1) = Some (js, s) \<and> length js = 31 \<and> distinct js
     \<and> smallslab_give s = None \<and> receives smallslab_receive js s = Some s' \<and> slab_used s' = {} \<and> state s' = SLAB_FREE"
proof -
  have "(1::nat) < 2 ^ 16" by simp
  from conjunct1 [OF slab_lifecycle [OF this]] obtain js s where
    s: "gives smallslab_give 31 (smallslab_new 1) = Some (js, s)" "length js = 31" "distinct js" "smallslab_give s = None"
    and d: "\<forall>ds. distinct ds \<and> set ds \<subseteq> set js \<longrightarrow>
       (\<exists>s'. receives smallslab_receive ds s = Some s' \<and> slab_used s' = set js - set ds \<and> (state s' = SLAB_FREE \<longleftrightarrow> set ds = set js)
          \<and> (\<forall>j. j \<notin> set js - set ds \<longrightarrow> smallslab_receive s' j = None))"
    by (elim allE [of _ 31] impE exE conjE) (simp_all add: NUM_SMALL_SLABS_def)
  then show ?thesis using d [rule_format, of js] by auto
qed

end
