(* ===== verification/KAlloc.thy ===== *)
theory KAlloc
  imports BuddyOps Slab
begin

unbundle bit_operations_syntax

text \<open>
  \<^verbatim>\<open>kalloc\<close> and \<^verbatim>\<open>kfree\<close> of \<^verbatim>\<open>k-alloc.cc\<close> as callers see them: the slabs in front of the buddy
  allocator, and the self checks \<^verbatim>\<open>check_kalloc\<close> and \<^verbatim>\<open>check_kfree\<close>. A kernel pointer is either a
  chunk of a slab or the physical address of a page; \<^verbatim>\<open>kfree\<close> tells them apart by the eight
  bytes in front of the pointer. For a chunk these are its header; for a page they belong to
  somebody else and are an argument of the model.
\<close>

definition STATIC_SMALL_SLABS :: nat where [kconst]: "STATIC_SMALL_SLABS = 2"
definition STATIC_BIG_SLABS :: nat where [kconst]: "STATIC_BIG_SLABS = 1"
definition SLAB_THRESHOLD :: nat where [kconst]: "SLAB_THRESHOLD = 512 - 8"
definition SMALL_SLAB_THRESHOLD :: nat where [kconst]: "SMALL_SLAB_THRESHOLD = 128 - 8"

datatype kptr = SmallPtr nat nat | BigPtr nat nat | PagePtr nat

record kheap =
  kalloc_disabled :: bool
  smallslabs :: "slab list"
  bigslabs :: "slab list"
  bud :: buddy

text \<open>The walk over the first \<open>k\<close> slabs for one that is not full.\<close>

definition slab_walk :: "(slab \<Rightarrow> (nat \<times> slab) option) \<Rightarrow> nat \<Rightarrow> slab list \<Rightarrow> (nat \<times> nat \<times> slab list) option option" where
  "slab_walk give k sls =
     (case find (\<lambda>i. state (sls ! i) \<noteq> SLAB_FULL) [0..<k] of
        None \<Rightarrow> Some None
      | Some i \<Rightarrow> (case give (sls ! i) of None \<Rightarrow> None | Some (j, s') \<Rightarrow> Some (Some (i, j, sls[i := s']))))"

definition small_alloc :: "nat \<Rightarrow> kheap \<Rightarrow> (kptr option \<times> kheap) option" where
  "small_alloc sz h =
     (if sz \<le> SMALL_SLAB_THRESHOLD then
        (case slab_walk smallslab_give STATIC_SMALL_SLABS (smallslabs h) of
           None \<Rightarrow> None
         | Some None \<Rightarrow> Some (None, h)
         | Some (Some (i, j, sls)) \<Rightarrow> Some (Some (SmallPtr i j), h\<lparr>smallslabs := sls\<rparr>))
      else Some (None, h))"

definition big_alloc :: "kheap \<Rightarrow> (kptr option \<times> kheap) option" where
  "big_alloc h =
     (case slab_walk bigslab_give STATIC_BIG_SLABS (bigslabs h) of
        None \<Rightarrow> None
      | Some None \<Rightarrow> Some (None, h)
      | Some (Some (i, j, sls)) \<Rightarrow> Some (Some (BigPtr i j), h\<lparr>bigslabs := sls\<rparr>))"

definition page_alloc :: "u64 \<Rightarrow> kheap \<Rightarrow> (kptr option \<times> kheap)" where
  "page_alloc sz h = (case buddy_alloc sz (bud h) of (r, b) \<Rightarrow> (map_option PagePtr r, h\<lparr>bud := b\<rparr>))"

definition kalloc :: "u64 \<Rightarrow> kheap \<Rightarrow> (kptr option \<times> kheap) option" where
  "kalloc sz h =
     (if kalloc_disabled h then Some (None, h)
      else if sz = 0 \<or> unat sz > 2 ^ MAX_ORDER then Some (None, h)
      else if unat sz \<le> SLAB_THRESHOLD then
        (case small_alloc (unat sz) h of
           None \<Rightarrow> None
         | Some (Some p, h1) \<Rightarrow> Some (Some p, h1)
         | Some (None, h1) \<Rightarrow>
             (case big_alloc h1 of
                None \<Rightarrow> None
              | Some (Some p, h2) \<Rightarrow> Some (Some p, h2)
              | Some (None, h2) \<Rightarrow> Some (page_alloc sz h2)))
      else Some (page_alloc sz h))"

text \<open>
  \<^verbatim>\<open>*chunk_ind\<close>: an \<^verbatim>\<open>int\<close> read at \<^verbatim>\<open>ptr - 6\<close>, so the chunk's 16-bit index and the low half of its canary.
\<close>

definition chunk_ind :: "chunk \<Rightarrow> u32" where
  "chunk_ind c = ucast (ch_ind c) OR push_bit 16 (ch_canary c)"

text \<open>The loops of \<^verbatim>\<open>kfree\<close> over the slabs, for chunk \<open>j\<close> of slab \<open>i\<close>.\<close>

fun free_walk :: "(slab \<Rightarrow> nat \<Rightarrow> slab option) \<Rightarrow> chunk \<Rightarrow> nat \<Rightarrow> nat \<Rightarrow> nat list \<Rightarrow> slab list \<Rightarrow> slab list option" where
  "free_walk receive c i j [] sls = Some sls"
| "free_walk receive c i j (k # ks) sls =
     (if k = i \<and> sint (chunk_ind c) = s_ind (sls ! k) then
        (case receive (sls ! k) j of None \<Rightarrow> None | Some s' \<Rightarrow> free_walk receive c i j ks (sls[k := s']))
      else free_walk receive c i j ks sls)"

definition header :: "chunk \<Rightarrow> kheap \<Rightarrow> kptr \<Rightarrow> chunk" where
  "header before h p = (case p of
      SmallPtr i j \<Rightarrow> chunks (smallslabs h ! i) ! j
    | BigPtr i j \<Rightarrow> chunks (bigslabs h ! i) ! j
    | PagePtr a \<Rightarrow> before)"

definition kfree :: "chunk \<Rightarrow> kptr option \<Rightarrow> kheap \<Rightarrow> kheap option" where
  "kfree before ptr h = (case ptr of None \<Rightarrow> Some h | Some p \<Rightarrow>
     (let c = header before h p in
      if ch_canary c = SLAB_CANARY then
        (if ch_sz c = SMALL_CHUNKSIZE then
           (case p of
              SmallPtr i j \<Rightarrow> map_option (\<lambda>sls. h\<lparr>smallslabs := sls\<rparr>)
                 (free_walk smallslab_receive c i j [0..<STATIC_SMALL_SLABS] (smallslabs h))
            | _ \<Rightarrow> Some h)
         else if ch_sz c = BIG_CHUNKSIZE then
           (case p of
              BigPtr i j \<Rightarrow> map_option (\<lambda>sls. h\<lparr>bigslabs := sls\<rparr>)
                 (free_walk bigslab_receive c i j [0..<STATIC_BIG_SLABS] (bigslabs h))
            | _ \<Rightarrow> Some h)
         else None)
      else (case p of
              PagePtr a \<Rightarrow> map_option (\<lambda>b. h\<lparr>bud := b\<rparr>) (buddy_free a (bud h))
            | _ \<Rightarrow> None)))"

subsection \<open>The self checks\<close>

definition check_kalloc :: "buddy \<Rightarrow> nat option \<Rightarrow> u64 \<Rightarrow> bool" where
  "check_kalloc s ptr sz = (case ptr of None \<Rightarrow> True | Some pa \<Rightarrow>
     (let start = pa div PAGESIZE; ord = order sz True; n = 2 ^ ord div PAGESIZE in
      returned (pgmap s start)
      \<and> (\<forall>it \<in> set [start..<start + n]. pord (pgmap s it) = ord \<and> \<not> pfree (pgmap s it)
           \<and> (it \<noteq> start \<longrightarrow> \<not> returned (pgmap s it)))
      \<and> (\<forall>it \<in> set (free_blocks s ord). \<forall>it2 \<in> set [start..<start + n]. it2 \<noteq> it)))"

definition check_kfree :: "buddy \<Rightarrow> nat option \<Rightarrow> u64 \<Rightarrow> bool" where
  "check_kfree s ptr sz = (case ptr of None \<Rightarrow> True | Some pa \<Rightarrow>
     (let start = pa div PAGESIZE; ord = order sz True; n = 2 ^ ord div PAGESIZE in
      \<forall>it \<in> set [start..<start + n]. pfree (pgmap s it) \<and> \<not> returned (pgmap s it)))"

subsection \<open>The heap invariant\<close>

definition heap_init :: "buddy \<Rightarrow> kheap" where
  "heap_init b = \<lparr>kalloc_disabled = False, smallslabs = [smallslab_new 0, smallslab_new 1],
     bigslabs = [bigslab_new 0, bigslab_new 1], bud = b\<rparr>"

definition heap_inv :: "kheap \<Rightarrow> bool" where
  "heap_inv h \<longleftrightarrow> length (smallslabs h) = 2 \<and> length (bigslabs h) = 2
     \<and> (\<forall>i < 2. small_inv (smallslabs h ! i) \<and> s_ind (smallslabs h ! i) = int i)
     \<and> (\<forall>i < 2. big_inv (bigslabs h ! i) \<and> s_ind (bigslabs h ! i) = int i)
     \<and> buddy_inv (bud h)"

text \<open>The pointers that callers hold, and the number of bytes they may use behind one.\<close>

definition held :: "kheap \<Rightarrow> kptr set" where
  "held h = {SmallPtr i j | i j. i < 2 \<and> j \<in> slab_used (smallslabs h ! i)}
     \<union> {BigPtr i j | i j. i < 2 \<and> j \<in> slab_used (bigslabs h ! i)}
     \<union> {PagePtr (i * PAGESIZE) | i o0. (i, o0) \<in> allocated (bud h)}"

definition capacity :: "kheap \<Rightarrow> kptr \<Rightarrow> nat" where
  "capacity h p = (case p of SmallPtr i j \<Rightarrow> 120 | BigPtr i j \<Rightarrow> 504
     | PagePtr a \<Rightarrow> 2 ^ pord (pgmap (bud h) (a div PAGESIZE)))"

lemma slab_walk_spec:
  assumes pool: "chunk_pool give receive ok slab_used n" and n: "0 < n"
    and full: "\<And>s. ok s \<Longrightarrow> (state s = SLAB_FULL) = (slab_used s = {..<n})"
    and k: "k \<le> length sls" and inv: "\<forall>i < k. ok (sls ! i)"
  shows "(slab_walk give k sls = Some None \<and> (\<forall>i < k. slab_used (sls ! i) = {..<n}))
    \<or> (\<exists>i j s'. slab_walk give k sls = Some (Some (i, j, sls[i := s'])) \<and> i < k \<and> give (sls ! i) = Some (j, s')
         \<and> ok s' \<and> j \<notin> slab_used (sls ! i) \<and> slab_used s' = insert j (slab_used (sls ! i)))"
proof (cases "find (\<lambda>i. state (sls ! i) \<noteq> SLAB_FULL) [0..<k]")
  case None
  then have "\<forall>i < k. state (sls ! i) = SLAB_FULL" by (auto simp: find_None_iff)
  then show ?thesis using None full inv by (simp add: slab_walk_def)
next
  case (Some i)
  then have i: "i < k" "state (sls ! i) \<noteq> SLAB_FULL" by (auto simp: find_Some_iff)
  then have "slab_used (sls ! i) \<noteq> {..<n}" using full inv by blast
  then obtain j s' where j: "give (sls ! i) = Some (j, s')" "j \<notin> slab_used (sls ! i)" "ok s'"
      "slab_used s' = insert j (slab_used (sls ! i))"
    using chunk_pool.give_ok [OF pool, of "sls ! i"] inv i(1) by blast
  have "slab_walk give k sls = Some (Some (i, j, sls[i := s']))" by (simp add: slab_walk_def Some j(1))
  then show ?thesis using i j by blast
qed

lemma slab_give_ind: "slab_give n s = Some (j, s') \<Longrightarrow> s_ind s' = s_ind s \<and> chunks s' = chunks s"
proof -
  have "give_scan n s i = Some (j, s') \<Longrightarrow> s_ind s' = s_ind s \<and> chunks s' = chunks s" for i
    by (induction n s i rule: give_scan.induct)
      (subst (asm) give_scan.simps, auto simp: slab_take_def Let_def split: if_splits)
  then show "slab_give n s = Some (j, s') \<Longrightarrow> s_ind s' = s_ind s \<and> chunks s' = chunks s"
    by (simp add: slab_give_def split: if_splits)
qed

lemma heap_invD:
  assumes "heap_inv h"
  shows "length (smallslabs h) = 2" "length (bigslabs h) = 2"
    "\<And>i. i < 2 \<Longrightarrow> small_inv (smallslabs h ! i)" "\<And>i. i < 2 \<Longrightarrow> s_ind (smallslabs h ! i) = int i"
    "\<And>i. i < 2 \<Longrightarrow> big_inv (bigslabs h ! i)" "\<And>i. i < 2 \<Longrightarrow> s_ind (bigslabs h ! i) = int i"
    "buddy_inv (bud h)"
  using assms unfolding heap_inv_def by blast+

lemma slab_set_insert:
  assumes "i < length sls" "slab_used s' = insert j (slab_used (sls ! i))"
  shows "{F i' j' | i' j'. i' < length sls \<and> j' \<in> slab_used (sls[i := s'] ! i')}
     = insert (F i j) {F i' j' | i' j'. i' < length sls \<and> j' \<in> slab_used (sls ! i')}"
proof -
  have e: "(i' < length sls \<and> j' \<in> slab_used (sls[i := s'] ! i'))
      = ((i' = i \<and> j' = j) \<or> (i' < length sls \<and> j' \<in> slab_used (sls ! i')))" for i' j'
    using assms by (cases "i' = i") auto
  show ?thesis unfolding e by blast
qed

lemma held_small:
  assumes "length (smallslabs h) = 2" "i < 2" "slab_used s' = insert j (slab_used (smallslabs h ! i))"
  shows "held (h\<lparr>smallslabs := (smallslabs h)[i := s']\<rparr>) = insert (SmallPtr i j) (held h)"
  using slab_set_insert [of i "smallslabs h" s' j SmallPtr] assms unfolding held_def by simp

lemma held_big:
  assumes "length (bigslabs h) = 2" "i < 2" "slab_used s' = insert j (slab_used (bigslabs h ! i))"
  shows "held (h\<lparr>bigslabs := (bigslabs h)[i := s']\<rparr>) = insert (BigPtr i j) (held h)"
  using slab_set_insert [of i "bigslabs h" s' j BigPtr] assms unfolding held_def by simp

lemma held_simps:
  "SmallPtr i j \<in> held h \<longleftrightarrow> i < 2 \<and> j \<in> slab_used (smallslabs h ! i)"
  "BigPtr i j \<in> held h \<longleftrightarrow> i < 2 \<and> j \<in> slab_used (bigslabs h ! i)"
  "PagePtr a \<in> held h \<longleftrightarrow> (\<exists>i o0. a = i * PAGESIZE \<and> (i, o0) \<in> allocated (bud h))"
  by (auto simp: held_def)

lemma slab_inv_index:
  "length sls = 2 \<Longrightarrow> \<forall>k < 2. slab_inv n csz (sls ! k) \<and> s_ind (sls ! k) = int k \<Longrightarrow>
   slab_inv n csz s' \<Longrightarrow> s_ind s' = int i \<Longrightarrow> k < 2 \<Longrightarrow>
   slab_inv n csz (sls[i := s'] ! k) \<and> s_ind (sls[i := s'] ! k) = int k"
  by (cases "i = k") auto

text \<open>What an allocation step promises.\<close>

definition alloc_ok :: "kheap \<Rightarrow> nat \<Rightarrow> kptr \<Rightarrow> kheap \<Rightarrow> bool" where
  "alloc_ok h sz p h' \<longleftrightarrow> heap_inv h' \<and> p \<notin> held h \<and> held h' = insert p (held h) \<and> sz \<le> capacity h' p"

lemma small_alloc_spec:
  assumes inv: "heap_inv h"
  shows "small_alloc sz h = Some (None, h) \<or> (\<exists>p h'. small_alloc sz h = Some (Some p, h') \<and> alloc_ok h sz p h')"
proof (cases "sz \<le> SMALL_SLAB_THRESHOLD")
  case False
  then show ?thesis by (simp add: small_alloc_def)
next
  case True
  note I = heap_invD [OF inv]
  have pos: "0 < NUM_SMALL_SLABS" by (simp add: kconst)
  have k: "STATIC_SMALL_SLABS \<le> length (smallslabs h)" "\<forall>i < STATIC_SMALL_SLABS. small_inv (smallslabs h ! i)"
    using I(1,3) by (simp_all add: kconst)
  from slab_walk_spec [OF small.chunk_pool_axioms pos slab_state_full [OF _ pos] k]
  show ?thesis
  proof
    assume "slab_walk smallslab_give STATIC_SMALL_SLABS (smallslabs h) = Some None \<and>
      (\<forall>i < STATIC_SMALL_SLABS. slab_used (smallslabs h ! i) = {..<NUM_SMALL_SLABS})"
    then show ?thesis using True by (simp add: small_alloc_def)
  next
    assume "\<exists>i j s'. slab_walk smallslab_give STATIC_SMALL_SLABS (smallslabs h) = Some (Some (i, j, (smallslabs h)[i := s']))
       \<and> i < STATIC_SMALL_SLABS \<and> smallslab_give (smallslabs h ! i) = Some (j, s') \<and> small_inv s'
       \<and> j \<notin> slab_used (smallslabs h ! i) \<and> slab_used s' = insert j (slab_used (smallslabs h ! i))"
    then obtain i j s' where w: "slab_walk smallslab_give STATIC_SMALL_SLABS (smallslabs h) = Some (Some (i, j, (smallslabs h)[i := s']))"
      "i < 2" "smallslab_give (smallslabs h ! i) = Some (j, s')" "small_inv s'"
      "j \<notin> slab_used (smallslabs h ! i)" "slab_used s' = insert j (slab_used (smallslabs h ! i))"
      by (auto simp: STATIC_SMALL_SLABS_def)
    let ?h = "h\<lparr>smallslabs := (smallslabs h)[i := s']\<rparr>"
    have ind: "s_ind s' = int i" using slab_give_ind w(3) I(4) [OF w(2)] by (simp add: smallslab_give_def)
    have "\<forall>k < 2. small_inv (smallslabs h ! k) \<and> s_ind (smallslabs h ! k) = int k" using I(3,4) by blast
    note si = slab_inv_index [OF I(1) this w(4) ind]
    have "heap_inv ?h" unfolding heap_inv_def using I si by simp
    moreover have "held ?h = insert (SmallPtr i j) (held h)" by (rule held_small [OF I(1) w(2,6)])
    moreover have "SmallPtr i j \<notin> held h" using w(5) by (simp add: held_simps)
    moreover have "sz \<le> capacity ?h (SmallPtr i j)" using True by (simp add: capacity_def kconst)
    moreover have "small_alloc sz h = Some (Some (SmallPtr i j), ?h)" using True w(1) by (simp add: small_alloc_def)
    ultimately show ?thesis unfolding alloc_ok_def by blast
  qed
qed

lemma big_alloc_spec:
  assumes inv: "heap_inv h" and sz: "sz \<le> SLAB_THRESHOLD"
  shows "big_alloc h = Some (None, h) \<or> (\<exists>p h'. big_alloc h = Some (Some p, h') \<and> alloc_ok h sz p h')"
proof -
  note I = heap_invD [OF inv]
  have pos: "0 < NUM_BIG_SLABS" by (simp add: kconst)
  have k: "STATIC_BIG_SLABS \<le> length (bigslabs h)" "\<forall>i < STATIC_BIG_SLABS. big_inv (bigslabs h ! i)"
    using I(2,5) by (simp_all add: kconst)
  from slab_walk_spec [OF big.chunk_pool_axioms pos slab_state_full [OF _ pos] k]
  show ?thesis
  proof
    assume "slab_walk bigslab_give STATIC_BIG_SLABS (bigslabs h) = Some None \<and>
      (\<forall>i < STATIC_BIG_SLABS. slab_used (bigslabs h ! i) = {..<NUM_BIG_SLABS})"
    then show ?thesis by (simp add: big_alloc_def)
  next
    assume "\<exists>i j s'. slab_walk bigslab_give STATIC_BIG_SLABS (bigslabs h) = Some (Some (i, j, (bigslabs h)[i := s']))
       \<and> i < STATIC_BIG_SLABS \<and> bigslab_give (bigslabs h ! i) = Some (j, s') \<and> big_inv s'
       \<and> j \<notin> slab_used (bigslabs h ! i) \<and> slab_used s' = insert j (slab_used (bigslabs h ! i))"
    then obtain i j s' where w: "slab_walk bigslab_give STATIC_BIG_SLABS (bigslabs h) = Some (Some (i, j, (bigslabs h)[i := s']))"
      "i < 2" "bigslab_give (bigslabs h ! i) = Some (j, s')" "big_inv s'"
      "j \<notin> slab_used (bigslabs h ! i)" "slab_used s' = insert j (slab_used (bigslabs h ! i))"
      by (auto simp: STATIC_BIG_SLABS_def)
    let ?h = "h\<lparr>bigslabs := (bigslabs h)[i := s']\<rparr>"
    have ind: "s_ind s' = int i" using slab_give_ind w(3) I(6) [OF w(2)] by (simp add: bigslab_give_def)
    have "\<forall>k < 2. big_inv (bigslabs h ! k) \<and> s_ind (bigslabs h ! k) = int k" using I(5,6) by blast
    note si = slab_inv_index [OF I(2) this w(4) ind]
    have "heap_inv ?h" unfolding heap_inv_def using I si by simp
    moreover have "held ?h = insert (BigPtr i j) (held h)" by (rule held_big [OF I(2) w(2,6)])
    moreover have "BigPtr i j \<notin> held h" using w(5) by (simp add: held_simps)
    moreover have "sz \<le> capacity ?h (BigPtr i j)" using sz by (simp add: capacity_def kconst)
    moreover have "big_alloc h = Some (Some (BigPtr i j), ?h)" using w(1) by (simp add: big_alloc_def)
    ultimately show ?thesis unfolding alloc_ok_def by blast
  qed
qed

lemma allocated_functional: "(i, o0) \<in> allocated s \<Longrightarrow> (i, o1) \<in> allocated s \<Longrightarrow> o1 = o0"
  by (auto simp: allocated_def)

lemma page_alloc_spec:
  assumes inv: "heap_inv h" and sz: "sz \<noteq> 0"
  shows "(page_alloc sz h = (None, h) \<and> (\<forall>k. MIN_ORDER \<le> k \<and> k \<le> MAX_ORDER \<and> unat sz \<le> 2 ^ k \<longrightarrow> free_blocks (bud h) k = []))
    \<or> (\<exists>p h'. page_alloc sz h = (Some p, h') \<and> alloc_ok h (unat sz) p h')"
proof -
  note I = heap_invD [OF inv]
  define ord where "ord = max (order sz False) MIN_ORDER"
  have le: "ord \<le> k \<longleftrightarrow> MIN_ORDER \<le> k \<and> unat sz \<le> 2 ^ k" for k
    using order_least [OF sz] unfolding ord_def by auto
  from buddy_alloc_cases [OF I(7), of sz, folded ord_def]
  show ?thesis
  proof
    assume a: "fst (buddy_alloc sz (bud h)) = None \<and> snd (buddy_alloc sz (bud h)) = bud h \<and> take_block ord (bud h) = None"
    then have "buddy_alloc sz (bud h) = (None, bud h)" by (metis prod.collapse)
    then have "page_alloc sz h = (None, h)" by (simp add: page_alloc_def)
    moreover have "free_blocks (bud h) k = []" if "MIN_ORDER \<le> k \<and> k \<le> MAX_ORDER \<and> unat sz \<le> 2 ^ k" for k
      using take_block_None [of ord "bud h" k] a le [of k] that by simp
    ultimately show ?thesis by blast
  next
    assume "\<exists>i B t. buddy_alloc sz (bud h) = (Some (i * PAGESIZE), t) \<and> binv B {} t \<and> (i, ord) \<in> B
         \<and> allocated t = insert (i, ord) (allocated (bud h)) \<and> (i, ord) \<notin> allocated (bud h)
         \<and> same_roots (bud h) t \<and> pages (i, ord) \<subseteq> free_pages (bud h) \<and> free_pages t = free_pages (bud h) - pages (i, ord)"
    then obtain i B t where a: "buddy_alloc sz (bud h) = (Some (i * PAGESIZE), t)" "binv B {} t" "(i, ord) \<in> B"
      "allocated t = insert (i, ord) (allocated (bud h))" "(i, ord) \<notin> allocated (bud h)" by blast
    let ?h = "h\<lparr>bud := t\<rparr>" and ?p = "PagePtr (i * PAGESIZE)"
    have P: "PAGESIZE \<noteq> 0" by (simp add: kconst)
    have "buddy_inv t" using a(2) unfolding buddy_inv_def by blast
    then have "heap_inv ?h" using I unfolding heap_inv_def by simp
    moreover have "held ?h = insert ?p (held h)"
      unfolding held_def using a(4) by auto
    moreover have "?p \<notin> held h"
    proof
      assume "?p \<in> held h"
      then obtain o1 where o1: "(i, o1) \<in> allocated (bud h)" using P by (auto simp: held_simps)
      then have "(i, o1) \<in> allocated t" "(i, ord) \<in> allocated t" using a(4) by auto
      then have "o1 = ord" by (rule allocated_functional [rotated])
      then show False using o1 a(5) by simp
    qed
    moreover have "unat sz \<le> capacity ?h ?p"
    proof -
      have "(i, ord) \<in> allocated t" using a(4) by simp
      then have "pord (pgmap t i) = ord" by (auto simp: allocated_def)
      then show ?thesis using le [of ord] P by (simp add: capacity_def)
    qed
    moreover have "page_alloc sz h = (Some ?p, ?h)" using a(1) by (simp add: page_alloc_def)
    ultimately show ?thesis unfolding alloc_ok_def by blast
  qed
qed

text \<open>
  C1. \<^verbatim>\<open>kalloc\<close> never fails an assertion. A pointer it returns is not held by any other caller, has
  room for the bytes asked for, and is the only pointer added to the held ones; the allocator
  stays well formed. It returns null only when allocation is disabled, the size is 0 or above
  \<open>2 ^ MAX_ORDER\<close>, or no free block is large enough, and then nothing changed.
\<close>

theorem kalloc_correct:
  assumes "heap_inv h"
  shows "\<exists>r h'. kalloc sz h = Some (r, h') \<and>
    (case r of
       None \<Rightarrow> h' = h \<and> (kalloc_disabled h \<or> sz = 0 \<or> unat sz > 2 ^ MAX_ORDER
         \<or> (\<forall>k. MIN_ORDER \<le> k \<and> k \<le> MAX_ORDER \<and> unat sz \<le> 2 ^ k \<longrightarrow> free_blocks (bud h) k = []))
     | Some p \<Rightarrow> heap_inv h' \<and> p \<notin> held h \<and> held h' = insert p (held h) \<and> unat sz \<le> capacity h' p)"
proof (cases "kalloc_disabled h \<or> sz = 0 \<or> unat sz > 2 ^ MAX_ORDER")
  case True
  then show ?thesis by (auto simp: kalloc_def)
next
  case ok: False
  have nz: "sz \<noteq> 0" using ok by simp
  note page = page_alloc_spec [OF assms nz, unfolded alloc_ok_def]
  have pg: ?thesis if k: "kalloc sz h = Some (page_alloc sz h)"
    using page
  proof
    assume "page_alloc sz h = (None, h) \<and> (\<forall>k. MIN_ORDER \<le> k \<and> k \<le> MAX_ORDER \<and> unat sz \<le> 2 ^ k \<longrightarrow> free_blocks (bud h) k = [])"
    then show ?thesis using k by simp
  next
    assume "\<exists>p h'. page_alloc sz h = (Some p, h') \<and> heap_inv h' \<and> p \<notin> held h \<and> held h' = insert p (held h)
      \<and> unat sz \<le> capacity h' p"
    then show ?thesis using k by auto
  qed
  show ?thesis
  proof (cases "unat sz \<le> SLAB_THRESHOLD")
    case False
    then have "kalloc sz h = Some (page_alloc sz h)" using ok by (simp add: kalloc_def)
    then show ?thesis by (rule pg)
  next
    case small: True
    note sa = small_alloc_spec [OF assms, of "unat sz", unfolded alloc_ok_def]
    note ba = big_alloc_spec [OF assms small, unfolded alloc_ok_def]
    show ?thesis
    proof (cases "small_alloc (unat sz) h = Some (None, h)")
      case False
      then obtain p h' where p: "small_alloc (unat sz) h = Some (Some p, h')" "heap_inv h'" "p \<notin> held h"
        "held h' = insert p (held h)" "unat sz \<le> capacity h' p" using sa by blast
      then have "kalloc sz h = Some (Some p, h')" using ok small by (simp add: kalloc_def)
      then show ?thesis using p by simp
    next
      case s0: True
      show ?thesis
      proof (cases "big_alloc h = Some (None, h)")
        case False
        then obtain p h' where p: "big_alloc h = Some (Some p, h')" "heap_inv h'" "p \<notin> held h"
          "held h' = insert p (held h)" "unat sz \<le> capacity h' p" using ba by blast
        then have "kalloc sz h = Some (Some p, h')" using ok small s0 by (simp add: kalloc_def)
        then show ?thesis using p by simp
      next
        case True
        then have "kalloc sz h = Some (page_alloc sz h)" using ok small s0 by (simp add: kalloc_def)
        then show ?thesis by (rule pg)
      qed
    qed
  qed
qed

lemma heap_init_inv: "heap_inv (heap_init sample)" "held (heap_init sample) = {}"
proof -
  have s: "small_inv (smallslab_new i) \<and> slab_used (smallslab_new i) = {} \<and> s_ind (smallslab_new i) = int i" if "i < 2" for i
    using slab_new_inv [of i NUM_SMALL_SLABS SMALL_CHUNKSIZE] that by (simp add: smallslab_new_def slab_new_def)
  have b: "big_inv (bigslab_new i) \<and> slab_used (bigslab_new i) = {} \<and> s_ind (bigslab_new i) = int i" if "i < 2" for i
    using slab_new_inv [of i NUM_BIG_SLABS BIG_CHUNKSIZE] that by (simp add: bigslab_new_def slab_new_def)
  have n: "[f 0, f 1] ! i = f i" if "i < 2" for f :: "nat \<Rightarrow> slab" and i
    using that by (cases i) (auto simp: less_Suc_eq)
  show "heap_inv (heap_init sample)" unfolding heap_inv_def heap_init_def using s b n sample_ok by simp
  show "held (heap_init sample) = {}" unfolding held_def heap_init_def using s b n sample_ok(2) by simp
qed

theorem kalloc_correct_witness:
  "heap_inv (heap_init sample) \<and> kalloc 0 (heap_init sample) = Some (None, heap_init sample)
   \<and> (\<exists>r h'. kalloc 100 (heap_init sample) = Some (r, h') \<and>
    (case r of
       None \<Rightarrow> h' = heap_init sample \<and> (kalloc_disabled (heap_init sample) \<or> (100::u64) = 0 \<or> unat (100::u64) > 2 ^ MAX_ORDER
         \<or> (\<forall>k. MIN_ORDER \<le> k \<and> k \<le> MAX_ORDER \<and> unat (100::u64) \<le> 2 ^ k \<longrightarrow> free_blocks (bud (heap_init sample)) k = []))
     | Some p \<Rightarrow> heap_inv h' \<and> p \<notin> held (heap_init sample) \<and> held h' = insert p (held (heap_init sample))
         \<and> unat (100::u64) \<le> capacity h' p))"
  using kalloc_correct [OF heap_init_inv(1), of 100] heap_init_inv(1) by (simp only: simp_thms) (simp add: kalloc_def)

subsection \<open>Freeing\<close>

lemma chunk_ind_never:
  assumes c: "ch_canary c = SLAB_CANARY" and i: "i < 2"
  shows "sint (chunk_ind c) \<noteq> int i"
proof
  assume "sint (chunk_ind c) = int i"
  then have "chunk_ind c = of_int (int i)" by (metis of_int_sint scast_id)
  then have "chunk_ind c = 0 \<or> chunk_ind c = 1" using i by (cases i) auto
  then have "\<not> bit (chunk_ind c) 16" by (auto simp: bit_simps)
  moreover have "bit (chunk_ind c) 16" using c by (simp add: chunk_ind_def bit_simps kconst)
  ultimately show False by simp
qed

lemma free_walk_nothing:
  assumes "ch_canary c = SLAB_CANARY" "\<And>k. k < 2 \<Longrightarrow> s_ind (sls ! k) = int k" "set ks \<subseteq> {..<2}"
  shows "free_walk receive c i j ks sls = Some sls"
  using assms(3) by (induction ks) (use chunk_ind_never [OF assms(1)] assms(2) in auto)

text \<open>
  C12. \<^verbatim>\<open>kfree\<close> of a slab chunk. For a chunk a caller holds, \<^verbatim>\<open>kfree\<close> returns without an assertion failure
  but leaves the allocator exactly as it was: the chunk is never available again. The 32-bit read
  of the 16-bit slab index (\<^verbatim>\<open>k-alloc.cc\<close>, line 520) takes in half of the canary, so no slab matches.
\<close>

theorem kfree_slab_leaks:
  assumes inv: "heap_inv h" and p: "p \<in> held h" "p = SmallPtr i j \<or> p = BigPtr i j"
  shows "kfree before (Some p) h = Some h"
proof -
  note I = heap_invD [OF inv]
  have k: "set [0..<STATIC_SMALL_SLABS] \<subseteq> {..<2}" "set [0..<STATIC_BIG_SLABS] \<subseteq> {..<2}" by (auto simp: kconst)
  from p(2) show ?thesis
  proof
    assume e: "p = SmallPtr i j"
    then have ij: "i < 2" "j \<in> slab_used (smallslabs h ! i)" using p(1) by (simp_all add: held_simps)
    let ?c = "chunks (smallslabs h ! i) ! j"
    have "j < NUM_SMALL_SLABS" using slab_used_sub [OF I(3) [OF ij(1)]] ij(2) by auto
    then have c: "ch_sz ?c = SMALL_CHUNKSIZE" "ch_canary ?c = SLAB_CANARY"
      using slab_invD(1,3) [OF I(3) [OF ij(1)]] by simp_all
    have "free_walk smallslab_receive ?c i j [0..<STATIC_SMALL_SLABS] (smallslabs h) = Some (smallslabs h)"
      by (rule free_walk_nothing [OF c(2) I(4) k(1)])
    then show ?thesis using c e by (simp add: kfree_def header_def Let_def)
  next
    assume e: "p = BigPtr i j"
    then have ij: "i < 2" "j \<in> slab_used (bigslabs h ! i)" using p(1) by (simp_all add: held_simps)
    let ?c = "chunks (bigslabs h ! i) ! j"
    have "j < NUM_BIG_SLABS" using slab_used_sub [OF I(5) [OF ij(1)]] ij(2) by auto
    then have c: "ch_sz ?c = BIG_CHUNKSIZE" "ch_canary ?c = SLAB_CANARY"
      using slab_invD(1,3) [OF I(5) [OF ij(1)]] by simp_all
    moreover have "BIG_CHUNKSIZE \<noteq> SMALL_CHUNKSIZE" by (simp add: kconst)
    moreover have "free_walk bigslab_receive ?c i j [0..<STATIC_BIG_SLABS] (bigslabs h) = Some (bigslabs h)"
      by (rule free_walk_nothing [OF c(2) I(6) k(2)])
    ultimately show ?thesis using e by (simp add: kfree_def header_def Let_def)
  qed
qed

lemma sample_small_alloc:
  "\<exists>h' i j. kalloc 100 (heap_init sample) = Some (Some (SmallPtr i j), h') \<and> heap_inv h' \<and> SmallPtr i j \<in> held h'"
proof -
  let ?h = "heap_init sample"
  have f: "find (\<lambda>i. state (smallslabs ?h ! i) \<noteq> SLAB_FULL) [0..<STATIC_SMALL_SLABS] = Some 0"
    by (simp add: heap_init_def smallslab_new_def slab_new_def kconst upt_rec)
  have "0 \<in> {..<NUM_SMALL_SLABS}" "slab_used (smallslab_new 0) = {}"
    using slab_new_inv(2) [of 0] by (simp_all add: smallslab_new_def kconst)
  then have "slab_used (smallslab_new 0) \<noteq> {..<NUM_SMALL_SLABS}" by blast
  then obtain j s' where g: "smallslab_give (smallslabs ?h ! 0) = Some (j, s')"
    using small.give_ok [of "smallslab_new 0"] slab_new_inv(1) [of 0] by (auto simp: heap_init_def smallslab_new_def)
  have "slab_walk smallslab_give STATIC_SMALL_SLABS (smallslabs ?h) = Some (Some (0, j, (smallslabs ?h)[0 := s']))"
    unfolding slab_walk_def f using g by simp
  then have s: "small_alloc 100 ?h = Some (Some (SmallPtr 0 j), ?h\<lparr>smallslabs := (smallslabs ?h)[0 := s']\<rparr>)"
    by (simp add: small_alloc_def kconst)
  then have "alloc_ok ?h 100 (SmallPtr 0 j) (?h\<lparr>smallslabs := (smallslabs ?h)[0 := s']\<rparr>)"
    using small_alloc_spec [OF heap_init_inv(1), of 100] by auto
  moreover have "kalloc 100 ?h = Some (Some (SmallPtr 0 j), ?h\<lparr>smallslabs := (smallslabs ?h)[0 := s']\<rparr>)"
    using s by (simp add: kalloc_def kconst) (simp add: heap_init_def)
  ultimately show ?thesis unfolding alloc_ok_def by blast
qed

theorem kfree_slab_leaks_witness:
  "\<exists>h i j before. kalloc 100 (heap_init sample) = Some (Some (SmallPtr i j), h) \<and> SmallPtr i j \<in> held h
     \<and> kfree before (Some (SmallPtr i j)) h = Some h"
proof -
  obtain h i j where h: "kalloc 100 (heap_init sample) = Some (Some (SmallPtr i j), h)" "heap_inv h" "SmallPtr i j \<in> held h"
    using sample_small_alloc by blast
  show ?thesis using kfree_slab_leaks [OF h(2,3), of i j] h by blast
qed



subsection \<open>The self checks pass\<close>

lemma order_exp:
  assumes "k \<le> MAX_ORDER" "MIN_ORDER \<le> k"
  shows "order (2 ^ k) True = k"
proof -
  have "k \<le> 21" using assms(1) by (simp add: kconst)
  then have "(2::nat) ^ k \<le> 2 ^ 21" by (rule power_increasing) simp
  then have lt: "(2::nat) ^ k < 2 ^ 64" by (rule le_less_trans) simp
  have u: "unat (2 ^ k :: u64) = 2 ^ k"
  proof -
    have "(2 ^ k :: u64) = of_nat (2 ^ k)" by simp
    then show ?thesis using lt by (simp only: unat_of_nat take_bit_nat_eq_self) (simp add: take_bit_nat_eq_self)
  qed
  have nz: "(2 ^ k :: u64) \<noteq> 0" using u by (metis power_not_zero unsigned_0 zero_neq_numeral)
  have "order (2 ^ k) False \<le> m \<longleftrightarrow> k \<le> m" for m
    unfolding order_least [OF nz] u by simp
  then have "order (2 ^ k) False = k" by (metis le_antisym order_refl)
  then show ?thesis using assms(2) by (simp add: order_min)
qed

text \<open>
  C14. The debugging checks \<^verbatim>\<open>check_kalloc\<close> and \<^verbatim>\<open>check_kfree\<close> hold wherever the code calls them: after every
  buddy allocation, successful or not, and after the release of any allocated block with its size.
\<close>

theorem self_checks_pass:
  assumes inv: "buddy_inv s" and sz: "sz \<noteq> 0"
  shows "check_kalloc (snd (buddy_alloc sz s)) (fst (buddy_alloc sz s)) sz
    \<and> (\<forall>(i, o0) \<in> allocated s. \<exists>t. buddy_free (i * PAGESIZE) s = Some t \<and> check_kfree t (Some (i * PAGESIZE)) (2 ^ o0))"
proof
  have P: "i * PAGESIZE div PAGESIZE = i" for i by (simp add: kconst)
  show "check_kalloc (snd (buddy_alloc sz s)) (fst (buddy_alloc sz s)) sz"
    using buddy_alloc_cases [OF inv, of sz]
  proof
    assume "\<exists>i B t. buddy_alloc sz s = (Some (i * PAGESIZE), t) \<and> binv B {} t \<and> (i, max (order sz False) MIN_ORDER) \<in> B
         \<and> allocated t = insert (i, max (order sz False) MIN_ORDER) (allocated s) \<and> (i, max (order sz False) MIN_ORDER) \<notin> allocated s
         \<and> same_roots s t \<and> pages (i, max (order sz False) MIN_ORDER) \<subseteq> free_pages s
         \<and> free_pages t = free_pages s - pages (i, max (order sz False) MIN_ORDER)"
    then obtain i B t where a: "buddy_alloc sz s = (Some (i * PAGESIZE), t)" "binv B {} t" "(i, order sz True) \<in> B"
      "allocated t = insert (i, order sz True) (allocated s)"
      unfolding order_min by blast
    let ?o = "order sz True"
    note I = binvD [OF a(2)]
    have m: "MIN_ORDER \<le> ?o" by (simp add: order_min)
    have al: "(i, ?o) \<in> allocated t" using a(4) by simp
    then have r: "returned (pgmap t i)" by (auto simp: allocated_def)
    have nf: "\<not> pfree (pgmap t i)" using al allocated_blocks [OF a(2)] by auto
    have u: "uniform t (i, ?o)" using I(3) a(3) by simp
    have pg: "pord (pgmap t p) = ?o \<and> \<not> pfree (pgmap t p)" if "p \<in> pages (i, ?o)" for p
      using u nf that unfolding uniform_def by simp
    have only: "\<not> returned (pgmap t p)" if p: "p \<in> pages (i, ?o)" "p \<noteq> i" for p
    proof
      assume "returned (pgmap t p)"
      then obtain k where k: "(p, k) \<in> B" using I(6) unfolding returned_ok_def by auto
      then have "(p, k) = (i, ?o)" using tiling_unique [OF I(1) k a(3), of p] p(1) pages_self [of "(p, k)"] by simp
      then show False using p(2) by simp
    qed
    have fb: "pfree (pgmap t q)" if "q \<in> set (free_blocks t k)" for q k
      using I(5) that unfolding lists_ok_def by auto
    have e: "set [i..<i + 2 ^ ?o div PAGESIZE] = pages (i, ?o)" by (simp add: pages_def exp_order_div [OF m])
    have "\<forall>it \<in> pages (i, ?o). pord (pgmap t it) = ?o \<and> \<not> pfree (pgmap t it) \<and> (it \<noteq> i \<longrightarrow> \<not> returned (pgmap t it))"
      using pg only by blast
    moreover have "\<forall>it \<in> set (free_blocks t ?o). \<forall>it2 \<in> pages (i, ?o). it2 \<noteq> it" using pg fb by blast
    ultimately show ?thesis unfolding a(1) check_kalloc_def fst_conv snd_conv option.case Let_def P e using r by blast
  qed (simp add: check_kalloc_def)
  show "\<forall>(i, o0) \<in> allocated s. \<exists>t. buddy_free (i * PAGESIZE) s = Some t \<and> check_kfree t (Some (i * PAGESIZE)) (2 ^ o0)"
  proof (intro ballI, unfold split_beta)
    fix b assume b: "b \<in> allocated s"
    obtain i o0 where io: "b = (i, o0)" by (cases b)
    obtain B where B: "binv B {} s" using inv unfolding buddy_inv_def by blast
    have "(i, o0) \<in> B" using b allocated_blocks [OF B] io by auto
    then have m: "MIN_ORDER \<le> o0" "o0 \<le> MAX_ORDER" using binv_block_bounds [OF B] by blast+
    obtain t where t: "buddy_free (i * PAGESIZE) s = Some t" "\<forall>p \<in> pages (i, o0). pfree (pgmap t p) \<and> \<not> returned (pgmap t p)"
      using buddy_free_allocated [OF inv] b unfolding io by blast
    have "set [i..<i + 2 ^ o0 div PAGESIZE] = pages (i, o0)" by (simp add: pages_def exp_order_div [OF m(1)])
    then have "check_kfree t (Some (i * PAGESIZE)) (2 ^ o0)"
      unfolding check_kfree_def option.case Let_def P order_exp [OF m(2,1)] using t(2) by simp
    then show "\<exists>t. buddy_free (fst b * PAGESIZE) s = Some t \<and> check_kfree t (Some (fst b * PAGESIZE)) (2 ^ snd b)"
      using t(1) io by auto
  qed
qed

theorem self_checks_pass_witness:
  "\<exists>t. buddy_inv t \<and> allocated t = {(1, 13)} \<and> check_kalloc (snd (buddy_alloc 7 t)) (fst (buddy_alloc 7 t)) 7
     \<and> (\<exists>u. buddy_free (1 * PAGESIZE) t = Some u \<and> check_kfree u (Some (1 * PAGESIZE)) (2 ^ 13))"
proof -
  obtain t where t: "buddy_inv t" "allocated t = {(1, 13)}" using sample_alloc by blast
  have "(7::u64) \<noteq> 0" by simp
  from self_checks_pass [OF t(1) this] show ?thesis using t by auto
qed

end
