(* ===== verification/MemRange.thy ===== *)
theory MemRange
  imports Prelude
begin

text \<open>
  \<^verbatim>\<open>memrangeset\<close> of \<^verbatim>\<open>k-memrange.hh\<close>: the types of physical address ranges, kept as a sorted array of
  range starts. The array is a list of \<open>maxsize + 1\<close> entries of which the first \<open>n + 1\<close> are in
  use; the last of those holds the limit. \<open>maxsize\<close> is the template argument. The contract is
  the map from addresses to types, and \<^verbatim>\<open>set\<close> is shown to be an update of that map.
\<close>

record memrangeset =
  mr_n :: nat
  mr_r :: "(nat \<times> int) list"

abbreviation mr_addr :: "memrangeset \<Rightarrow> nat \<Rightarrow> nat" where
  "mr_addr m i \<equiv> fst (mr_r m ! i)"

abbreviation mr_ty :: "memrangeset \<Rightarrow> nat \<Rightarrow> int" where
  "mr_ty m i \<equiv> snd (mr_r m ! i)"

text \<open>Static storage is zeroed before the constructor runs.\<close>

definition mr_new :: "nat \<Rightarrow> nat \<Rightarrow> memrangeset" where
  "mr_new maxsize limit = \<lparr>mr_n = 1, mr_r = (replicate (maxsize + 1) (0, 0))[1 := (limit, 0)]\<rparr>"

definition mr_limit :: "memrangeset \<Rightarrow> nat" where
  "mr_limit m = mr_addr m (mr_n m)"

function mr_find_from :: "memrangeset \<Rightarrow> nat \<Rightarrow> nat \<Rightarrow> nat" where
  "mr_find_from m addr i = (if i < mr_n m \<and> addr \<ge> mr_addr m (i + 1) then mr_find_from m addr (i + 1) else i)"
  by pat_completeness auto
termination
  by (relation "measure (\<lambda>(m, addr, i). mr_n m - i)") auto

declare mr_find_from.simps [simp del]

definition mr_find :: "memrangeset \<Rightarrow> nat \<Rightarrow> nat" where
  "mr_find m addr = mr_find_from m addr 0"

definition mr_type :: "memrangeset \<Rightarrow> nat \<Rightarrow> int option" where
  "mr_type m addr = (let r = mr_find m addr in check (r \<noteq> mr_n m) (Some (mr_ty m r)))"

text \<open>\<^verbatim>\<open>memmove(&r_[dst], &r_[src], count * sizeof(memrange))\<close>\<close>

definition mr_move :: "nat \<Rightarrow> nat \<Rightarrow> nat \<Rightarrow> memrangeset \<Rightarrow> memrangeset" where
  "mr_move dst src count m = m\<lparr>mr_r := blit (mr_r m) dst (take count (drop src (mr_r m)))\<rparr>"

definition mr_split :: "nat \<Rightarrow> nat \<Rightarrow> nat \<Rightarrow> memrangeset \<Rightarrow> memrangeset option" where
  "mr_split maxsize i addr m =
     check (i < mr_n m \<and> mr_n m + 1 \<le> maxsize)
      (check (mr_addr m i < addr \<and> mr_addr m (i + 1) > addr)
        (let m1 = mr_move (i + 2) (i + 1) (mr_n m - i) m
         in Some (m1\<lparr>mr_r := (mr_r m1)[i + 1 := (addr, mr_ty m1 i)], mr_n := mr_n m1 + 1\<rparr>)))"

text \<open>The search loops of \<^verbatim>\<open>set\<close>; the first one has no bound of its own.\<close>

function mr_lower :: "memrangeset \<Rightarrow> nat \<Rightarrow> nat \<Rightarrow> nat option" where
  "mr_lower m first i =
     (if i + 1 < length (mr_r m) then
        (if first \<ge> mr_addr m (i + 1) then mr_lower m first (i + 1) else Some i)
      else None)"
  by pat_completeness auto
termination
  by (relation "measure (\<lambda>(m, first, i). length (mr_r m) - i)") auto

declare mr_lower.simps [simp del]

definition mr_upper :: "memrangeset \<Rightarrow> nat \<Rightarrow> nat \<Rightarrow> nat" where
  "mr_upper m last0 i = mr_find_from m last0 i"

text \<open>Lines 339 to 346: the range \<open>[i, j)\<close> becomes one range of the given type.\<close>

definition mr_assign :: "nat \<Rightarrow> nat \<Rightarrow> int \<Rightarrow> memrangeset \<Rightarrow> memrangeset" where
  "mr_assign i j ty m =
     (let m1 = m\<lparr>mr_r := (mr_r m)[i := (mr_addr m i, ty)]\<rparr>
      in if i + 1 < j then (mr_move (i + 1) j (mr_n m + 1 - j) m1)\<lparr>mr_n := mr_n m - (j - (i + 1))\<rparr>
         else m1)"

text \<open>Lines 325 to 346, with the consolidated bounds.\<close>

definition mr_place :: "nat \<Rightarrow> nat \<Rightarrow> nat \<Rightarrow> nat \<Rightarrow> nat \<Rightarrow> int \<Rightarrow> memrangeset \<Rightarrow> (bool \<times> memrangeset) option" where
  "mr_place maxsize first last0 i j ty m =
     (if mr_n m + (if first \<noteq> mr_addr m i then 1 else 0) + (if last0 \<noteq> mr_addr m j then 1 else 0) > maxsize
      then Some (False, m)
      else
        (case (if first \<noteq> mr_addr m i then map_option (\<lambda>m'. (i + 1, j + 1, m')) (mr_split maxsize i first m)
               else Some (i, j, m)) of
           None \<Rightarrow> None
         | Some (i1, j1, m1) \<Rightarrow>
             (case (if last0 \<noteq> mr_addr m1 j1 then map_option (\<lambda>m'. (j1 + 1, m')) (mr_split maxsize j1 last0 m1)
                    else Some (j1, m1)) of
                None \<Rightarrow> None
              | Some (j2, m2) \<Rightarrow>
                  check (mr_addr m2 i1 = first \<and> mr_addr m2 j2 = last0)
                    (Some (True, mr_assign i1 j2 ty m2)))))"

text \<open>Lines 311 to 346: the upper bound of the range, then its placement.\<close>

definition mr_set_upper :: "nat \<Rightarrow> nat \<Rightarrow> nat \<Rightarrow> nat \<Rightarrow> int \<Rightarrow> memrangeset \<Rightarrow> (bool \<times> memrangeset) option" where
  "mr_set_upper maxsize first last0 i ty m =
     (let j = mr_upper m last0 i
      in check (j \<le> mr_n m \<and> last0 \<ge> mr_addr m j \<and> (j = mr_n m \<or> last0 < mr_addr m (j + 1)))
          (if j < mr_n m \<and> mr_ty m j = ty then
             mr_place maxsize first (mr_addr m (j + 1)) i (j + 1) ty m
           else if j > i \<and> first = mr_addr m i then
             mr_place maxsize first last0 i j ty (m\<lparr>mr_r := (mr_r m)[j := (last0, mr_ty m j)]\<rparr>)
           else mr_place maxsize first last0 i j ty m))"

definition mr_set :: "nat \<Rightarrow> nat \<Rightarrow> nat \<Rightarrow> int \<Rightarrow> memrangeset \<Rightarrow> (bool \<times> memrangeset) option" where
  "mr_set maxsize first last0 ty m =
     check (first \<le> last0 \<and> last0 \<le> mr_addr m (mr_n m))
      (if first = last0 then Some (True, m)
       else case mr_lower m first 0 of None \<Rightarrow> None | Some i0 \<Rightarrow>
         check (i0 < mr_n m \<and> first \<ge> mr_addr m i0 \<and> first < mr_addr m (i0 + 1))
          (let i = (if first = mr_addr m i0 \<and> i0 > 0 \<and> mr_ty m (i0 - 1) = ty then i0 - 1 else i0);
               first1 = (if mr_ty m i = ty then mr_addr m i else first)
           in mr_set_upper maxsize first1 last0 i ty m))"

definition mr_validate :: "nat \<Rightarrow> memrangeset \<Rightarrow> bool" where
  "mr_validate maxsize m \<longleftrightarrow> mr_n m > 0 \<and> mr_n m \<le> maxsize \<and> mr_addr m 0 = 0
     \<and> (\<forall>i \<in> set [0..<mr_n m]. mr_addr m i < mr_addr m (i + 1) \<and> (i = 0 \<or> mr_ty m i \<noteq> mr_ty m (i - 1)))"

subsection \<open>The ranges as a list\<close>

definition mr_list :: "memrangeset \<Rightarrow> (nat \<times> int) list" where
  "mr_list m = take (mr_n m + 1) (mr_r m)"

definition mr_inv :: "nat \<Rightarrow> memrangeset \<Rightarrow> bool" where
  "mr_inv maxsize m \<longleftrightarrow> length (mr_r m) = maxsize + 1 \<and> mr_validate maxsize m"

lemma mr_list_nth: "i \<le> mr_n m \<Longrightarrow> mr_list m ! i = mr_r m ! i"
  by (simp add: mr_list_def)

lemma mr_list_length: "mr_n m < length (mr_r m) \<Longrightarrow> length (mr_list m) = mr_n m + 1"
  by (simp add: mr_list_def)

text \<open>Array steps as list steps.\<close>

lemma take_blit:
  assumes "dst \<le> length r" "dst + length xs \<le> length r" "k = dst + length xs"
  shows "take k (blit r dst xs) = take dst r @ xs"
  using assms by (simp add: blit_def)

lemma mr_split_list:
  assumes len: "length (mr_r m) = maxsize + 1" and i: "i < mr_n m" "mr_n m + 1 \<le> maxsize"
    and a: "mr_addr m i < addr" "addr < mr_addr m (i + 1)"
  shows "\<exists>m'. mr_split maxsize i addr m = Some m' \<and> mr_n m' = mr_n m + 1 \<and> length (mr_r m') = maxsize + 1
     \<and> mr_list m' = take (i + 1) (mr_list m) @ (addr, mr_ty m i) # drop (i + 1) (mr_list m)"
proof -
  let ?r = "mr_r m" and ?n = "mr_n m"
  let ?xs = "take (?n - i) (drop (i + 1) ?r)"
  define m1 where "m1 = mr_move (i + 2) (i + 1) (?n - i) m"
  define m' where "m' = m1\<lparr>mr_r := (mr_r m1)[i + 1 := (addr, mr_ty m1 i)], mr_n := mr_n m1 + 1\<rparr>"
  have lx: "length ?xs = ?n - i" using len i by simp
  have r1: "mr_r m1 = blit ?r (i + 2) ?xs" "mr_n m1 = ?n" by (simp_all add: m1_def mr_move_def)
  have l1: "length (mr_r m1) = maxsize + 1" unfolding r1 using len i lx by simp
  have t1: "take (?n + 2) (mr_r m1) = take (i + 2) ?r @ ?xs"
    unfolding r1 by (rule take_blit) (use len i lx in auto)
  have ti: "mr_r m1 ! i = ?r ! i" unfolding r1 using len i lx by (subst nth_blit) auto
  have "mr_list m' = take (?n + 2) ((mr_r m1)[i + 1 := (addr, mr_ty m i)])"
    by (simp add: mr_list_def m'_def r1(2) ti)
  also have "\<dots> = (take (i + 2) ?r @ ?xs)[i + 1 := (addr, mr_ty m i)]"
    by (simp only: take_update_swap t1)
  also have "\<dots> = (take (i + 2) ?r)[i + 1 := (addr, mr_ty m i)] @ ?xs"
    using len i by (simp add: list_update_append)
  also have "(take (i + 2) ?r)[i + 1 := (addr, mr_ty m i)] = take (i + 1) ?r @ [(addr, mr_ty m i)]"
    using len i take_Suc_conv_app_nth [of "i + 1" ?r] by (simp add: list_update_append)
  finally have e: "mr_list m' = take (i + 1) ?r @ (addr, mr_ty m i) # ?xs" by simp
  have "take (i + 1) (mr_list m) = take (i + 1) ?r" using i by (simp add: mr_list_def min_absorb1)
  moreover have "drop (i + 1) (mr_list m) = ?xs" using i by (simp add: mr_list_def drop_take Suc_diff_Suc)
  ultimately have "mr_list m' = take (i + 1) (mr_list m) @ (addr, mr_ty m i) # drop (i + 1) (mr_list m)"
    using e by simp
  moreover have "mr_split maxsize i addr m = Some m'"
    using i a by (simp add: mr_split_def m'_def m1_def Let_def)
  moreover have "mr_n m' = ?n + 1" "length (mr_r m') = maxsize + 1" using l1 by (simp_all add: m'_def r1(2))
  ultimately show ?thesis by blast
qed

lemma mr_assign_list:
  assumes len: "mr_n m < length (mr_r m)" and ij: "i < j" "j \<le> mr_n m"
  shows "mr_n (mr_assign i j ty m) = mr_n m - (j - (i + 1)) \<and> length (mr_r (mr_assign i j ty m)) = length (mr_r m)
     \<and> mr_list (mr_assign i j ty m) = take i (mr_list m) @ (mr_addr m i, ty) # drop j (mr_list m)"
proof -
  let ?r = "(mr_r m)[i := (mr_addr m i, ty)]" and ?n = "mr_n m"
  have ti: "take (i + 1) ?r = take i (mr_r m) @ [(mr_addr m i, ty)]"
    using len ij take_Suc_conv_app_nth [of i ?r] by (simp add: take_update_cancel)
  have li: "take i (mr_list m) = take i (mr_r m)" using ij by (simp add: mr_list_def min_absorb1)
  have dj: "drop j (mr_list m) = take (?n + 1 - j) (drop j ?r)" using ij by (simp add: mr_list_def drop_take)
  show ?thesis
  proof (cases "i + 1 < j")
    case True
    let ?xs = "take (?n + 1 - j) (drop j ?r)"
    have lx: "length ?xs = ?n + 1 - j" using len ij by simp
    have n: "?n - (j - (i + 1)) + 1 = i + 1 + length ?xs" using lx ij by simp
    have e: "mr_assign i j ty m = m\<lparr>mr_r := blit ?r (i + 1) ?xs, mr_n := ?n - (j - (i + 1))\<rparr>"
      using True by (simp add: mr_assign_def mr_move_def Let_def)
    have "take (i + 1 + length ?xs) (blit ?r (i + 1) ?xs) = take (i + 1) ?r @ ?xs"
      by (rule take_blit) (use len ij lx in auto)
    then have "mr_list (mr_assign i j ty m) = take (i + 1) ?r @ ?xs"
      unfolding e mr_list_def using n by simp
    moreover have "length (blit ?r (i + 1) ?xs) = length (mr_r m)" using len ij lx by simp
    ultimately show ?thesis using ti li dj unfolding e by simp
  next
    case False
    then have j: "j = i + 1" using ij by simp
    have e: "mr_assign i j ty m = m\<lparr>mr_r := ?r\<rparr>" using False by (simp add: mr_assign_def Let_def)
    have "take (?n + 1) ?r = take (i + 1) ?r @ take (?n + 1 - (i + 1)) (drop (i + 1) ?r)"
      using take_add [of "i + 1" "?n - i" ?r] ij j by simp
    then show ?thesis using ti li dj unfolding e mr_list_def by (simp add: j)
  qed
qed

subsection \<open>The map a list of ranges stands for\<close>

definition lvalid :: "(nat \<times> int) list \<Rightarrow> bool" where
  "lvalid rs \<longleftrightarrow> 2 \<le> length rs \<and> fst (hd rs) = 0 \<and> sorted_wrt (<) (map fst rs)
     \<and> successively (\<noteq>) (map snd (butlast rs))"

definition ty_at :: "(nat \<times> int) list \<Rightarrow> nat \<Rightarrow> int" where
  "ty_at rs a = snd (last (filter (\<lambda>r. fst r \<le> a) rs))"

text \<open>\<open>k\<close> is the range of \<open>rs\<close> that holds address \<open>a\<close>.\<close>

definition range_of :: "(nat \<times> int) list \<Rightarrow> nat \<Rightarrow> nat \<Rightarrow> bool" where
  "range_of rs a k \<longleftrightarrow> k < length rs \<and> fst (rs ! k) \<le> a \<and> (k + 1 < length rs \<longrightarrow> a < fst (rs ! (k + 1)))"

lemma in_set_take_nth: "x \<in> set (take k xs) \<Longrightarrow> \<exists>i. i < k \<and> i < length xs \<and> x = xs ! i"
  by (auto simp: in_set_conv_nth)

lemma in_set_drop_nth: "x \<in> set (drop k xs) \<Longrightarrow> \<exists>i. k \<le> i \<and> i < length xs \<and> x = xs ! i"
proof -
  assume "x \<in> set (drop k xs)"
  then obtain j where "j < length xs - k" "x = drop k xs ! j" by (auto simp: in_set_conv_nth)
  then show ?thesis by (intro exI [of _ "k + j"]) auto
qed

lemma lvalid_first: "lvalid rs \<Longrightarrow> fst (rs ! 0) = 0"
  unfolding lvalid_def by (cases rs) auto

lemma sorted_addr: "sorted_wrt (<) (map fst (rs :: (nat \<times> int) list)) \<Longrightarrow> i < j \<Longrightarrow> j < length rs \<Longrightarrow> fst (rs ! i) < fst (rs ! j)"
  using sorted_wrt_nth_less [of "(<)" "map fst rs" i j] by simp

lemma sorted_addr_le: "sorted_wrt (<) (map fst (rs :: (nat \<times> int) list)) \<Longrightarrow> i \<le> j \<Longrightarrow> j < length rs \<Longrightarrow> fst (rs ! i) \<le> fst (rs ! j)"
  using sorted_addr [of rs i j] by (cases "i = j") auto

lemma ty_at_range:
  assumes s: "sorted_wrt (<) (map fst rs)" and k: "range_of rs a k"
  shows "ty_at rs a = snd (rs ! k)"
proof -
  have k': "k < length rs" "fst (rs ! k) \<le> a" using k by (simp_all add: range_of_def)
  have "fst r \<le> a" if r: "r \<in> set (take (k + 1) rs)" for r
  proof -
    obtain i where "i \<le> k" "r = rs ! i" using in_set_take_nth [OF r] by (metis Suc_eq_plus1 less_Suc_eq_le)
    then show ?thesis using sorted_addr_le [OF s, of i k] k' by simp
  qed
  then have 1: "filter (\<lambda>r. fst r \<le> a) (take (k + 1) rs) = take (k + 1) rs" by (simp add: filter_id_conv)
  have "\<not> fst r \<le> a" if r: "r \<in> set (drop (k + 1) rs)" for r
  proof -
    obtain i where i: "r = rs ! i" "k + 1 \<le> i" "i < length rs"
      using in_set_drop_nth [OF r] by blast
    then have "a < fst (rs ! (k + 1))" using k by (simp add: range_of_def)
    then show ?thesis using sorted_addr_le [OF s i(2,3)] i(1) by simp
  qed
  then have 2: "filter (\<lambda>r. fst r \<le> a) (drop (k + 1) rs) = []" by (simp add: filter_empty_conv)
  have "filter (\<lambda>r. fst r \<le> a) rs = filter (\<lambda>r. fst r \<le> a) (take (k + 1) rs) @ filter (\<lambda>r. fst r \<le> a) (drop (k + 1) rs)"
    by (metis append_take_drop_id filter_append)
  then have "filter (\<lambda>r. fst r \<le> a) rs = take (k + 1) rs" using 1 2 by simp
  then show ?thesis using k'(1) by (simp add: ty_at_def take_Suc_conv_app_nth)
qed

lemma range_exists:
  assumes "lvalid rs" "a < fst (last rs)"
  shows "\<exists>k. range_of rs a k \<and> k + 1 < length rs"
proof -
  have l: "2 \<le> length rs" "fst (rs ! 0) = 0" using assms(1) lvalid_first by (auto simp: lvalid_def)
  have la: "a < fst (rs ! (length rs - 1))" using assms(2) l by (metis last_conv_nth list.size(3) not_numeral_le_zero)
  define k where "k = Max {i. i < length rs \<and> fst (rs ! i) \<le> a}"
  have fin: "finite {i. i < length rs \<and> fst (rs ! i) \<le> a}" by simp
  have ne: "{i. i < length rs \<and> fst (rs ! i) \<le> a} \<noteq> {}" using l by (auto intro: exI [of _ 0])
  have k: "k < length rs" "fst (rs ! k) \<le> a" using Max_in [OF fin ne] unfolding k_def by auto
  have mx: "i \<le> k" if "i < length rs" "fst (rs ! i) \<le> a" for i
    unfolding k_def using that by (intro Max_ge [OF fin]) simp
  have "k \<noteq> length rs - 1" using k la by auto
  then have "k + 1 < length rs" using k by linarith
  moreover have "a < fst (rs ! (k + 1))"
  proof (rule ccontr)
    assume "\<not> ?thesis"
    then show False using mx [of "k + 1"] calculation by simp
  qed
  ultimately show ?thesis using k by (intro exI [of _ k]) (simp add: range_of_def)
qed

lemma successively_take: "successively P xs \<Longrightarrow> successively P (take k xs)"
  by (metis append_take_drop_id successively_append_iff)

lemma successively_drop: "successively P xs \<Longrightarrow> successively P (drop k xs)"
  by (metis append_take_drop_id successively_append_iff)

text \<open>
  Replacing the ranges from \<open>p\<close> to \<open>q\<close> by one range of type \<open>ty\<close> from \<open>F\<close> on, with the
  remainder of range \<open>q\<close> starting at \<open>G\<close>.
\<close>

definition mr_splice :: "nat \<Rightarrow> nat \<Rightarrow> nat \<Rightarrow> nat \<Rightarrow> int \<Rightarrow> (nat \<times> int) list \<Rightarrow> (nat \<times> int) list" where
  "mr_splice p q F G ty rs = take p rs @ (F, ty) # (G, snd (rs ! q)) # drop (q + 1) rs"

lemma splice_sorted:
  assumes s: "sorted_wrt (<) (map fst rs)" and pq: "p \<le> q + 1" "q < length rs" "p < length rs"
    and F: "p = 0 \<or> fst (rs ! (p - 1)) < F" and FG: "F < G"
    and G: "q + 1 < length rs \<longrightarrow> G < fst (rs ! (q + 1))"
  shows "sorted_wrt (<) (map fst (mr_splice p q F G ty rs))"
proof -
  have L: "fst x < F" if x: "x \<in> set (take p rs)" for x
  proof -
    obtain i where i: "x = rs ! i" "i < p" using in_set_take_nth [OF x] by blast
    have "fst (rs ! i) \<le> fst (rs ! (p - 1))" using sorted_addr_le [OF s, of i "p - 1"] i pq by simp
    then show ?thesis using F i by auto
  qed
  have R: "G < fst x" if x: "x \<in> set (drop (q + 1) rs)" for x
  proof -
    obtain i where i: "x = rs ! i" "q + 1 \<le> i" "i < length rs" using in_set_drop_nth [OF x] by blast
    have "fst (rs ! (q + 1)) \<le> fst (rs ! i)" using sorted_addr_le [OF s i(2,3)] .
    then show ?thesis using G i by auto
  qed
  have "sorted_wrt (<) (map fst (take p rs))" "sorted_wrt (<) (map fst (drop (q + 1) rs))"
    using s by (simp_all add: sorted_wrt_take sorted_wrt_drop flip: take_map drop_map)
  moreover have "fst x < F \<and> fst x < G \<and> (\<forall>y \<in> set (drop (q + 1) rs). fst x < fst y)" if "x \<in> set (take p rs)" for x
    using L [OF that] FG R by fastforce
  moreover have "F < fst y" if "y \<in> set (drop (q + 1) rs)" for y using R [OF that] FG by simp
  ultimately show ?thesis using FG R unfolding mr_splice_def by (simp add: sorted_wrt_append)
qed

lemma splice_lvalid:
  assumes v: "lvalid rs" and pq: "p \<le> q + 1" "q < length rs" "p < length rs"
    and F: "if p = 0 then F = 0 else fst (rs ! (p - 1)) < F \<and> snd (rs ! (p - 1)) \<noteq> ty" and FG: "F < G"
    and G: "q + 1 < length rs \<longrightarrow> G < fst (rs ! (q + 1)) \<and> snd (rs ! q) \<noteq> ty"
  shows "lvalid (mr_splice p q F G ty rs)"
proof -
  let ?b = "map snd (butlast rs)"
  have s: "sorted_wrt (<) (map fst rs)" "successively (\<noteq>) ?b" "2 \<le> length rs" "fst (rs ! 0) = 0"
    using v lvalid_first by (auto simp: lvalid_def)
  have 1: "sorted_wrt (<) (map fst (mr_splice p q F G ty rs))"
    by (rule splice_sorted [OF s(1) pq]) (use F FG G in \<open>auto split: if_splits\<close>)
  have 2: "fst (hd (mr_splice p q F G ty rs)) = 0"
    using F s pq by (cases "p = 0") (auto simp: mr_splice_def hd_append hd_conv_nth)
  have pl: "p \<le> length rs - 1" using pq by simp
  have tp: "map snd (take p rs) = take p ?b" 
    using pl s(3) by (cases "p = length rs") (simp_all add: take_map [symmetric] map_butlast [symmetric] butlast_conv_take)
  have lt: "snd (rs ! (p - 1)) = last (take p ?b)" if "0 < p"
  proof -
    have l: "length (take p ?b) = p" using pl by simp
    then have "take p ?b \<noteq> []" using that by (metis list.size(3) less_irrefl)
    then have "last (take p ?b) = take p ?b ! (p - 1)" using l by (simp add: last_conv_nth)
    then show ?thesis using that pl by (simp add: nth_butlast)
  qed
  have "successively (\<noteq>) (map snd (butlast (mr_splice p q F G ty rs)))"
  proof (cases "q + 1 < length rs")
    case True
    have "butlast (mr_splice p q F G ty rs) = take p rs @ (F, ty) # (G, snd (rs ! q)) # butlast (drop (q + 1) rs)"
      using True by (simp add: mr_splice_def butlast_append)
    then have e: "map snd (butlast (mr_splice p q F G ty rs)) = take p ?b @ ty # snd (rs ! q) # drop (q + 1) ?b"
      using tp by (simp add: map_butlast butlast_drop flip: drop_map)
    have "drop q ?b = snd (rs ! q) # drop (q + 1) ?b" using True by (simp add: Cons_nth_drop_Suc [symmetric] nth_butlast)
    then have "successively (\<noteq>) (ty # snd (rs ! q) # drop (q + 1) ?b)"
      using successively_drop [OF s(2), of q] G True by simp
    then show ?thesis unfolding e successively_append_iff
      using successively_take [OF s(2), of p] F lt by (cases "p = 0") auto
  next
    case False
    then have "butlast (mr_splice p q F G ty rs) = take p rs @ [(F, ty)]" by (simp add: mr_splice_def butlast_append)
    then have e: "map snd (butlast (mr_splice p q F G ty rs)) = take p ?b @ [ty]" using tp by simp
    show ?thesis unfolding e successively_append_iff
      using successively_take [OF s(2), of p] F lt by (cases "p = 0") auto
  qed
  then show ?thesis using 1 2 unfolding lvalid_def by (simp add: mr_splice_def)
qed

lemma splice_nth:
  assumes "p \<le> q + 1" "q < length rs"
  shows "length (mr_splice p q F G ty rs) = length rs - q + p + 1"
    "k < p \<Longrightarrow> mr_splice p q F G ty rs ! k = rs ! k"
    "mr_splice p q F G ty rs ! p = (F, ty)"
    "mr_splice p q F G ty rs ! (p + 1) = (G, snd (rs ! q))"
    "q < k \<Longrightarrow> k < length rs \<Longrightarrow> mr_splice p q F G ty rs ! (k - q + p + 1) = rs ! k"
proof -
  have l: "length (take p rs) = p" using assms by simp
  show "length (mr_splice p q F G ty rs) = length rs - q + p + 1" using assms by (simp add: mr_splice_def)
  show "k < p \<Longrightarrow> mr_splice p q F G ty rs ! k = rs ! k" using l by (simp add: mr_splice_def nth_append)
  show "mr_splice p q F G ty rs ! p = (F, ty)" using l by (simp add: mr_splice_def nth_append)
  show "mr_splice p q F G ty rs ! (p + 1) = (G, snd (rs ! q))" using l by (simp add: mr_splice_def nth_append)
  show "q < k \<Longrightarrow> k < length rs \<Longrightarrow> mr_splice p q F G ty rs ! (k - q + p + 1) = rs ! k"
  proof -
    assume k: "q < k" "k < length rs"
    obtain d where d: "k = q + 1 + d" using k(1) by (metis Suc_eq_plus1 Suc_leI le_add_diff_inverse)
    have "k - q + p + 1 = p + (d + 2)" using d by simp
    then show ?thesis using l d k by (simp add: mr_splice_def nth_append)
  qed
qed

lemma splice_ty_at:
  assumes v: "lvalid rs" and pq: "p \<le> q + 1" "q < length rs" "p < length rs"
    and F: "if p = 0 then F = 0 else fst (rs ! (p - 1)) < F \<and> snd (rs ! (p - 1)) \<noteq> ty" and FG: "F < G"
    and Fp: "F \<le> fst (rs ! p)"
    and G: "q + 1 < length rs \<longrightarrow> G < fst (rs ! (q + 1)) \<and> snd (rs ! q) \<noteq> ty" and Gq: "fst (rs ! q) \<le> G"
    and a: "a < fst (last rs)"
  shows "ty_at (mr_splice p q F G ty rs) a = (if F \<le> a \<and> a < G then ty else ty_at rs a)"
proof -
  let ?s = "mr_splice p q F G ty rs"
  note N = splice_nth [OF pq(1,2), where F = F and G = G and ty = ty]
  have sr: "sorted_wrt (<) (map fst rs)" using v by (simp add: lvalid_def)
  have ss: "sorted_wrt (<) (map fst ?s)" using splice_lvalid [OF v pq F FG G] by (simp add: lvalid_def)
  obtain k where k: "range_of rs a k" "k + 1 < length rs" using range_exists [OF v a] by blast
  have kr: "fst (rs ! k) \<le> a" "a < fst (rs ! (k + 1))" "ty_at rs a = snd (rs ! k)"
    using k ty_at_range [OF sr k(1)] by (simp_all add: range_of_def)
  consider "a < F" | "F \<le> a \<and> a < G" | "G \<le> a" by linarith
  then show ?thesis
  proof cases
    case 1
    have kp: "k < p"
    proof (rule ccontr)
      assume "\<not> k < p"
      then have "fst (rs ! p) \<le> fst (rs ! k)" using sorted_addr_le [OF sr, of p k] k(2) by simp
      then show False using 1 Fp kr(1) by simp
    qed
    have "a < fst (?s ! (k + 1))"
    proof (cases "k + 1 < p")
      case True
      then show ?thesis using N(2) kr(2) by simp
    next
      case False
      then have "k + 1 = p" using kp by simp
      then show ?thesis using N(3) 1 by simp
    qed
    then have "range_of ?s a k" using N(1,2) kp kr(1) pq by (simp add: range_of_def)
    then show ?thesis using ty_at_range [OF ss] N(2) kp kr(3) 1 by simp
  next
    case 2
    then have "range_of ?s a p" using N(1,3,4) pq by (simp add: range_of_def)
    then show ?thesis using ty_at_range [OF ss] N(3) 2 by simp
  next
    case 3
    have qk: "q \<le> k"
    proof (rule ccontr)
      assume "\<not> q \<le> k"
      then have "fst (rs ! (k + 1)) \<le> fst (rs ! q)" using sorted_addr_le [OF sr, of "k + 1" q] pq by simp
      then show False using 3 Gq kr(2) by simp
    qed
    let ?k = "k - q + p + 1"
    have "?s ! (?k + 1) = rs ! (k + 1)" using N(5) [of "k + 1"] qk k(2) by (simp add: Suc_diff_le)
    moreover have "fst (?s ! ?k) \<le> a \<and> snd (?s ! ?k) = snd (rs ! k)"
    proof (cases "q = k")
      case True
      then show ?thesis using N(4) 3 by simp
    next
      case False
      then show ?thesis using N(5) [of k] qk k(2) kr(1) by simp
    qed
    ultimately have "range_of ?s a ?k \<and> snd (?s ! ?k) = snd (rs ! k)"
      using N(1) kr(2) k(2) qk pq by (simp add: range_of_def)
    then show ?thesis using ty_at_range [OF ss] kr(3) 3 FG by auto
  qed
qed

lemma splice_last:
  assumes "q < length rs" "q + 1 = length rs \<longrightarrow> G = fst (rs ! q)"
  shows "fst (last (mr_splice p q F G ty rs)) = fst (last rs)"
proof (cases "q + 1 < length rs")
  case True
  then show ?thesis by (simp add: mr_splice_def)
next
  case False
  then have q: "q + 1 = length rs" using assms(1) by simp
  then have "last rs = rs ! q" by (metis add_diff_cancel_right' last_conv_nth list.size(3) add_is_0 zero_neq_one)
  then show ?thesis using assms(2) q by (simp add: mr_splice_def)
qed

subsection \<open>\<^verbatim>\<open>set\<close> splices\<close>

text \<open>The second half of \<open>mr_place\<close>: the right split and the assignment.\<close>

definition mr_finish :: "nat \<Rightarrow> nat \<Rightarrow> nat \<Rightarrow> int \<Rightarrow> nat \<times> nat \<times> memrangeset \<Rightarrow> (bool \<times> memrangeset) option" where
  "mr_finish maxsize first last0 ty = (\<lambda>(i1, j1, m1).
     (case (if last0 \<noteq> mr_addr m1 j1 then map_option (\<lambda>m'. (j1 + 1, m')) (mr_split maxsize j1 last0 m1) else Some (j1, m1)) of
        None \<Rightarrow> None
      | Some (j2, m2) \<Rightarrow> check (mr_addr m2 i1 = first \<and> mr_addr m2 j2 = last0) (Some (True, mr_assign i1 j2 ty m2))))"

lemma mr_place_finish:
  "mr_place maxsize first last0 i j ty m =
     (if mr_n m + (if first \<noteq> mr_addr m i then 1 else 0) + (if last0 \<noteq> mr_addr m j then 1 else 0) > maxsize
      then Some (False, m)
      else if first \<noteq> mr_addr m i then
        (case mr_split maxsize i first m of None \<Rightarrow> None | Some m' \<Rightarrow> mr_finish maxsize first last0 ty (i + 1, j + 1, m'))
      else mr_finish maxsize first last0 ty (i, j, m))"
  by (simp add: mr_place_def mr_finish_def split: option.split)

lemma mr_finish_list:
  assumes len: "length (mr_r m) = maxsize + 1" "mr_n m \<le> maxsize" and ij: "i \<le> j" "j \<le> mr_n m"
    and f: "mr_addr m i = first" "first < last0" and l: "mr_addr m j \<le> last0"
    and sp: "last0 \<noteq> mr_addr m j \<longrightarrow> j < mr_n m \<and> last0 < mr_addr m (j + 1) \<and> mr_n m + 1 \<le> maxsize"
  shows "\<exists>m'. mr_finish maxsize first last0 ty (i, j, m) = Some (True, m') \<and> length (mr_r m') = maxsize + 1
     \<and> mr_list m' = take i (mr_list m) @ (first, ty) # (last0, mr_ty m j) # drop (j + 1) (mr_list m)
     \<and> mr_n m' < maxsize + 1"
proof -
  let ?rs = "mr_list m" and ?n = "mr_n m"
  have lr: "length ?rs = ?n + 1" using len by (simp add: mr_list_length)
  show ?thesis
  proof (cases "last0 = mr_addr m j")
    case True
    then have "i \<noteq> j" using f by auto
    then have lt: "i < j" using ij by simp
    have A: "mr_n (mr_assign i j ty m) = ?n - (j - (i + 1))" "length (mr_r (mr_assign i j ty m)) = maxsize + 1"
      "mr_list (mr_assign i j ty m) = take i ?rs @ (first, ty) # drop j ?rs"
      using mr_assign_list [OF _ lt ij(2), of ty] len f by auto
    have "drop j ?rs = (last0, mr_ty m j) # drop (j + 1) ?rs"
      using Cons_nth_drop_Suc [of j ?rs] lr ij True by (simp add: mr_list_nth)
    then show ?thesis using True f A len(2) by (simp add: mr_finish_def)
  next
    case False
    then have s: "j < ?n" "last0 < mr_addr m (j + 1)" "?n + 1 \<le> maxsize" using sp by auto
    obtain m2 where m2: "mr_split maxsize j last0 m = Some m2" "mr_n m2 = ?n + 1" "length (mr_r m2) = maxsize + 1"
      "mr_list m2 = take (j + 1) ?rs @ (last0, mr_ty m j) # drop (j + 1) ?rs"
      using mr_split_list [OF len(1) s(1,3) _ s(2)] l False by auto
    have tl: "length (take (j + 1) ?rs) = j + 1" using lr s(1) by simp
    have i2: "mr_r m2 ! i = mr_r m ! i"
    proof -
      have "mr_list m2 ! i = ?rs ! i" unfolding m2(4) using tl ij(1) lr s(1) by (simp add: nth_append)
      then show ?thesis using mr_list_nth [of i m2] mr_list_nth [of i m] m2(2) ij by simp
    qed
    have j2: "mr_r m2 ! (j + 1) = (last0, mr_ty m j)"
      using mr_list_nth [of "j + 1" m2] m2(2,4) s(1) tl by (simp add: nth_append)
    have A: "mr_n (mr_assign i (j + 1) ty m2) = ?n + 1 - (j - i)" "length (mr_r (mr_assign i (j + 1) ty m2)) = maxsize + 1"
      "mr_list (mr_assign i (j + 1) ty m2) = take i (mr_list m2) @ (first, ty) # drop (j + 1) (mr_list m2)"
      using mr_assign_list [of m2 i "j + 1" ty] m2 ij s i2 f by auto
    have "take i (mr_list m2) = take i ?rs" using m2(4) tl ij by (simp add: min_absorb1)
    moreover have "drop (j + 1) (mr_list m2) = (last0, mr_ty m j) # drop (j + 1) ?rs" using m2(4) tl by simp
    ultimately show ?thesis using False m2(1) i2 j2 f A s(3) by (simp add: mr_finish_def)
  qed
qed

lemma mr_place_list:
  assumes len: "length (mr_r m) = maxsize + 1" "mr_n m \<le> maxsize" and ij: "i \<le> j" "i < mr_n m" "j \<le> mr_n m"
    and f: "mr_addr m i \<le> first" "first \<noteq> mr_addr m i \<longrightarrow> first < mr_addr m (i + 1)" "first < last0"
    and l: "mr_addr m j \<le> last0" "last0 \<noteq> mr_addr m j \<longrightarrow> j < mr_n m \<and> last0 < mr_addr m (j + 1)"
  shows "mr_place maxsize first last0 i j ty m = Some (False, m)
      \<and> (first \<noteq> mr_addr m i \<or> last0 \<noteq> mr_addr m j) \<and> mr_n m + 2 > maxsize
    \<or> (\<exists>m'. mr_place maxsize first last0 i j ty m = Some (True, m') \<and> length (mr_r m') = maxsize + 1 \<and> mr_n m' \<le> maxsize
       \<and> mr_list m' = mr_splice (if first \<noteq> mr_addr m i then i + 1 else i) j first last0 ty (mr_list m))"
proof (cases "mr_n m + (if first \<noteq> mr_addr m i then 1 else 0) + (if last0 \<noteq> mr_addr m j then 1 else 0) > maxsize")
  case True
  then show ?thesis using len by (auto simp: mr_place_finish split: if_splits)
next
  case room: False
  let ?rs = "mr_list m" and ?n = "mr_n m"
  have lr: "length ?rs = ?n + 1" using len by (simp add: mr_list_length)
  show ?thesis
  proof (cases "first = mr_addr m i")
    case True
    have "last0 \<noteq> mr_addr m j \<longrightarrow> j < ?n \<and> last0 < mr_addr m (j + 1) \<and> ?n + 1 \<le> maxsize"
      using l(2) room True by auto
    from mr_finish_list [OF len ij(1,3) True [symmetric] f(3) l(1) this, of ty] obtain m' where
      m': "mr_finish maxsize first last0 ty (i, j, m) = Some (True, m')" "length (mr_r m') = maxsize + 1"
      "mr_list m' = take i ?rs @ (first, ty) # (last0, mr_ty m j) # drop (j + 1) ?rs" "mr_n m' < maxsize + 1"
      by (elim exE conjE) (rule that)
    have "mr_place maxsize first last0 i j ty m = Some (True, m')" using m'(1) room True by (simp add: mr_place_finish)
    moreover have "mr_list m' = mr_splice (if first \<noteq> mr_addr m i then i + 1 else i) j first last0 ty ?rs"
      using m'(3) True ij(3) by (simp add: mr_splice_def mr_list_nth)
    moreover have "mr_n m' \<le> maxsize" using m'(4) by simp
    ultimately show ?thesis using m'(2) by blast
  next
    case False
    then have lt: "mr_addr m i < first" "first < mr_addr m (i + 1)" "?n + 1 \<le> maxsize" using f room by auto
    obtain m1 where m1: "mr_split maxsize i first m = Some m1" "mr_n m1 = ?n + 1" "length (mr_r m1) = maxsize + 1"
      "mr_list m1 = take (i + 1) ?rs @ (first, mr_ty m i) # drop (i + 1) ?rs"
      using mr_split_list [OF len(1) ij(2) lt(3,1,2)] by auto
    have tl: "length (take (i + 1) ?rs) = i + 1" using lr ij by simp
    have i1: "mr_r m1 ! (i + 1) = (first, mr_ty m i)"
      using mr_list_nth [of "i + 1" m1] m1(2,4) ij tl by (simp add: nth_append)
    have up: "mr_r m1 ! (k + 1) = mr_r m ! k" if "i < k" "k \<le> ?n" for k
    proof -
      have "k = i + 1 + (k - i - 1)" using that by simp
      then obtain d where d: "k = i + 1 + d" ..
      have "\<not> k + 1 < i + 1" "k + 1 - (i + 1) = Suc d" using d by auto
      then have "mr_list m1 ! (k + 1) = drop (i + 1) ?rs ! d" unfolding m1(4) nth_append tl by simp
      also have "\<dots> = ?rs ! (i + 1 + d)" using lr that(2) unfolding d by (intro nth_drop) simp
      finally have "mr_list m1 ! (k + 1) = ?rs ! k" unfolding d .
      then show ?thesis using mr_list_nth [of "k + 1" m1] mr_list_nth [of k m] m1(2) that by simp
    qed
    have tj: "mr_ty m1 (j + 1) = mr_ty m j" using up [of j] i1 ij by (cases "i = j") auto
    have aj: "mr_addr m1 (j + 1) \<le> last0" using up [of j] i1 ij f(3) l(1) by (cases "i = j") auto
    have sp: "last0 \<noteq> mr_addr m1 (j + 1) \<longrightarrow> j + 1 < mr_n m1 \<and> last0 < mr_addr m1 (j + 1 + 1) \<and> mr_n m1 + 1 \<le> maxsize"
    proof
      assume ne: "last0 \<noteq> mr_addr m1 (j + 1)"
      have ne': "last0 \<noteq> mr_addr m j" using ne up [of j] ij f(3) lt(1) by (cases "i = j") auto
      then show "j + 1 < mr_n m1 \<and> last0 < mr_addr m1 (j + 1 + 1) \<and> mr_n m1 + 1 \<le> maxsize"
        using l(2) up [of "j + 1"] ij m1(2) room False by auto
    qed
    have dr: "drop (j + 1 + 1) (mr_list m1) = drop (j + 1) ?rs"
      unfolding m1(4) using tl ij(1) by (simp add: Suc_diff_le)
    have tk: "take (i + 1) (mr_list m1) = take (i + 1) ?rs" unfolding m1(4) using tl by simp
    have n1: "mr_n m1 \<le> maxsize" "i + 1 \<le> j + 1" "j + 1 \<le> mr_n m1" using m1(2) lt(3) ij by auto
    have fa: "mr_addr m1 (i + 1) = first" using i1 by simp
    from mr_finish_list [OF m1(3) n1 fa f(3) aj sp, of ty] obtain m' where
      m': "mr_finish maxsize first last0 ty (i + 1, j + 1, m1) = Some (True, m')" "length (mr_r m') = maxsize + 1"
      "mr_list m' = take (i + 1) ?rs @ (first, ty) # (last0, mr_ty m j) # drop (j + 1) ?rs" "mr_n m' < maxsize + 1"
      unfolding tk tj dr by (elim exE conjE) (rule that)
    have "mr_place maxsize first last0 i j ty m = Some (True, m')" using m'(1) m1(1) room False by (simp add: mr_place_finish)
    moreover have "mr_list m' = mr_splice (if first \<noteq> mr_addr m i then i + 1 else i) j first last0 ty ?rs"
      using m'(3) False ij(3) by (simp add: mr_splice_def mr_list_nth)
    moreover have "mr_n m' \<le> maxsize" using m'(4) by simp
    ultimately show ?thesis using m'(2) by blast
  qed
qed

subsection \<open>The contract of \<^verbatim>\<open>memrangeset\<close>\<close>

lemma mr_inv_list:
  assumes len: "length (mr_r m) = maxsize + 1"
  shows "mr_validate maxsize m \<longleftrightarrow> mr_n m \<le> maxsize \<and> lvalid (mr_list m)"
proof (cases "mr_n m \<le> maxsize")
  case True
  let ?rs = "mr_list m" and ?n = "mr_n m"
  have lr: "length ?rs = ?n + 1" using len True by (simp add: mr_list_length)
  have hd: "fst (hd ?rs) = mr_addr m 0" using mr_list_nth [of 0 m] lr by (cases ?rs) auto
  have s: "sorted_wrt (<) (map fst ?rs) \<longleftrightarrow> (\<forall>i < ?n. mr_addr m i < mr_addr m (i + 1))"
    by (subst sorted_wrt_iff_nth_Suc_transp) (auto simp: lr mr_list_nth)
  have b: "map snd (butlast ?rs) ! i = mr_ty m i" if "i < ?n" for i
    using that lr by (simp add: nth_butlast mr_list_nth)
  have "successively (\<noteq>) (map snd (butlast ?rs)) \<longleftrightarrow> (\<forall>i. Suc i < ?n \<longrightarrow> mr_ty m i \<noteq> mr_ty m (Suc i))"
    using b lr by (simp add: successively_conv_nth)
  also have "\<dots> \<longleftrightarrow> (\<forall>i < ?n. i = 0 \<or> mr_ty m i \<noteq> mr_ty m (i - 1))"
  proof
    assume h: "\<forall>i. Suc i < ?n \<longrightarrow> mr_ty m i \<noteq> mr_ty m (Suc i)"
    show "\<forall>i < ?n. i = 0 \<or> mr_ty m i \<noteq> mr_ty m (i - 1)"
    proof (intro allI impI)
      fix i assume "i < ?n"
      then show "i = 0 \<or> mr_ty m i \<noteq> mr_ty m (i - 1)" using h [rule_format, of "i - 1"] by (cases i) auto
    qed
  next
    assume h: "\<forall>i < ?n. i = 0 \<or> mr_ty m i \<noteq> mr_ty m (i - 1)"
    show "\<forall>i. Suc i < ?n \<longrightarrow> mr_ty m i \<noteq> mr_ty m (Suc i)"
    proof (intro allI impI)
      fix i assume "Suc i < ?n"
      then show "mr_ty m i \<noteq> mr_ty m (Suc i)" using h [rule_format, of "Suc i"] by simp
    qed
  qed
  finally have t: "successively (\<noteq>) (map snd (butlast ?rs)) \<longleftrightarrow> (\<forall>i < ?n. i = 0 \<or> mr_ty m i \<noteq> mr_ty m (i - 1))" .
  have "mr_validate maxsize m \<longleftrightarrow> 0 < ?n \<and> ?n \<le> maxsize \<and> mr_addr m 0 = 0
      \<and> (\<forall>i < ?n. mr_addr m i < mr_addr m (i + 1)) \<and> (\<forall>i < ?n. i = 0 \<or> mr_ty m i \<noteq> mr_ty m (i - 1))"
    unfolding mr_validate_def ball_upt_conj ..
  moreover have "2 \<le> length ?rs \<longleftrightarrow> 0 < ?n" using lr by auto
  ultimately show ?thesis unfolding lvalid_def t s hd using True by blast
qed (simp add: mr_validate_def)

lemma mr_invD:
  assumes "mr_inv maxsize m"
  shows "length (mr_r m) = maxsize + 1" "mr_n m \<le> maxsize" "0 < mr_n m" "lvalid (mr_list m)" "length (mr_list m) = mr_n m + 1"
    "fst (last (mr_list m)) = mr_limit m"
proof -
  show l: "length (mr_r m) = maxsize + 1" using assms by (simp add: mr_inv_def)
  show n: "mr_n m \<le> maxsize" "lvalid (mr_list m)" using assms mr_inv_list [OF l] by (simp_all add: mr_inv_def)
  show "0 < mr_n m" using assms by (simp add: mr_inv_def mr_validate_def)
  show e: "length (mr_list m) = mr_n m + 1" using l n by (simp add: mr_list_length)
  then have "last (mr_list m) = mr_list m ! mr_n m" by (metis add_diff_cancel_right' last_conv_nth list.size(3) add_is_0 zero_neq_one)
  then show "fst (last (mr_list m)) = mr_limit m" by (simp add: mr_list_nth mr_limit_def)
qed

lemma mr_find_from_range:
  assumes "i \<le> k" "k \<le> mr_n m" "\<And>x. i < x \<Longrightarrow> x \<le> k \<Longrightarrow> mr_addr m x \<le> a"
    "k < mr_n m \<Longrightarrow> a < mr_addr m (k + 1)"
  shows "mr_find_from m a i = k"
  using assms
proof (induction "k - i" arbitrary: i)
  case 0
  then show ?case by (subst mr_find_from.simps) auto
next
  case (Suc d)
  then have "i < k" by linarith
  then have "mr_find_from m a i = mr_find_from m a (i + 1)" using Suc.prems by (subst mr_find_from.simps) simp
  also have "\<dots> = k" using Suc.hyps(1) [of "i + 1"] Suc.hyps(2) Suc.prems \<open>i < k\<close> by simp
  finally show ?case .
qed

lemma mr_lower_range:
  assumes "i \<le> k" "k + 1 < length (mr_r m)" "\<And>x. i < x \<Longrightarrow> x \<le> k \<Longrightarrow> mr_addr m x \<le> a" "a < mr_addr m (k + 1)"
  shows "mr_lower m a i = Some k"
  using assms
proof (induction "k - i" arbitrary: i)
  case 0
  then show ?case by (subst mr_lower.simps) auto
next
  case (Suc d)
  then have "i < k" by linarith
  then have "mr_lower m a i = mr_lower m a (i + 1)" using Suc.prems by (subst mr_lower.simps) simp
  also have "\<dots> = Some k" using Suc.hyps(1) [of "i + 1"] Suc.hyps(2) Suc.prems \<open>i < k\<close> by simp
  finally show ?case .
qed

lemma mr_sorted_le:
  assumes "mr_inv maxsize m" "i \<le> j" "j \<le> mr_n m"
  shows "mr_addr m i \<le> mr_addr m j"
  using sorted_addr_le [of "mr_list m" i j] mr_invD(4,5) [OF assms(1)] assms(2,3)
  by (simp add: lvalid_def mr_list_nth)

lemma mr_sorted_less:
  assumes "mr_inv maxsize m" "i < j" "j \<le> mr_n m"
  shows "mr_addr m i < mr_addr m j"
  using sorted_addr [of "mr_list m" i j] mr_invD(4,5) [OF assms(1)] assms(2,3)
  by (simp add: lvalid_def mr_list_nth)

lemma mr_adjacent: "mr_inv maxsize m \<Longrightarrow> i + 1 < mr_n m \<Longrightarrow> mr_ty m i \<noteq> mr_ty m (i + 1)"
  unfolding mr_inv_def mr_validate_def by (metis add_diff_cancel_right' add_is_0 atLeastLessThan_iff set_upt zero_le zero_neq_one)

lemma mr_range_of:
  assumes "mr_inv maxsize m" "a < mr_limit m"
  shows "\<exists>k < mr_n m. mr_addr m k \<le> a \<and> a < mr_addr m (k + 1)"
proof -
  note I = mr_invD [OF assms(1)]
  obtain k where "range_of (mr_list m) a k" "k + 1 < length (mr_list m)" using range_exists [OF I(4)] assms(2) I(6) by auto
  then show ?thesis using I(5) by (intro exI [of _ k]) (simp add: range_of_def mr_list_nth)
qed

lemma mr_ty_at_range:
  assumes "mr_inv maxsize m" "k < mr_n m" "mr_addr m k \<le> a" "a < mr_addr m (k + 1)"
  shows "ty_at (mr_list m) a = mr_ty m k"
proof -
  note I = mr_invD [OF assms(1)]
  have "range_of (mr_list m) a k" using assms I(5) by (simp add: range_of_def mr_list_nth)
  then show ?thesis using ty_at_range [of "mr_list m" a k] I(4) assms(2) by (simp add: lvalid_def mr_list_nth)
qed

lemma mr_type_ty_at:
  assumes inv: "mr_inv maxsize m" and a: "a < mr_limit m"
  shows "mr_type m a = Some (ty_at (mr_list m) a)"
proof -
  obtain k where k: "k < mr_n m" "mr_addr m k \<le> a" "a < mr_addr m (k + 1)" using mr_range_of [OF assms] by blast
  have "mr_addr m x \<le> a" if "x \<le> k" for x using mr_sorted_le [OF inv that] k by simp
  then have "mr_find m a = k" unfolding mr_find_def using k by (intro mr_find_from_range) auto
  then show ?thesis using k mr_ty_at_range [OF inv k] by (simp add: mr_type_def)
qed

text \<open>The bounds \<^verbatim>\<open>set\<close> computes satisfy what the splice needs.\<close>

lemma mr_splice_ok:
  assumes inv: "mr_inv maxsize m" and len: "length (mr_r m') = maxsize + 1" "mr_n m' \<le> maxsize"
    and l: "mr_list m' = mr_splice p q F G ty (mr_list m)"
    and pq: "p \<le> q + 1" "q \<le> mr_n m" "p \<le> mr_n m"
    and F: "if p = 0 then F = 0 else mr_addr m (p - 1) < F \<and> mr_ty m (p - 1) \<noteq> ty" and FG: "F < G" and Fp: "F \<le> mr_addr m p"
    and G: "q < mr_n m \<longrightarrow> G < mr_addr m (q + 1) \<and> mr_ty m q \<noteq> ty" and Gq: "mr_addr m q \<le> G" "q = mr_n m \<longrightarrow> G = mr_addr m q"
    and same: "\<forall>a. (F \<le> a \<and> a < first \<or> last0 \<le> a \<and> a < G) \<longrightarrow> ty_at (mr_list m) a = ty"
    and b: "F \<le> first" "last0 \<le> G" "first < last0"
  shows "mr_inv maxsize m' \<and> mr_limit m' = mr_limit m
    \<and> (\<forall>a < mr_limit m. mr_type m' a = Some (if first \<le> a \<and> a < last0 then ty else the (mr_type m a)))"
proof -
  note I = mr_invD [OF inv]
  let ?rs = "mr_list m"
  have pq': "p \<le> q + 1" "q < length ?rs" "p < length ?rs" using pq I(5) by auto
  have F': "if p = 0 then F = 0 else fst (?rs ! (p - 1)) < F \<and> snd (?rs ! (p - 1)) \<noteq> ty"
    using F pq by (cases "p = 0") (simp_all add: mr_list_nth)
  have G': "q + 1 < length ?rs \<longrightarrow> G < fst (?rs ! (q + 1)) \<and> snd (?rs ! q) \<noteq> ty"
    using G I(5) by (simp add: mr_list_nth)
  have Fp': "F \<le> fst (?rs ! p)" "fst (?rs ! q) \<le> G" using Fp Gq pq by (simp_all add: mr_list_nth)
  have "lvalid (mr_list m')" unfolding l by (rule splice_lvalid [OF I(4) pq' F' FG G'])
  then have inv': "mr_inv maxsize m'" using len mr_inv_list by (simp add: mr_inv_def)
  have lim: "mr_limit m' = mr_limit m"
    using splice_last [OF pq'(2), of G p F ty] Gq(2) pq(2) I(5,6) mr_invD(6) [OF inv'] l by (simp add: mr_list_nth)
  have "mr_type m' a = Some (if first \<le> a \<and> a < last0 then ty else the (mr_type m a))" if a: "a < mr_limit m" for a
  proof -
    have a': "a < fst (last ?rs)" "a < mr_limit m'" using a I(6) lim by simp_all
    have "mr_type m' a = Some (if F \<le> a \<and> a < G then ty else ty_at ?rs a)"
      using mr_type_ty_at [OF inv' a'(2)] splice_ty_at [OF I(4) pq' F' FG Fp'(1) G' Fp'(2) a'(1)] l by simp
    moreover have "mr_type m a = Some (ty_at ?rs a)" by (rule mr_type_ty_at [OF inv a])
    moreover have "(if F \<le> a \<and> a < G then ty else ty_at ?rs a) = (if first \<le> a \<and> a < last0 then ty else ty_at ?rs a)"
      using same [rule_format, of a] b by auto
    ultimately show ?thesis by simp
  qed
  then show ?thesis using inv' lim by blast
qed

text \<open>The lower bound: \<^verbatim>\<open>i\<close> and \<^verbatim>\<open>first\<close> after consolidation.\<close>

lemma mr_lower_bound:
  fixes ty :: int and first :: nat
  assumes inv: "mr_inv maxsize m" and i0: "i0 < mr_n m" "mr_addr m i0 \<le> first" "first < mr_addr m (i0 + 1)"
  defines "i \<equiv> (if first = mr_addr m i0 \<and> i0 > 0 \<and> mr_ty m (i0 - 1) = ty then i0 - 1 else i0)"
  defines "F \<equiv> (if mr_ty m i = ty then mr_addr m i else first)"
  defines "p \<equiv> (if F \<noteq> mr_addr m i then i + 1 else i)"
  shows "i < mr_n m" "mr_addr m i \<le> F" "F \<le> first" "F \<noteq> mr_addr m i \<longrightarrow> F < mr_addr m (i + 1)"
    "if p = 0 then F = 0 else mr_addr m (p - 1) < F \<and> mr_ty m (p - 1) \<noteq> ty" "p \<le> mr_n m" "F \<le> mr_addr m p" "p \<le> i + 1"
    "F \<le> a \<Longrightarrow> a < first \<Longrightarrow> ty_at (mr_list m) a = ty"
proof -
  have z: "mr_addr m 0 = 0" using inv by (simp add: mr_inv_def mr_validate_def)
  show i: "i < mr_n m" using i0 by (auto simp: i_def)
  have ai: "mr_addr m i \<le> first" using i0(2) mr_sorted_le [OF inv, of "i0 - 1" i0] i0(1) by (auto simp: i_def)
  have fi: "first \<le> mr_addr m (i + 1)" "i = i0 \<longrightarrow> first < mr_addr m (i + 1)" using i0(3) by (auto simp: i_def)
  have ti: "i \<noteq> i0 \<longrightarrow> mr_ty m i = ty" by (auto simp: i_def)
  show F1: "mr_addr m i \<le> F" "F \<le> first" using ai by (auto simp: F_def)
  have Fi: "F \<noteq> mr_addr m i \<longrightarrow> F = first \<and> mr_ty m i \<noteq> ty \<and> i = i0" using ti by (auto simp: F_def)
  then show "F \<noteq> mr_addr m i \<longrightarrow> F < mr_addr m (i + 1)" using fi by auto
  show "p \<le> mr_n m" "p \<le> i + 1" using i by (auto simp: p_def)
  show "F \<le> mr_addr m p" using Fi fi(1) by (auto simp: p_def)
  show "if p = 0 then F = 0 else mr_addr m (p - 1) < F \<and> mr_ty m (p - 1) \<noteq> ty"
  proof (cases "F = mr_addr m i")
    case False
    then have "mr_ty m i \<noteq> ty" "mr_addr m i < F" "p = i + 1" using Fi F1(1) by (auto simp: p_def)
    then show ?thesis by simp
  next
    case True
    then have p: "p = i" by (simp add: p_def)
    show ?thesis
    proof (cases "i = 0")
      case True
      then show ?thesis using p \<open>F = mr_addr m i\<close> z by simp
    next
      case False
      have "mr_addr m (i - 1) < F" using mr_sorted_less [OF inv, of "i - 1" i] False i True by simp
      moreover have "mr_ty m (i - 1) \<noteq> ty"
      proof (cases "mr_ty m i = ty")
        case True
        then show ?thesis using mr_adjacent [OF inv, of "i - 1"] False i by simp
      next
        case False
        then have "i = i0" "first = mr_addr m i0" using ti True by (auto simp: F_def)
        then show ?thesis using \<open>i \<noteq> 0\<close> by (auto simp: i_def split: if_splits)
      qed
      ultimately show ?thesis using p False by simp
    qed
  qed
  show "ty_at (mr_list m) a = ty" if "F \<le> a" "a < first"
  proof -
    have "F \<noteq> first" using that by simp
    then have t: "mr_ty m i = ty" "F = mr_addr m i" by (auto simp: F_def split: if_splits)
    then show ?thesis using mr_ty_at_range [OF inv i, of a] that fi(1) by simp
  qed
qed

definition mr_set_ok :: "nat \<Rightarrow> nat \<Rightarrow> nat \<Rightarrow> int \<Rightarrow> memrangeset \<Rightarrow> (bool \<times> memrangeset) option \<Rightarrow> bool" where
  "mr_set_ok maxsize first last0 ty m r \<longleftrightarrow> (\<exists>m'. (r = Some (False, m) \<and> mr_n m + 2 > maxsize)
     \<or> r = Some (True, m') \<and> mr_inv maxsize m' \<and> mr_limit m' = mr_limit m
       \<and> (\<forall>a < mr_limit m. mr_type m' a = Some (if first \<le> a \<and> a < last0 then ty else the (mr_type m a))))"

lemma mr_set_ok_place:
  assumes "r = Some (False, m) \<and> c \<and> mr_n m + 2 > maxsize
      \<or> (\<exists>m'. r = Some (True, m') \<and> length (mr_r m') = maxsize + 1 \<and> mr_n m' \<le> maxsize \<and> mr_list m' = l)"
    and "\<And>m'. length (mr_r m') = maxsize + 1 \<Longrightarrow> mr_n m' \<le> maxsize \<Longrightarrow> mr_list m' = l \<Longrightarrow>
      mr_inv maxsize m' \<and> mr_limit m' = mr_limit m
      \<and> (\<forall>a < mr_limit m. mr_type m' a = Some (if first \<le> a \<and> a < last0 then ty else the (mr_type m a)))"
  shows "mr_set_ok maxsize first last0 ty m r"
  using assms(1)
proof
  assume "\<exists>m'. r = Some (True, m') \<and> length (mr_r m') = maxsize + 1 \<and> mr_n m' \<le> maxsize \<and> mr_list m' = l"
  then obtain m' where m': "r = Some (True, m')" "length (mr_r m') = maxsize + 1" "mr_n m' \<le> maxsize" "mr_list m' = l"
    by blast
  show ?thesis unfolding mr_set_ok_def using m'(1) assms(2) [OF m'(2-4)] by (intro exI [of _ m'] disjI2 conjI) simp_all
qed (simp add: mr_set_ok_def)

lemma mr_set_nonempty:
  assumes inv: "mr_inv maxsize m" and fl: "first < last0" "last0 \<le> mr_limit m"
  shows "mr_set_ok maxsize first last0 ty m (mr_set maxsize first last0 ty m)"
proof -
  note I = mr_invD [OF inv]
  let ?n = "mr_n m"
  obtain i0 where i0: "i0 < ?n" "mr_addr m i0 \<le> first" "first < mr_addr m (i0 + 1)"
    using mr_range_of [OF inv, of first] fl by auto
  have "mr_addr m x \<le> first" if "x \<le> i0" for x using mr_sorted_le [OF inv that] i0 by simp
  then have lo: "mr_lower m first 0 = Some i0" using i0 I(1,2) by (intro mr_lower_range) auto
  define i where "i = (if first = mr_addr m i0 \<and> i0 > 0 \<and> mr_ty m (i0 - 1) = ty then i0 - 1 else i0)"
  define F where "F = (if mr_ty m i = ty then mr_addr m i else first)"
  define p where "p = (if F \<noteq> mr_addr m i then i + 1 else i)"
  note B = mr_lower_bound [OF inv i0, of ty, folded i_def, folded F_def, folded p_def]
  have lim: "mr_limit m = mr_addr m ?n" by (simp add: mr_limit_def)
  obtain j where j: "i \<le> j" "j \<le> ?n" "mr_addr m j \<le> last0" "j < ?n \<longrightarrow> last0 < mr_addr m (j + 1)" "mr_upper m last0 i = j"
  proof (cases "last0 = mr_limit m")
    case True
    then have "mr_addr m x \<le> last0" if "x \<le> ?n" for x using mr_sorted_le [OF inv that] lim by simp
    then have "mr_find_from m last0 i = ?n" using B(1) by (intro mr_find_from_range) auto
    then show ?thesis using that [of ?n] B(1) True lim by (simp add: mr_upper_def)
  next
    case False
    then obtain k where k: "k < ?n" "mr_addr m k \<le> last0" "last0 < mr_addr m (k + 1)"
      using mr_range_of [OF inv, of last0] fl by auto
    have "i \<le> k"
    proof (rule ccontr)
      assume "\<not> i \<le> k"
      then have "mr_addr m (k + 1) \<le> mr_addr m i" using mr_sorted_le [OF inv, of "k + 1" i] B(1) by simp
      then show False using k(3) B(2,3) fl(1) by linarith
    qed
    moreover have "mr_addr m x \<le> last0" if "x \<le> k" for x using mr_sorted_le [OF inv that] k by simp
    ultimately have "mr_find_from m last0 i = k" using k by (intro mr_find_from_range) auto
    then show ?thesis using that [of k] k \<open>i \<le> k\<close> by (simp add: mr_upper_def)
  qed
  have jn: "j = ?n \<longrightarrow> last0 = mr_addr m j" using j(3) fl(2) lim by auto
  have e: "mr_set maxsize first last0 ty m =
      (if j < ?n \<and> mr_ty m j = ty then mr_place maxsize F (mr_addr m (j + 1)) i (j + 1) ty m
       else if j > i \<and> F = mr_addr m i then
         mr_place maxsize F last0 i j ty (m\<lparr>mr_r := (mr_r m)[j := (last0, mr_ty m j)]\<rparr>)
       else mr_place maxsize F last0 i j ty m)"
  proof -
    have c: "first \<le> last0 \<and> last0 \<le> mr_addr m ?n" "first \<noteq> last0" using fl lim by auto
    have "mr_set maxsize first last0 ty m = mr_set_upper maxsize F last0 i ty m"
      unfolding mr_set_def lo option.case Let_def i_def [symmetric] F_def [symmetric] using c i0 by simp
    moreover have "j \<le> ?n \<and> last0 \<ge> mr_addr m j \<and> (j = ?n \<or> last0 < mr_addr m (j + 1))" using j by auto
    ultimately show ?thesis unfolding mr_set_upper_def Let_def j(5) by simp
  qed
  have Fl: "F < last0" using B(3) fl(1) by simp
  show ?thesis
  proof (cases "j < ?n \<and> mr_ty m j = ty")
    case True
    let ?G = "mr_addr m (j + 1)"
    have lt: "last0 < ?G" using True j(4) by simp
    have FG: "F < ?G" using Fl lt by simp
    have ij: "i \<le> j + 1" "j + 1 \<le> ?n" "p \<le> (j + 1) + 1" using j(1) B(8) True by auto
    have nx: "j + 1 < ?n \<longrightarrow> ?G < mr_addr m (j + 1 + 1) \<and> mr_ty m (j + 1) \<noteq> ty"
      using mr_sorted_less [OF inv, of "j + 1" "j + 1 + 1"] mr_adjacent [OF inv, of j] True by auto
    have same: "\<forall>a. (F \<le> a \<and> a < first \<or> last0 \<le> a \<and> a < ?G) \<longrightarrow> ty_at (mr_list m) a = ty"
      using B(9) mr_ty_at_range [OF inv, of j] True j(3) by (metis order_trans)
    have sp: "?G \<noteq> ?G \<longrightarrow> j + 1 < ?n \<and> ?G < mr_addr m (j + 1 + 1)" by simp
    have r: "mr_set maxsize first last0 ty m = mr_place maxsize F ?G i (j + 1) ty m" using e True by simp
    show ?thesis unfolding r
    proof (rule mr_set_ok_place [OF mr_place_list [OF I(1,2) ij(1) B(1) ij(2) B(2,4) FG order_refl sp, of ty, folded p_def]])
      fix m' assume "length (mr_r m') = maxsize + 1" "mr_n m' \<le> maxsize" "mr_list m' = mr_splice p (j + 1) F ?G ty (mr_list m)"
      from mr_splice_ok [OF inv this ij(3,2) B(6,5) FG B(7) nx order_refl _ same B(3) _ fl(1)] lt
      show "mr_inv maxsize m' \<and> mr_limit m' = mr_limit m
        \<and> (\<forall>a < mr_limit m. mr_type m' a = Some (if first \<le> a \<and> a < last0 then ty else the (mr_type m a)))" by simp
    qed
  next
    case False
    then have nx: "j < ?n \<longrightarrow> last0 < mr_addr m (j + 1) \<and> mr_ty m j \<noteq> ty" using j(4) by simp
    have pj: "p \<le> j + 1" using B(8) j(1) by simp
    have same: "\<forall>a. (F \<le> a \<and> a < first \<or> last0 \<le> a \<and> a < last0) \<longrightarrow> ty_at (mr_list m) a = ty"
      using B(9) by auto
    note ok = mr_splice_ok [OF inv _ _ _ pj j(2) B(6,5) Fl B(7) nx j(3) jn same B(3) order_refl fl(1)]
    show ?thesis
    proof (cases "j > i \<and> F = mr_addr m i")
      case True
      let ?m = "m\<lparr>mr_r := (mr_r m)[j := (last0, mr_ty m j)]\<rparr>"
      have ai: "mr_addr ?m i = mr_addr m i" "mr_addr ?m j = last0" using True j(2) I(1,2) by auto
      have le: "length (mr_r ?m) = maxsize + 1" "mr_n ?m \<le> maxsize" "i < mr_n ?m" "j \<le> mr_n ?m"
        using I(1,2) B(1) j(2) by auto
      have pi: "p = i" using True by (simp add: p_def)
      have ml: "mr_list ?m = (mr_list m)[j := (last0, mr_ty m j)]" using j(2) by (simp add: mr_list_def take_update_swap)
      have "mr_splice i j F last0 ty (mr_list ?m) = mr_splice i j F last0 ty (mr_list m)"
        unfolding ml mr_splice_def using True j(2) I(5) by (simp add: take_update_cancel drop_update_cancel mr_list_nth)
      moreover from mr_place_list [OF le(1,2) j(1) le(3,4), of F last0 ty] obtain m' where
        "mr_place maxsize F last0 i j ty ?m = Some (True, m')" "length (mr_r m') = maxsize + 1" "mr_n m' \<le> maxsize"
        "mr_list m' = mr_splice i j F last0 ty (mr_list ?m)"
        using ai True Fl by auto
      ultimately have m': "mr_set maxsize first last0 ty m = Some (True, m')" "length (mr_r m') = maxsize + 1" "mr_n m' \<le> maxsize"
        "mr_list m' = mr_splice p j F last0 ty (mr_list m)" using pi e False True by auto
      show ?thesis unfolding mr_set_ok_def m'(1) using ok [OF m'(2-4)] by (intro exI [of _ m'] disjI2 conjI) simp_all
    next
      case nB: False
      have sp: "last0 \<noteq> mr_addr m j \<longrightarrow> j < ?n \<and> last0 < mr_addr m (j + 1)" 
        using jn j(2,4) by (metis le_neq_implies_less)
      have r: "mr_set maxsize first last0 ty m = mr_place maxsize F last0 i j ty m" using e False nB by auto
      show ?thesis unfolding r
        by (rule mr_set_ok_place [OF mr_place_list [OF I(1,2) j(1) B(1) j(2) B(2,4) Fl j(3) sp, of ty, folded p_def] ok])
    qed
  qed
qed

text \<open>
  C15. \<^verbatim>\<open>memrangeset::set\<close> updates the map from addresses to types on exactly the given range: its search
  loops stay inside the array, no assertion of \<^verbatim>\<open>set\<close> or \<^verbatim>\<open>split\<close> fails, the array stays valid (sorted,
  with different types in adjacent ranges) and the limit is kept. It returns false, and changes
  nothing, only when fewer than two array slots are left.
\<close>

theorem mr_set_correct:
  assumes "mr_inv maxsize m" "first \<le> last0" "last0 \<le> mr_limit m"
  shows "\<exists>ok m'. mr_set maxsize first last0 ty m = Some (ok, m') \<and> mr_inv maxsize m' \<and> mr_limit m' = mr_limit m
    \<and> (if ok then \<forall>a < mr_limit m. mr_type m' a = Some (if first \<le> a \<and> a < last0 then ty else the (mr_type m a))
       else m' = m \<and> mr_n m + 2 > maxsize)"
proof (cases "first = last0")
  case True
  have "mr_set maxsize first last0 ty m = Some (True, m)"
    using True assms(3) by (simp add: mr_set_def mr_limit_def)
  then show ?thesis using assms True mr_type_ty_at [OF assms(1)] by auto
next
  case False
  then have "mr_set_ok maxsize first last0 ty m (mr_set maxsize first last0 ty m)"
    using mr_set_nonempty assms by simp
  then show ?thesis using assms(1) unfolding mr_set_ok_def by auto
qed

lemma mr_new_inv: "mr_inv 16 (mr_new 16 2097152)" "mr_limit (mr_new 16 2097152) = 2097152"
  by (simp_all add: mr_inv_def mr_validate_def mr_new_def mr_limit_def)

theorem mr_set_correct_witness:
  "\<exists>ok m'. mr_set 16 4096 8192 3 (mr_new 16 2097152) = Some (ok, m') \<and> ok \<and> mr_inv 16 m'
     \<and> mr_type m' 5000 = Some 3"
proof -
  have "4096 \<le> (8192::nat)" "8192 \<le> mr_limit (mr_new 16 2097152)" using mr_new_inv(2) by simp_all
  from mr_set_correct [OF mr_new_inv(1) this, of 3] obtain ok m' where
    m: "mr_set 16 4096 8192 3 (mr_new 16 2097152) = Some (ok, m')" "mr_inv 16 m'"
      "if ok then \<forall>a < 2097152. mr_type m' a = Some (if 4096 \<le> a \<and> a < 8192 then 3 else the (mr_type (mr_new 16 2097152) a))
       else m' = mr_new 16 2097152 \<and> mr_n (mr_new 16 2097152) + 2 > 16"
    unfolding mr_new_inv(2) by (elim exE conjE) (rule that)
  have "mr_n (mr_new 16 2097152) = 1" by (simp add: mr_new_def)
  then have ok: "ok" using m(3) by (auto split: if_splits)
  then have "mr_type m' 5000 = Some 3" using m(3) by simp
  then show ?thesis using m ok by auto
qed

end
