(* ===== verification/CMem.thy ===== *)
theory CMem
  imports Prelude
begin

text \<open>
  The memory and string functions of \<^verbatim>\<open>lib.cc\<close> over a byte-addressed memory. A pointer is an address;
  the loops are the loops of the code. A string function that could run past the end of memory
  when no NUL follows is a partial function, \<open>None\<close> being the loop that never ends; the theorems
  show that it returns on every C string. Shown: \<^verbatim>\<open>memmove\<close> copies correctly for every overlap, and
  the string functions compute what their names promise.
\<close>

type_synonym mem = "nat \<Rightarrow> u8"

fun memcpy :: "mem \<Rightarrow> nat \<Rightarrow> nat \<Rightarrow> nat \<Rightarrow> mem" where
  "memcpy m d s 0 = m"
| "memcpy m d s (Suc n) = memcpy (m(d := m s)) (d + 1) (s + 1) n"

fun move_backward :: "mem \<Rightarrow> nat \<Rightarrow> nat \<Rightarrow> nat \<Rightarrow> mem" where
  "move_backward m d s 0 = m"
| "move_backward m d s (Suc n) = move_backward (m(d - 1 := m (s - 1))) (d - 1) (s - 1) n"

fun move_forward :: "mem \<Rightarrow> nat \<Rightarrow> nat \<Rightarrow> nat \<Rightarrow> mem" where
  "move_forward m d s 0 = m"
| "move_forward m d s (Suc n) = move_forward (m(d := m s)) (d + 1) (s + 1) n"

definition memmove :: "mem \<Rightarrow> nat \<Rightarrow> nat \<Rightarrow> nat \<Rightarrow> mem" where
  "memmove m dst src n =
     (if src < dst \<and> src + n > dst then move_backward m (dst + n) (src + n) n else move_forward m dst src n)"

fun memset :: "mem \<Rightarrow> nat \<Rightarrow> int \<Rightarrow> nat \<Rightarrow> mem" where
  "memset m p c 0 = m"
| "memset m p c (Suc n) = memset (m(p := of_int c)) (p + 1) c n"

text \<open>\<^verbatim>\<open>(x > y) - (x < y)\<close>\<close>

definition cmp3 :: "u8 \<Rightarrow> u8 \<Rightarrow> int" where
  "cmp3 x y = (if x > y then 1 else 0) - (if x < y then 1 else 0)"

fun memcmp :: "mem \<Rightarrow> nat \<Rightarrow> nat \<Rightarrow> nat \<Rightarrow> int" where
  "memcmp m a b 0 = 0"
| "memcmp m a b (Suc n) = (if m a \<noteq> m b then cmp3 (m a) (m b) else memcmp m (a + 1) (b + 1) n)"

fun memchr :: "mem \<Rightarrow> nat \<Rightarrow> int \<Rightarrow> nat \<Rightarrow> nat option" where
  "memchr m s c 0 = None"
| "memchr m s c (Suc n) = (if m s = of_int c then Some s else memchr m (s + 1) c n)"

partial_function (option) strlen_from :: "mem \<Rightarrow> nat \<Rightarrow> nat \<Rightarrow> nat option" where
  "strlen_from m s n = (if m s \<noteq> 0 then strlen_from m (s + 1) (n + 1) else Some n)"

definition strlen :: "mem \<Rightarrow> nat \<Rightarrow> nat option" where
  "strlen m s = strlen_from m s 0"

fun strnlen :: "mem \<Rightarrow> nat \<Rightarrow> nat \<Rightarrow> nat" where
  "strnlen m s 0 = 0"
| "strnlen m s (Suc maxlen) = (if m s \<noteq> 0 then Suc (strnlen m (s + 1) maxlen) else 0)"

partial_function (option) strcpy_loop :: "mem \<Rightarrow> nat \<Rightarrow> nat \<Rightarrow> mem option" where
  "strcpy_loop m d src =
     (let m' = m(d := m src) in if m' d \<noteq> 0 then strcpy_loop m' (d + 1) (src + 1) else Some m')"

definition strcpy :: "mem \<Rightarrow> nat \<Rightarrow> nat \<Rightarrow> mem option" where
  "strcpy m dst src = strcpy_loop m dst src"

fun strncpy :: "mem \<Rightarrow> nat \<Rightarrow> nat \<Rightarrow> nat \<Rightarrow> mem" where
  "strncpy m d src 0 = m"
| "strncpy m d src (Suc maxlen) =
     (if m src \<noteq> 0 then strncpy (m(d := m src)) (d + 1) (src + 1) maxlen
      else memset m d 0 (Suc maxlen))"

text \<open>The character traits of \<^verbatim>\<open>lib.hh\<close>; \<^verbatim>\<open>unsigned(c) - unsigned('0')\<close> wraps.\<close>

definition isspace :: "int \<Rightarrow> bool" where
  "isspace c = ((9 \<le> c \<and> c \<le> 13) \<or> c = 32)"

definition isdigit :: "int \<Rightarrow> bool" where
  "isdigit c = (of_int c - 48 < (10 :: u32))"

definition islower :: "int \<Rightarrow> bool" where
  "islower c = (of_int c - 97 < (26 :: u32))"

definition isupper :: "int \<Rightarrow> bool" where
  "isupper c = (of_int c - 65 < (26 :: u32))"

definition tolower :: "int \<Rightarrow> int" where
  "tolower c = (if isupper c then c + (97 - 65) else c)"

definition toupper :: "int \<Rightarrow> int" where
  "toupper c = (if islower c then c + (65 - 97) else c)"

text \<open>The comparisons, by the characters the loop looks at.\<close>

partial_function (option) cmp_loop :: "(u8 \<Rightarrow> u8) \<Rightarrow> mem \<Rightarrow> nat \<Rightarrow> nat \<Rightarrow> int option" where
  "cmp_loop f m a b =
     (let ac = f (m a); bc = f (m b) in
      if ac = 0 \<or> bc = 0 \<or> ac \<noteq> bc then Some (cmp3 ac bc) else cmp_loop f m (a + 1) (b + 1))"

function ncmp_loop :: "(u8 \<Rightarrow> u8) \<Rightarrow> mem \<Rightarrow> nat \<Rightarrow> nat \<Rightarrow> nat \<Rightarrow> int" where
  "ncmp_loop f m a b n =
     (let ac = (if n \<noteq> 0 then f (m a) else 0); bc = (if n \<noteq> 0 then f (m b) else 0) in
      if ac = 0 \<or> bc = 0 \<or> ac \<noteq> bc then cmp3 ac bc else ncmp_loop f m (a + 1) (b + 1) (n - 1))"
  by pat_completeness auto
termination
  by (relation "measure (\<lambda>(f, m, a, b, n). n)") (auto split: if_splits)

declare ncmp_loop.simps [simp del]

definition strcmp :: "mem \<Rightarrow> nat \<Rightarrow> nat \<Rightarrow> int option" where
  "strcmp = cmp_loop (\<lambda>c. c)"

definition strncmp :: "mem \<Rightarrow> nat \<Rightarrow> nat \<Rightarrow> nat \<Rightarrow> int" where
  "strncmp = ncmp_loop (\<lambda>c. c)"

definition lower8 :: "u8 \<Rightarrow> u8" where
  "lower8 c = of_int (tolower (uint c))"

definition strcasecmp :: "mem \<Rightarrow> nat \<Rightarrow> nat \<Rightarrow> int option" where
  "strcasecmp = cmp_loop lower8"

definition strncasecmp :: "mem \<Rightarrow> nat \<Rightarrow> nat \<Rightarrow> nat \<Rightarrow> int" where
  "strncasecmp = ncmp_loop lower8"

partial_function (option) strchr_scan :: "mem \<Rightarrow> nat \<Rightarrow> u8 \<Rightarrow> nat option" where
  "strchr_scan m s c = (if m s \<noteq> 0 \<and> m s \<noteq> c then strchr_scan m (s + 1) c else Some s)"

definition strchr :: "mem \<Rightarrow> nat \<Rightarrow> int \<Rightarrow> nat option option" where
  "strchr m s c = map_option (\<lambda>p. if m p = of_int c then Some p else None) (strchr_scan m s (of_int c))"

subsection \<open>Copies\<close>

lemma memcpy_forward: "memcpy m d s n = move_forward m d s n"
  by (induction m d s n rule: memcpy.induct) (simp_all del: fun_upd_apply)

lemma move_forward_correct:
  "\<not> (s < d \<and> d < s + n) \<Longrightarrow> move_forward m d s n p = (if d \<le> p \<and> p < d + n then m (s + (p - d)) else m p)"
proof (induction m d s n rule: move_forward.induct)
  case (2 m d s n)
  have c: "\<not> (s + 1 < d + 1 \<and> d + 1 < s + 1 + n)" using 2(2) by auto
  have e: "move_forward m d s (Suc n) p =
      (if d + 1 \<le> p \<and> p < d + 1 + n then (m(d := m s)) (s + 1 + (p - (d + 1))) else (m(d := m s)) p)"
    using 2(1) [OF c] by (simp del: fun_upd_apply)
  show ?case
  proof (cases "d + 1 \<le> p \<and> p < d + 1 + n")
    case True
    then have "s + 1 + (p - (d + 1)) = s + (p - d)" "s + (p - d) \<noteq> d" using 2(2) by auto
    then show ?thesis using e True by simp
  next
    case False
    then show ?thesis using e by (cases "p = d") auto
  qed
qed auto

lemma move_backward_correct:
  "s < d \<Longrightarrow> move_backward m (d + n) (s + n) n p = (if d \<le> p \<and> p < d + n then m (s + (p - d)) else m p)"
proof (induction n arbitrary: m)
  case (Suc n)
  have e: "move_backward m (d + Suc n) (s + Suc n) (Suc n) p =
      (if d \<le> p \<and> p < d + n then (m(d + n := m (s + n))) (s + (p - d)) else (m(d + n := m (s + n))) p)"
    using Suc.IH [OF Suc.prems, of "m(d + n := m (s + n))"] by (simp del: fun_upd_apply)
  show ?case
  proof (cases "d \<le> p \<and> p < d + n")
    case True
    then have "s + (p - d) \<noteq> d + n" using Suc.prems by auto
    then show ?thesis using e True by simp
  next
    case False
    then show ?thesis using e by (cases "p = d + n") auto
  qed
qed auto

lemma memset_correct: "memset m v c n p = (if v \<le> p \<and> p < v + n then of_int c else m p)"
proof (induction m v c n rule: memset.induct)
  case (2 m v c n)
  have "memset m v c (Suc n) p = (if v + 1 \<le> p \<and> p < v + 1 + n then of_int c else (m(v := of_int c)) p)"
    using 2 by (simp del: fun_upd_apply)
  then show ?case by (cases "p = v") auto
qed auto

text \<open>
  C16. \<^verbatim>\<open>memmove\<close> leaves in the destination the bytes the source held before the call, whatever the overlap,
  and changes nothing else; \<^verbatim>\<open>memcpy\<close> does the same whenever the destination does not start inside
  the source; \<^verbatim>\<open>memset\<close> fills exactly the \<open>n\<close> bytes from its pointer with the byte of its argument.
\<close>

theorem copies_correct:
  "memmove m dst src n p = (if dst \<le> p \<and> p < dst + n then m (src + (p - dst)) else m p)
   \<and> (\<not> (src < dst \<and> dst < src + n) \<longrightarrow>
        memcpy m dst src n p = (if dst \<le> p \<and> p < dst + n then m (src + (p - dst)) else m p))
   \<and> memset m dst c n p = (if dst \<le> p \<and> p < dst + n then of_int c else m p)"
  using move_forward_correct [of src dst n m p] move_backward_correct [of src dst m n p] memset_correct [of m dst c n p]
  by (simp add: memmove_def memcpy_forward)

theorem copies_correct_witness:
  "memmove (\<lambda>p. of_nat p) 3 1 4 5 = 3 \<and> memcpy (\<lambda>p. of_nat p) 1 3 4 2 = 4 \<and> memset (\<lambda>p. of_nat p) 3 1 4 5 = 1"
  using copies_correct [of "\<lambda>p. of_nat p" 3 1 4 5 1] copies_correct [of "\<lambda>p. of_nat p" 1 3 4 2 1] by simp

subsection \<open>Strings\<close>

text \<open>The C string \<open>xs\<close> is at address \<open>s\<close>.\<close>

definition cstring :: "mem \<Rightarrow> nat \<Rightarrow> u8 list \<Rightarrow> bool" where
  "cstring m s xs \<longleftrightarrow> (\<forall>i < length xs. m (s + i) = xs ! i) \<and> 0 \<notin> set xs \<and> m (s + length xs) = 0"

lemma cstring_simps [simp]:
  "cstring m s [] \<longleftrightarrow> m s = 0"
  "cstring m s (x # xs) \<longleftrightarrow> m s = x \<and> x \<noteq> 0 \<and> cstring m (s + 1) xs"
  by (auto simp: cstring_def less_Suc_eq_0_disj)

lemma strlen_from_cstring: "cstring m s xs \<Longrightarrow> strlen_from m s n = Some (n + length xs)"
  by (induction xs arbitrary: s n) (subst strlen_from.simps, simp)+

lemma strnlen_cstring: "cstring m s xs \<Longrightarrow> strnlen m s k = min k (length xs)"
proof (induction k arbitrary: s xs)
  case (Suc k)
  then show ?case by (cases xs) auto
qed auto

text \<open>The sign of the lexicographic comparison of two byte strings.\<close>

fun lexcmp :: "u8 list \<Rightarrow> u8 list \<Rightarrow> int" where
  "lexcmp [] [] = 0"
| "lexcmp [] (y # ys) = -1"
| "lexcmp (x # xs) [] = 1"
| "lexcmp (x # xs) (y # ys) = (if x = y then lexcmp xs ys else if x < y then -1 else 1)"

lemma cmp3_simps: "cmp3 0 0 = 0" "y \<noteq> 0 \<Longrightarrow> cmp3 0 y = -1" "x \<noteq> 0 \<Longrightarrow> cmp3 x 0 = 1"
  "x \<noteq> y \<Longrightarrow> cmp3 x y = (if x < y then -1 else 1)"
  by (auto simp: cmp3_def word_neq_0_conv)

lemma cmp_loop_stop:
  "f (m a) = 0 \<or> f (m b) = 0 \<or> f (m a) \<noteq> f (m b) \<Longrightarrow> cmp_loop f m a b = Some (cmp3 (f (m a)) (f (m b)))"
  by (subst cmp_loop.simps) (simp add: Let_def)

lemma cmp_loop_go:
  "f (m a) \<noteq> 0 \<Longrightarrow> f (m a) = f (m b) \<Longrightarrow> cmp_loop f m a b = cmp_loop f m (a + 1) (b + 1)"
  by (subst cmp_loop.simps) (simp add: Let_def)

lemma cmp_loop_cstring:
  assumes f: "\<And>c. f c = 0 \<longleftrightarrow> c = 0"
  shows "cstring m a xs \<Longrightarrow> cstring m b ys \<Longrightarrow> cmp_loop f m a b = Some (lexcmp (map f xs) (map f ys))"
proof (induction xs ys arbitrary: a b rule: list_induct2')
  case 1
  then show ?case using cmp_loop_stop [of f m a b] f [of 0] by (simp add: cmp3_simps)
next
  case (2 x xs)
  then show ?case using cmp_loop_stop [of f m a b] f [of 0] f [of x] by (simp add: cmp3_simps)
next
  case (3 y ys)
  then show ?case using cmp_loop_stop [of f m a b] f [of 0] f [of y] word_neq_0_conv [of "f y"]
    by (simp add: cmp3_simps)
next
  case (4 x xs y ys)
  have xy: "m a = x" "m b = y" "f x \<noteq> 0" "cstring m (a + 1) xs" "cstring m (b + 1) ys" using 4 f by auto
  show ?case
  proof (cases "f x = f y")
    case True
    then show ?thesis using cmp_loop_go [of f m a b] 4(1) [OF xy(4,5)] xy(1-3) by simp
  next
    case False
    then show ?thesis using cmp_loop_stop [of f m a b] xy by (simp add: cmp3_simps)
  qed
qed

lemma ncmp_loop_stop:
  "0 < n \<Longrightarrow> f (m a) = 0 \<or> f (m b) = 0 \<or> f (m a) \<noteq> f (m b) \<Longrightarrow> ncmp_loop f m a b n = cmp3 (f (m a)) (f (m b))"
  by (subst ncmp_loop.simps) (simp add: Let_def)

lemma ncmp_loop_go:
  "f (m a) \<noteq> 0 \<Longrightarrow> f (m a) = f (m b) \<Longrightarrow> ncmp_loop f m a b (Suc n) = ncmp_loop f m (a + 1) (b + 1) n"
  by (subst ncmp_loop.simps) (simp add: Let_def)

lemma ncmp_loop_cstring:
  assumes f: "\<And>c. f c = 0 \<longleftrightarrow> c = 0"
  shows "cstring m a xs \<Longrightarrow> cstring m b ys \<Longrightarrow> ncmp_loop f m a b n = lexcmp (map f (take n xs)) (map f (take n ys))"
proof (induction xs ys arbitrary: a b n rule: list_induct2')
  case (4 x xs y ys)
  have xy: "m a = x" "m b = y" "f x \<noteq> 0" "cstring m (a + 1) xs" "cstring m (b + 1) ys" using 4 f by auto
  show ?case
  proof (cases n)
    case 0
    then show ?thesis by (subst ncmp_loop.simps) (simp add: cmp3_simps)
  next
    case (Suc k)
    show ?thesis
    proof (cases "f x = f y")
      case True
      then show ?thesis using ncmp_loop_go [of f m a b k] 4(1) [OF xy(4,5), of k] xy(1-3) Suc by simp
    next
      case False
      then show ?thesis using ncmp_loop_stop [of n f m a b] xy Suc by (simp add: cmp3_simps)
    qed
  qed
next
  case 1
  then show ?case using f [of 0] by (cases n) (simp_all add: ncmp_loop_stop cmp3_simps ncmp_loop.simps [of _ _ _ _ 0])
next
  case (2 x xs)
  then show ?case using f [of 0] f [of x] by (cases n) (simp_all add: ncmp_loop_stop cmp3_simps ncmp_loop.simps [of _ _ _ _ 0])
next
  case (3 y ys)
  then show ?case using f [of 0] f [of y] word_neq_0_conv [of "f y"]
    by (cases n) (simp_all add: ncmp_loop_stop cmp3_simps ncmp_loop.simps [of _ _ _ _ 0])
qed

lemma lower8_zero: "lower8 c = 0 \<longleftrightarrow> c = 0"
proof -
  have u: "isupper (uint c) \<longleftrightarrow> 65 \<le> unat c \<and> unat c < 91" for c :: u8
  proof -
    have lt: "unat c < 256" using unsigned_less [of c, where 'a = nat] by simp
    define w :: u32 where "w = ucast c"
    have w: "unat w = unat c" unfolding w_def using lt by (simp add: unsigned_ucast_eq take_bit_nat_eq_self)
    have "isupper (uint c) = (w - 65 < 26)" by (simp add: isupper_def w_def)
    also have "\<dots> = (65 \<le> unat w \<and> unat w < 91)" by (unat_arith, auto)
    finally show ?thesis unfolding w .
  qed
  show ?thesis
  proof (cases "isupper (uint c)")
    case True
    then have "unat c + 32 < 256" using u by auto
    then have "unat (c + 32) = unat c + 32" by (simp add: unat_word_ariths)
    then have "c + 32 \<noteq> 0" by (metis add_is_0 unsigned_0 zero_neq_numeral)
    moreover have "c \<noteq> 0" using True u [of c] by auto
    ultimately show ?thesis using True by (simp add: lower8_def tolower_def)
  qed (simp add: lower8_def tolower_def)
qed

lemma memcmp_blocks: "memcmp m a b n = lexcmp (map m [a..<a + n]) (map m [b..<b + n])"
proof (induction m a b n rule: memcmp.induct)
  case (2 m a b n)
  have "[a..<a + Suc n] = a # [a + 1..<a + 1 + n]" "[b..<b + Suc n] = b # [b + 1..<b + 1 + n]"
    by (simp_all add: upt_rec)
  then show ?case using 2 by (simp add: cmp3_simps del: upt_Suc)
qed simp

lemma cstring_write:
  assumes "cstring m s xs" "\<not> (s \<le> d \<and> d \<le> s + length xs)"
  shows "cstring (m(d := x)) s xs"
  using assms by (auto simp: cstring_def)

lemma strcpy_loop_cstring:
  assumes "cstring m src xs" "\<not> (src < d \<and> d \<le> src + length xs)"
  shows "\<exists>m'. strcpy_loop m d src = Some m'
     \<and> (\<forall>p. m' p = (if d \<le> p \<and> p \<le> d + length xs then (xs @ [0]) ! (p - d) else m p))"
  using assms
proof (induction xs arbitrary: m d src)
  case Nil
  have "strcpy_loop m d src = Some (m(d := 0))" using Nil by (subst strcpy_loop.simps) simp
  then show ?case by auto
next
  case (Cons x xs)
  let ?m = "m(d := x)"
  have x: "m src = x" "x \<noteq> 0" "cstring m (src + 1) xs" using Cons.prems(1) by simp_all
  have c: "cstring ?m (src + 1) xs" by (rule cstring_write [OF x(3)]) (use Cons.prems(2) in auto)
  have n: "\<not> (src + 1 < d + 1 \<and> d + 1 \<le> src + 1 + length xs)" using Cons.prems(2) by auto
  from Cons.IH [OF c n] obtain m' where m': "strcpy_loop ?m (d + 1) (src + 1) = Some m'"
    "\<forall>p. m' p = (if d + 1 \<le> p \<and> p \<le> d + 1 + length xs then (xs @ [0]) ! (p - (d + 1)) else ?m p)" by blast
  have "strcpy_loop m d src = Some m'" using x m'(1) by (subst strcpy_loop.simps) (simp add: Let_def del: fun_upd_apply, simp)
  moreover have "m' p = (if d \<le> p \<and> p \<le> d + length (x # xs) then ((x # xs) @ [0]) ! (p - d) else m p)" for p
  proof (cases "d + 1 \<le> p")
    case True
    then have "p - d = Suc (p - (d + 1))" by simp
    then show ?thesis using m'(2) True by simp
  next
    case False
    then show ?thesis using m'(2) by (cases "p = d") auto
  qed
  ultimately show ?case by blast
qed

lemma strncpy_cstring:
  "cstring m src xs \<Longrightarrow> \<not> (src < d \<and> d \<le> src + length xs) \<Longrightarrow>
   strncpy m d src n p = (if d \<le> p \<and> p < d + n then (if p - d < length xs then xs ! (p - d) else 0) else m p)"
proof (induction n arbitrary: m d src xs)
  case (Suc n)
  show ?case
  proof (cases xs)
    case Nil
    then show ?thesis using Suc.prems(1) memset_correct [of m d 0 "Suc n" p] by simp
  next
    case (Cons x xs')
    have x: "m src = x" "x \<noteq> 0" "cstring m (src + 1) xs'" using Suc.prems(1) Cons by simp_all
    have c: "cstring (m(d := x)) (src + 1) xs'" by (rule cstring_write [OF x(3)]) (use Suc.prems(2) Cons in auto)
    have n: "\<not> (src + 1 < d + 1 \<and> d + 1 \<le> src + 1 + length xs')" using Suc.prems(2) Cons by auto
    have "strncpy m d src (Suc n) = strncpy (m(d := x)) (d + 1) (src + 1) n" using x by (simp del: fun_upd_apply)
    then have e: "strncpy m d src (Suc n) p = (if d + 1 \<le> p \<and> p < d + 1 + n
        then (if p - (d + 1) < length xs' then xs' ! (p - (d + 1)) else 0) else (m(d := x)) p)"
      by (simp only: Suc.IH [OF c n])
    show ?thesis
    proof (cases "d + 1 \<le> p")
      case True
      then have "p - d = Suc (p - (d + 1))" by simp
      then show ?thesis unfolding e using True Cons by simp
    next
      case False
      then show ?thesis unfolding e using Cons by (cases "p = d") auto
    qed
  qed
qed auto

lemma strchr_scan_cstring:
  "cstring m s xs \<Longrightarrow> strchr_scan m s c = Some (s + length (takeWhile (\<lambda>x. x \<noteq> c) xs))"
proof (induction xs arbitrary: s)
  case Nil
  then show ?case by (subst strchr_scan.simps) simp
next
  case (Cons x xs)
  then show ?case by (subst strchr_scan.simps) simp
qed

lemma cstring_at_takeWhile:
  "cstring m s xs \<Longrightarrow> m (s + length (takeWhile (\<lambda>x. x \<noteq> c) xs)) = (if c \<in> set xs then c else 0)"
proof (induction xs arbitrary: s)
  case (Cons x xs)
  then show ?case using Cons.IH [of "s + 1"] by auto
qed simp

lemma memchr_block:
  "memchr m a c n = (if of_int c \<in> set (map m [a..<a + n]) then Some (a + length (takeWhile (\<lambda>x. x \<noteq> of_int c) (map m [a..<a + n]))) else None)"
proof (induction n arbitrary: a)
  case (Suc n)
  have "[a..<a + Suc n] = a # [Suc a..<Suc a + n]" by (simp add: upt_conv_Cons)
  then show ?case using Suc.IH [of "Suc a"] by (auto simp del: upt_Suc)
qed simp

text \<open>
  C17. On C strings (\<^verbatim>\<open>xs\<close> at \<open>a\<close>, \<^verbatim>\<open>ys\<close> at \<open>b\<close>) the string functions return, and compute: the length;
  the length bounded by \<open>n\<close>; the sign of the lexicographic comparison, of the whole strings, of their
  first \<open>n\<close> bytes, and of both with letter case removed; the first position of a character, the
  terminator included. \<^verbatim>\<open>memcmp\<close> compares two blocks in the same order, and \<^verbatim>\<open>memchr\<close> finds the
  first place of a byte in a block.
\<close>

theorem string_queries_correct:
  assumes "cstring m a xs" "cstring m b ys"
  shows "strlen m a = Some (length xs) \<and> strnlen m a n = min n (length xs)
    \<and> strcmp m a b = Some (lexcmp xs ys) \<and> strncmp m a b n = lexcmp (take n xs) (take n ys)
    \<and> strcasecmp m a b = Some (lexcmp (map lower8 xs) (map lower8 ys))
    \<and> strncasecmp m a b n = lexcmp (map lower8 (take n xs)) (map lower8 (take n ys))
    \<and> strchr m a c = Some (if of_int c = (0 :: u8) then Some (a + length xs)
        else if of_int c \<in> set xs then Some (a + length (takeWhile (\<lambda>x. x \<noteq> of_int c) xs)) else None)
    \<and> memcmp m a b n = lexcmp (map m [a..<a + n]) (map m [b..<b + n])
    \<and> memchr m a c n = (if of_int c \<in> set (map m [a..<a + n])
        then Some (a + length (takeWhile (\<lambda>x. x \<noteq> of_int c) (map m [a..<a + n]))) else None)"
proof -
  have id: "\<And>c. (\<lambda>c. c) (c :: u8) = 0 \<longleftrightarrow> c = 0" by simp
  have z: "0 \<notin> set xs" using assms(1) by (simp add: cstring_def)
  have tw: "of_int c = (0 :: u8) \<Longrightarrow> takeWhile (\<lambda>x. x \<noteq> of_int c) xs = xs"
    using z by (auto simp: takeWhile_eq_all_conv)
  have "strchr m a c = Some (if of_int c = (0 :: u8) then Some (a + length xs)
        else if of_int c \<in> set xs then Some (a + length (takeWhile (\<lambda>x. x \<noteq> of_int c) xs)) else None)"
  proof (cases "of_int c = (0 :: u8)")
    case True
    have "strchr_scan m a (of_int c) = Some (a + length xs)" "m (a + length xs) = 0"
      using strchr_scan_cstring [OF assms(1), of "of_int c"] tw [OF True] assms(1) by (simp_all add: cstring_def)
    then show ?thesis using True by (simp add: strchr_def)
  next
    case False
    then show ?thesis
      using strchr_scan_cstring [OF assms(1), of "of_int c"] cstring_at_takeWhile [OF assms(1), of "of_int c"]
      by (simp add: strchr_def)
  qed
  then show ?thesis
    using strlen_from_cstring [OF assms(1), of 0] strnlen_cstring [OF assms(1)]
      cmp_loop_cstring [OF id assms] ncmp_loop_cstring [OF id assms, of n]
      cmp_loop_cstring [OF lower8_zero assms] ncmp_loop_cstring [OF lower8_zero assms, of n] memcmp_blocks memchr_block
    by (simp add: strlen_def strcmp_def strncmp_def strcasecmp_def strncasecmp_def)
qed

text \<open>Memory holding two strings, "ab" at 10 and "aC" at 20.\<close>

definition two_strings :: mem where
  "two_strings = ((((\<lambda>_. 0)(10 := 97))(11 := 98))(20 := 97))(21 := 67)"

lemma two_strings_ok: "cstring two_strings 10 [97, 98]" "cstring two_strings 20 [97, 67]"
  by (simp_all add: two_strings_def)

theorem string_queries_correct_witness:
  "strlen two_strings 10 = Some 2 \<and> strcmp two_strings 10 20 = Some 1 \<and> strchr two_strings 10 98 = Some (Some 11)
   \<and> memchr two_strings 10 98 5 = Some 11"
  using string_queries_correct [OF two_strings_ok, of 5 98] by (simp add: two_strings_def upt_rec)

text \<open>
  C18. \<^verbatim>\<open>strcpy\<close> and \<^verbatim>\<open>strncpy\<close>: for a source string whose bytes the destination does not start inside,
  the copy returns; \<^verbatim>\<open>strcpy\<close> writes the string and its terminator and nothing else, \<^verbatim>\<open>strncpy\<close>
  writes exactly \<open>n\<close> bytes, the string cut to \<open>n\<close> or padded with zeros.
\<close>

theorem string_copies_correct:
  assumes "cstring m src xs" "\<not> (src < d \<and> d \<le> src + length xs)"
  shows "(\<exists>m'. strcpy m d src = Some m' \<and> cstring m' d xs \<and> (\<forall>p. p < d \<or> d + length xs < p \<longrightarrow> m' p = m p))
    \<and> (\<forall>p. strncpy m d src n p = (if d \<le> p \<and> p < d + n then (if p - d < length xs then xs ! (p - d) else 0) else m p))"
proof -
  obtain m' where m': "strcpy_loop m d src = Some m'"
    "\<forall>p. m' p = (if d \<le> p \<and> p \<le> d + length xs then (xs @ [0]) ! (p - d) else m p)"
    using strcpy_loop_cstring [OF assms] by blast
  have z: "0 \<notin> set xs" using assms(1) by (simp add: cstring_def)
  have "cstring m' d xs" unfolding cstring_def using m'(2) z by (simp add: nth_append)
  then show ?thesis using m' strncpy_cstring [OF assms] by (auto simp: strcpy_def)
qed

theorem string_copies_correct_witness:
  "\<exists>m'. strcpy two_strings 30 10 = Some m' \<and> cstring m' 30 [97, 98] \<and> strncpy two_strings 30 10 1 30 = 97"
proof -
  have "\<not> (10 < 30 \<and> 30 \<le> 10 + length [97 :: u8, 98])" by simp
  from string_copies_correct [OF two_strings_ok(1) this, of 1] show ?thesis by auto
qed

end
