(* ===== verification/CFormat.thy ===== *)
theory CFormat
  imports CMem
begin

unbundle bit_operations_syntax

text \<open>
  Numbers and formatted output of \<^verbatim>\<open>lib.cc\<close>: \<^verbatim>\<open>strtoul\<close>, \<^verbatim>\<open>strtol\<close>, the random numbers, \<^verbatim>\<open>fill_numbuf\<close>,
  \<^verbatim>\<open>printer::vprintf\<close> and \<^verbatim>\<open>vsnprintf\<close>. A C string is the list of its bytes up to the terminator, and
  a pointer into it is the rest of the list. Shown: printed numbers parse back to themselves and
  fit \<^verbatim>\<open>numbuf\<close>, and \<^verbatim>\<open>vsnprintf\<close> truncates, terminates and counts as documented.
\<close>

subsection \<open>Parsing numbers\<close>

text \<open>\<^verbatim>\<open>*s\<close> as a (signed) \<^verbatim>\<open>char\<close>, and \<^verbatim>\<open>++s\<close>.\<close>

definition cur :: "u8 list \<Rightarrow> int" where
  "cur s = (case s of [] \<Rightarrow> 0 | c # _ \<Rightarrow> sint c)"

fun skip_spaces :: "u8 list \<Rightarrow> u8 list" where
  "skip_spaces [] = []"
| "skip_spaces (c # s) = (if isspace (sint c) then skip_spaces s else c # s)"

text \<open>The digit test of \<^verbatim>\<open>strtoul\<close>.\<close>

definition digit_of :: "int \<Rightarrow> int \<Rightarrow> nat option" where
  "digit_of base c =
     (if c \<ge> 48 \<and> c < 48 + base then Some (nat (c - 48))
      else if base > 10 \<and> c \<ge> 97 \<and> c < 97 + base - 10 then Some (nat (c - 97 + 10))
      else if base > 10 \<and> c \<ge> 65 \<and> c < 65 + base - 10 then Some (nat (c - 65 + 10))
      else None)"

fun strtoul_loop :: "int \<Rightarrow> u8 list \<Rightarrow> u64 \<Rightarrow> bool \<Rightarrow> u8 list \<times> u64 \<times> bool" where
  "strtoul_loop base [] x overflow = ([], x, overflow)"
| "strtoul_loop base (c # s) x overflow =
     (case digit_of base (sint c) of
        None \<Rightarrow> (c # s, x, overflow)
      | Some digit \<Rightarrow>
          (if x > (-1 - of_nat digit) div of_int base then strtoul_loop base s x True
           else strtoul_loop base s (x * of_int base + of_nat digit) overflow))"

definition strtoul_base :: "int \<Rightarrow> u8 list \<Rightarrow> int \<times> u8 list" where
  "strtoul_base base s =
     (let hex = (cur s = 48 \<and> (cur (drop 1 s) = 120 \<or> cur (drop 1 s) = 88)) in
      if base = 0 then
        (if hex then (16, drop 2 s) else if cur s = 48 then (8, s) else (10, s))
      else if base = 16 \<and> hex then (16, drop 2 s) else (base, s))"

definition strtoul :: "u8 list \<Rightarrow> int \<Rightarrow> u64 \<times> u8 list" where
  "strtoul s base =
     (let s1 = skip_spaces s;
          negative = (cur s1 = 45);
          s2 = (if negative \<or> cur s1 = 43 then drop 1 s1 else s1);
          (b, s3) = strtoul_base base s2;
          (s4, x, overflow) = strtoul_loop b s3 0 False;
          x1 = (if overflow then -1 else x)
      in (if negative then - x1 else x1, s4))"

definition strtol :: "u8 list \<Rightarrow> int \<Rightarrow> u64 \<times> u8 list" where
  "strtol s base =
     (let s1 = skip_spaces s;
          negative = (cur s1 = 45);
          s2 = (if negative then drop 1 s1 else s1);
          (u, e) = strtoul s2 base;
          bound = push_bit 63 1 - (if negative then 0 else 1);
          u1 = (if u > bound then bound else u)
      in (if negative then - u1 else u1, e))"

subsection \<open>Random numbers\<close>

record rand_state =
  rand_seed_set :: bool
  rand_seed :: u64

definition srand :: "u32 \<Rightarrow> rand_state \<Rightarrow> rand_state" where
  "srand seed r = r\<lparr>rand_seed := push_bit 32 (ucast seed) OR ucast seed, rand_seed_set := True\<rparr>"

definition RAND_MAX :: nat where [kconst]: "RAND_MAX = 0x7FFFFFFF"

definition rand :: "rand_state \<Rightarrow> nat \<times> rand_state" where
  "rand r =
     (let r1 = (if \<not> rand_seed_set r then srand 819234718 r else r);
          seed = rand_seed r1 * 6364136223846793005 + 1
      in (unat (drop_bit 32 seed AND of_nat RAND_MAX), r1\<lparr>rand_seed := seed\<rparr>))"

text \<open>\<^verbatim>\<open>rand(min, max)\<close>: \<^verbatim>\<open>max - min + 1\<close> is an \<^verbatim>\<open>int\<close>, the rest of the arithmetic \<^verbatim>\<open>unsigned long\<close>.\<close>

definition rand_range :: "int \<Rightarrow> int \<Rightarrow> rand_state \<Rightarrow> (int \<times> rand_state) option" where
  "rand_range lo hi r =
     check (lo \<le> hi)
      (check (hi - lo \<le> int RAND_MAX)
        (let (v, r') = rand r;
             width = scast (of_int (hi - lo + 1) :: u32) :: u64
         in Some (sint (ucast (of_int lo + of_nat v * width div (of_nat RAND_MAX + 1) :: u64) :: u32), r')))"

subsection \<open>Printing numbers\<close>

definition digit_char :: "bool \<Rightarrow> nat \<Rightarrow> u8" where
  "digit_char upper d = of_nat (if d < 10 then 48 + d else (if upper then 65 else 97) + (d - 10))"

text \<open>The \<^verbatim>\<open>do\<close> loop of \<^verbatim>\<open>fill_numbuf\<close>; the digits already written are in \<open>buf\<close>.\<close>

function fill_loop :: "bool \<Rightarrow> nat \<Rightarrow> nat \<Rightarrow> u8 list \<Rightarrow> u8 list" where
  "fill_loop upper base val buf =
     (let buf' = digit_char upper (val mod base) # buf; val' = val div base
      in if val' \<noteq> 0 \<and> 1 < base then fill_loop upper base val' buf' else buf')"
  by pat_completeness auto
termination
  by (relation "measure (\<lambda>(u, b, v, buf). v)") (auto simp: div_greater_zero_iff)

declare fill_loop.simps [simp del]

definition fill_numbuf :: "u64 \<Rightarrow> int \<Rightarrow> u8 list" where
  "fill_numbuf val base = (if base < 0 then fill_loop False (nat (- base)) (unat val) []
     else fill_loop True (nat base) (unat val) [])"

subsection \<open>\<^verbatim>\<open>vprintf\<close>\<close>

text \<open>The variable arguments; reading one of the wrong kind, or one too many, is undefined.\<close>

datatype varg = VNum u64 | VStr "u8 list"

record pflags =
  fl_alt :: bool
  fl_zero :: bool
  fl_leftjustify :: bool
  fl_spacepositive :: bool
  fl_pluspositive :: bool

definition no_flags :: pflags where
  "no_flags = \<lparr>fl_alt = False, fl_zero = False, fl_leftjustify = False, fl_spacepositive = False, fl_pluspositive = False\<rparr>"

text \<open>Flags: \<^verbatim>\<open>#\<close>, \<^verbatim>\<open>0\<close>, \<^verbatim>\<open>-\<close>, space and \<^verbatim>\<open>+\<close>.\<close>

fun parse_flags :: "u8 list \<Rightarrow> pflags \<Rightarrow> pflags \<times> u8 list" where
  "parse_flags [] fl = (fl, [])"
| "parse_flags (c # s) fl =
     (if c = 35 then parse_flags s (fl\<lparr>fl_alt := True\<rparr>)
      else if c = 48 then parse_flags s (fl\<lparr>fl_zero := True\<rparr>)
      else if c = 45 then parse_flags s (fl\<lparr>fl_leftjustify := True\<rparr>)
      else if c = 32 then parse_flags s (fl\<lparr>fl_spacepositive := True\<rparr>)
      else if c = 43 then parse_flags s (fl\<lparr>fl_pluspositive := True\<rparr>)
      else (fl, c # s))"

fun parse_digits :: "u8 list \<Rightarrow> int \<Rightarrow> int \<times> u8 list" where
  "parse_digits [] n = (n, [])"
| "parse_digits (c # s) n =
     (if sint c \<ge> 48 \<and> sint c \<le> 57 then parse_digits s (10 * n + sint c - 48) else (n, c # s))"

text \<open>\<^verbatim>\<open>va_arg(val, int)\<close>\<close>

fun arg_int :: "varg list \<Rightarrow> (int \<times> varg list) option" where
  "arg_int (VNum w # as) = Some (sint (ucast w :: u32), as)"
| "arg_int _ = None"

definition parse_width :: "u8 list \<Rightarrow> varg list \<Rightarrow> (int \<times> u8 list \<times> varg list) option" where
  "parse_width s as =
     (if cur s \<ge> 49 \<and> cur s \<le> 57 then (let (w, s') = parse_digits s 0 in Some (w, s', as))
      else if cur s = 42 then (case arg_int as of None \<Rightarrow> None | Some (w, as') \<Rightarrow> Some (w, drop 1 s, as'))
      else Some (-1, s, as))"

definition parse_precision :: "u8 list \<Rightarrow> varg list \<Rightarrow> (int \<times> u8 list \<times> varg list) option" where
  "parse_precision s as =
     (if cur s = 46 then
        (let s1 = drop 1 s in
         if cur s1 \<ge> 48 \<and> cur s1 \<le> 57 then (let (p, s') = parse_digits s1 0 in Some (max p 0, s', as))
         else if cur s1 = 42 then (case arg_int as of None \<Rightarrow> None | Some (p, as') \<Rightarrow> Some (max p 0, drop 1 s1, as'))
         else Some (0, s1, as))
      else Some (-1, s, as))"

definition parse_length :: "u8 list \<Rightarrow> bool \<times> u8 list" where
  "parse_length s =
     (if cur s = 108 \<or> cur s = 116 \<or> cur s = 122 then (True, drop 1 s)
      else if cur s = 104 then (False, drop 1 s) else (False, s))"

text \<open>A conversion: text, or a number with its sign class and base, or a change of colour.\<close>

datatype conv = CText "u8 list" | CSigned bool u64 | CUnsigned int u64 | CPointer u64 | CColor int

fun arg_num :: "bool \<Rightarrow> bool \<Rightarrow> varg list \<Rightarrow> (u64 \<times> varg list) option" where
  "arg_num long sg (VNum w # as) =
     Some (if long then w else if sg then scast (ucast w :: u32) else ucast (ucast w :: u32), as)"
| "arg_num long sg _ = None"

definition convert :: "bool \<Rightarrow> u8 list \<Rightarrow> varg list \<Rightarrow> (conv \<times> u8 list \<times> varg list) option" where
  "convert long s as =
     (let c = cur s; rest = drop 1 s in
      if c = 100 \<or> c = 105 then
        (case arg_num long True as of None \<Rightarrow> None
         | Some (x, as') \<Rightarrow> Some (CSigned (sint x < 0) (if sint x < 0 then - x else x), rest, as'))
      else if c = 117 then map_option (\<lambda>(x, as'). (CUnsigned 10 x, rest, as')) (arg_num long False as)
      else if c = 120 then map_option (\<lambda>(x, as'). (CUnsigned (-16) x, rest, as')) (arg_num long False as)
      else if c = 88 then map_option (\<lambda>(x, as'). (CUnsigned 16 x, rest, as')) (arg_num long False as)
      else if c = 112 then map_option (\<lambda>(x, as'). (CPointer x, rest, as')) (arg_num True False as)
      else if c = 115 then (case as of VStr t # as' \<Rightarrow> Some (CText t, rest, as') | _ \<Rightarrow> None)
      else if c = 67 then map_option (\<lambda>(x, as'). (CColor x, rest, as')) (arg_int as)
      else if c = 99 then
        map_option (\<lambda>(x, as'). (CText (if of_int x = (0 :: u8) then [] else [of_int x]), rest, as')) (arg_int as)
      else Some (CText [if s = [] then 37 else hd s], rest, as))"

text \<open>The prefix and the digits of a number; for text there is no prefix.\<close>

fun conv_data :: "pflags \<Rightarrow> conv \<Rightarrow> bool \<times> u8 list \<times> u8 list" where
  "conv_data fl (CText t) = (False, [], t)"
| "conv_data fl (CSigned negative num) =
     (True, if negative then [45] else if fl_pluspositive fl then [43] else if fl_spacepositive fl then [32] else [],
      fill_numbuf num 10)"
| "conv_data fl (CUnsigned base num) =
     (True, if fl_alt fl \<and> (base = 16 \<or> base = -16) \<and> num \<noteq> 0 then (if base = -16 then [48, 120] else [48, 88]) else [],
      fill_numbuf num base)"
| "conv_data fl (CPointer num) = (True, [48, 120], fill_numbuf num (-16))"
| "conv_data fl (CColor c) = (False, [], [])"

definition emit :: "pflags \<Rightarrow> int \<Rightarrow> int \<Rightarrow> bool \<Rightarrow> u8 list \<Rightarrow> u8 list \<Rightarrow> u8 list" where
  "emit fl width precision numeric prefix data =
     (let datalen = (if precision \<ge> 0 \<and> \<not> numeric then min (nat precision) (length data) else length data);
          zeros = (if numeric \<and> precision \<ge> 0 then nat (precision - int datalen)
                   else if numeric \<and> fl_zero fl \<and> \<not> fl_leftjustify fl \<and> int (datalen + length prefix) < width
                   then nat (width - int datalen - int (length prefix)) else 0);
          pad = nat (width - int (datalen + zeros + length prefix))
      in (if fl_leftjustify fl then [] else replicate pad 32) @ prefix @ replicate zeros 48 @ take datalen data
         @ (if fl_leftjustify fl then replicate pad 32 else []))"

text \<open>One conversion specification, after its \<^verbatim>\<open>%\<close>: the colour, the output and what is left.\<close>

definition vprintf_spec :: "int \<Rightarrow> u8 list \<Rightarrow> varg list \<Rightarrow> (int \<times> u8 list \<times> u8 list \<times> varg list) option" where
  "vprintf_spec color s as =
     (let (fl, s1) = parse_flags s no_flags in
      case parse_width s1 as of None \<Rightarrow> None | Some (width, s2, as2) \<Rightarrow>
      (case parse_precision s2 as2 of None \<Rightarrow> None | Some (precision, s3, as3) \<Rightarrow>
       (let (long, s4) = parse_length s3 in
        case convert long s4 as3 of None \<Rightarrow> None
        | Some (CColor c, s5, as5) \<Rightarrow> Some (c, [], s5, as5)
        | Some (cv, s5, as5) \<Rightarrow>
            (let (numeric, prefix, data) = conv_data fl cv
             in Some (color, emit fl width precision numeric prefix data, s5, as5)))))"

lemma parse_digits_length: "length (snd (parse_digits s n)) \<le> length s"
  by (induction s n rule: parse_digits.induct) auto

lemma parse_flags_length: "length (snd (parse_flags s fl)) \<le> length s"
  by (induction s fl rule: parse_flags.induct) auto

lemma parse_width_length: "parse_width s as = Some (w, s', as') \<Longrightarrow> length s' \<le> length s"
  using parse_digits_length [of s 0] by (auto simp: parse_width_def split: if_splits option.splits prod.splits)

lemma parse_precision_length: "parse_precision s as = Some (p, s', as') \<Longrightarrow> length s' \<le> length s"
  using parse_digits_length [of "drop 1 s" 0]
  by (auto simp: parse_precision_def Let_def split: if_splits option.splits prod.splits)

lemma parse_length_length: "length (snd (parse_length s)) \<le> length s"
  by (simp add: parse_length_def)

lemma convert_length: "convert long s as = Some (cv, s', as') \<Longrightarrow> length s' \<le> length s"
  by (auto simp: convert_def Let_def split: if_splits option.splits list.splits varg.splits prod.splits)

lemma vprintf_spec_length:
  assumes "vprintf_spec color s as = Some (color', out, s', as')"
  shows "length s' \<le> length s"
proof -
  obtain fl s1 where 1: "parse_flags s no_flags = (fl, s1)" by (cases "parse_flags s no_flags")
  obtain w s2 as2 where 2: "parse_width s1 as = Some (w, s2, as2)"
    using assms 1 by (auto simp: vprintf_spec_def split: option.splits)
  obtain p s3 as3 where 3: "parse_precision s2 as2 = Some (p, s3, as3)"
    using assms 1 2 by (auto simp: vprintf_spec_def split: option.splits)
  obtain long s4 where 4: "parse_length s3 = (long, s4)" by (cases "parse_length s3")
  obtain cv s5 as5 where 5: "convert long s4 as3 = Some (cv, s5, as5)"
    using assms 1 2 3 4 by (auto simp: vprintf_spec_def split: option.splits)
  have "s' = s5" using assms 1 2 3 4 5 by (auto simp: vprintf_spec_def Let_def split: conv.splits prod.splits)
  then show ?thesis
    using parse_flags_length [of s no_flags] 1 parse_width_length [OF 2] parse_precision_length [OF 3]
      parse_length_length [of s3] 4 convert_length [OF 5] by simp
qed

function vprintf :: "int \<Rightarrow> u8 list \<Rightarrow> varg list \<Rightarrow> (u8 \<times> int) list option" where
  "vprintf color [] as = Some []"
| "vprintf color (c # s) as =
     (if c \<noteq> 37 then map_option (\<lambda>r. (c, color) # r) (vprintf color s as)
      else case vprintf_spec color s as of None \<Rightarrow> None
        | Some (color', out, s', as') \<Rightarrow> map_option (\<lambda>r. map (\<lambda>x. (x, color)) out @ r) (vprintf color' s' as'))"
  by pat_completeness auto
termination
  by (relation "measure (\<lambda>(color, s, as). length s)") (auto dest!: vprintf_spec_length)

subsection \<open>\<^verbatim>\<open>vsnprintf\<close>\<close>

record string_printer =
  sp_buf :: "u8 list"
  sp_pos :: nat
  sp_end :: nat
  sp_n :: nat

definition sp_putc :: "u8 \<Rightarrow> string_printer \<Rightarrow> string_printer" where
  "sp_putc c sp =
     (let sp1 = (if sp_pos sp < sp_end sp then sp\<lparr>sp_buf := (sp_buf sp)[sp_pos sp := c], sp_pos := sp_pos sp + 1\<rparr> else sp)
      in sp1\<lparr>sp_n := sp_n sp1 + 1\<rparr>)"

definition vsnprintf :: "u8 list \<Rightarrow> nat \<Rightarrow> u8 list \<Rightarrow> varg list \<Rightarrow> (nat \<times> u8 list) option" where
  "vsnprintf s size0 format as =
     (case vprintf 0 format as of None \<Rightarrow> None
      | Some out \<Rightarrow>
          (let sp = fold (\<lambda>(c, color). sp_putc c) out \<lparr>sp_buf = s, sp_pos = 0, sp_end = size0, sp_n = 0\<rparr>
           in Some (sp_n sp,
                if size0 \<noteq> 0 \<and> sp_pos sp < sp_end sp then (sp_buf sp)[sp_pos sp := 0]
                else if size0 \<noteq> 0 then (sp_buf sp)[sp_end sp - 1 := 0] else sp_buf sp)))"

lemma sp_run:
  assumes "sp_pos sp \<le> sp_end sp" "sp_end sp \<le> length (sp_buf sp)"
  shows "fold (\<lambda>(c, color). sp_putc c) xs sp =
     sp\<lparr>sp_buf := blit (sp_buf sp) (sp_pos sp) (take (min (length xs) (sp_end sp - sp_pos sp)) (map fst xs)),
        sp_pos := sp_pos sp + min (length xs) (sp_end sp - sp_pos sp), sp_n := sp_n sp + length xs\<rparr>"
  using assms
proof (induction xs arbitrary: sp)
  case Nil
  then show ?case by (simp add: blit_def)
next
  case (Cons x xs)
  obtain c color where x: "x = (c, color)" by (cases x)
  show ?case
  proof (cases "sp_pos sp < sp_end sp")
    case True
    let ?p = "sp_pos sp"
    let ?sp = "sp\<lparr>sp_buf := (sp_buf sp)[?p := c], sp_pos := ?p + 1, sp_n := sp_n sp + 1\<rparr>"
    have e: "sp_putc c sp = ?sp" using True by (simp add: sp_putc_def)
    have m: "min (length (x # xs)) (sp_end sp - ?p) = Suc (min (length xs) (sp_end sp - (?p + 1)))" using True by auto
    have b: "blit ((sp_buf sp)[?p := c]) (?p + 1) ys = blit (sp_buf sp) ?p (c # ys)" for ys
      using True Cons.prems(2) by (simp add: blit_def take_Suc_conv_app_nth take_update_cancel)
    show ?thesis using Cons.IH [of ?sp] Cons.prems True m b x e by simp
  next
    case False
    then have "sp_putc c sp = sp\<lparr>sp_n := sp_n sp + 1\<rparr>" by (simp add: sp_putc_def)
    then show ?thesis using Cons.IH [of "sp\<lparr>sp_n := sp_n sp + 1\<rparr>"] Cons.prems False x by simp
  qed
qed

text \<open>
  C19. \<^verbatim>\<open>vsnprintf\<close> into a buffer with room for \<^verbatim>\<open>size\<close> bytes: it returns the length of the complete output,
  writes nothing from \<^verbatim>\<open>size\<close> on, and for a positive \<^verbatim>\<open>size\<close> leaves the output cut to \<^verbatim>\<open>size - 1\<close> bytes
  followed by a terminator.
\<close>

theorem vsnprintf_correct:
  assumes "vprintf 0 format as = Some out" "size0 \<le> length s"
  shows "\<exists>s'. vsnprintf s size0 format as = Some (length out, s') \<and> length s' = length s
    \<and> (\<forall>p. size0 \<le> p \<and> p < length s \<longrightarrow> s' ! p = s ! p)
    \<and> (0 < size0 \<longrightarrow> take (min (length out) (size0 - 1)) s' = take (size0 - 1) (map fst out)
        \<and> s' ! min (length out) (size0 - 1) = 0)"
proof -
  let ?k = "min (length out) size0"
  let ?b = "blit s 0 (take ?k (map fst out))"
  have lt: "length (take ?k (map fst out)) = ?k" by simp
  have lb: "length ?b = length s" using assms(2) lt by (intro length_blit) simp
  have run: "fold (\<lambda>(c, color). sp_putc c) out \<lparr>sp_buf = s, sp_pos = 0, sp_end = size0, sp_n = 0\<rparr>
      = \<lparr>sp_buf = ?b, sp_pos = ?k, sp_end = size0, sp_n = length out\<rparr>"
    using sp_run [of "\<lparr>sp_buf = s, sp_pos = 0, sp_end = size0, sp_n = 0\<rparr>" out] assms(2) by simp
  define j where "j = (if ?k < size0 then ?k else size0 - 1)"
  define s' where "s' = (if size0 \<noteq> 0 then ?b[j := 0] else ?b)"
  have r: "vsnprintf s size0 format as = Some (length out, s')"
    unfolding vsnprintf_def assms(1) option.case run Let_def s'_def j_def by simp
  have jm: "0 < size0 \<Longrightarrow> j = min (length out) (size0 - 1)" "0 < size0 \<Longrightarrow> j < size0" by (auto simp: j_def)
  have nb: "?b ! p = (if p < ?k then fst (out ! p) else s ! p)" if "p < length s" for p
    using nth_blit [of 0 "take ?k (map fst out)" s p] that assms(2) lt by simp
  have tb: "take ?k ?b = take ?k (map fst out)" using lt by (simp add: blit_def)
  have "\<forall>p. size0 \<le> p \<and> p < length s \<longrightarrow> s' ! p = s ! p"
    using nb jm(2) by (auto simp: s'_def lb)
  moreover have "take j s' = take (size0 - 1) (map fst out) \<and> s' ! j = 0" if "0 < size0"
  proof -
    have jk: "j \<le> ?k" using jm [OF that] by linarith
    have "take j ?b = take j (take ?k ?b)" "take j (take ?k (map fst out)) = take j (map fst out)"
      using jk by (simp_all add: min_absorb1 del: length_map)
    then have "take j ?b = take j (map fst out)" unfolding tb by simp
    moreover have "take j (map fst out) = take (size0 - 1) (map fst out)" using jm(1) [OF that] by (simp add: min_def)
    ultimately show ?thesis using that lb assms(2) jm(2) by (simp add: s'_def take_update_cancel)
  qed
  moreover have "length s' = length s" using lb by (simp add: s'_def)
  ultimately show ?thesis using r jm(1) by auto
qed

lemma sample_vprintf: "vprintf 0 [104, 37, 100, 33] [VNum 42] = Some [(104, 0), (52, 0), (50, 0), (33, 0)]"
  by (simp add: vprintf_spec_def parse_width_def parse_precision_def parse_length_def convert_def cur_def emit_def
      no_flags_def fill_numbuf_def fill_loop.simps digit_char_def Let_def)

theorem vsnprintf_correct_witness:
  "\<exists>s'. vsnprintf [9, 9, 9, 9] 3 [104, 37, 100, 33] [VNum 42] = Some (4, s') \<and> take 2 s' = [104, 52] \<and> s' ! 2 = 0 \<and> s' ! 3 = 9"
proof -
  have "(3 :: nat) \<le> length [9, 9, 9, 9 :: u8]" by simp
  from vsnprintf_correct [OF sample_vprintf this] obtain s' where
    "vsnprintf [9, 9, 9, 9] 3 [104, 37, 100, 33] [VNum 42] = Some (4, s')"
    "\<forall>p. 3 \<le> p \<and> p < length [9, 9, 9, 9 :: u8] \<longrightarrow> s' ! p = [9, 9, 9, 9] ! p"
    "take 2 s' = [104, 52]" "s' ! 2 = 0" by (auto simp: eval_nat_numeral)
  moreover from this(2) have "s' ! 3 = 9" by simp
  ultimately show ?thesis by blast
qed

subsection \<open>Round trips\<close>

lemma sint_small: "k < 128 \<Longrightarrow> sint (of_nat k :: u8) = int k"
proof -
  assume k: "k < 128"
  have "uint (of_nat k :: u8) = int k" using k by (simp add: unsigned_of_nat take_bit_nat_eq_self)
  then show ?thesis using k by (simp add: sint_uint signed_take_bit_eq_if_positive bit_iff_odd take_bit_int_eq_self)
qed

lemma digit_char_sint:
  assumes "d < 16"
  shows "sint (digit_char u d) = int (if d < 10 then 48 + d else (if u then 65 else 97) + (d - 10))"
proof -
  have "(if d < 10 then 48 + d else (if u then 65 else 97) + (d - 10)) < (128::nat)" using assms by auto
  then show ?thesis unfolding digit_char_def by (rule sint_small)
qed

lemma digit_of_digit_char:
  assumes "d < n" "n \<le> 16"
  shows "digit_of (int n) (sint (digit_char u d)) = Some d"
  using assms digit_char_sint [of d u] by (auto simp: digit_of_def)

lemma fill_loop_step:
  assumes "1 < n"
  shows "fill_loop u n v buf = (if v < n then digit_char u v # buf else fill_loop u n (v div n) (digit_char u (v mod n) # buf))"
proof (cases "v < n")
  case True
  then show ?thesis by (subst fill_loop.simps) (simp add: Let_def)
next
  case False
  then have "v div n \<noteq> 0" using assms by (simp add: div_eq_0_iff)
  then show ?thesis using False assms by (subst fill_loop.simps) (simp add: Let_def)
qed

lemma fill_loop_length:
  assumes "1 < n" "v < n ^ k" "0 < k"
  shows "length (fill_loop u n v buf) \<le> k + length buf"
  using assms
proof (induction k arbitrary: v buf)
  case (Suc k)
  show ?case
  proof (cases "v < n")
    case False
    then have "k \<noteq> 0" using Suc.prems(2) by (cases k) auto
    moreover have "v div n < n ^ k" using Suc.prems by (simp add: div_less_iff_less_mult mult.commute)
    ultimately show ?thesis using Suc.IH [of "v div n" "digit_char u (v mod n) # buf"] fill_loop_step [of n u v buf] False Suc.prems by simp
  qed (use fill_loop_step [of n u v buf] Suc.prems in simp)
qed simp

lemma fill_loop_chars:
  assumes "1 < n"
  shows "\<exists>ds. fill_loop u n v buf = map (digit_char u) ds @ buf \<and> ds \<noteq> [] \<and> (\<forall>d \<in> set ds. d < n)"
proof (induction v arbitrary: buf rule: less_induct)
  case (less v)
  show ?case
  proof (cases "v < n")
    case True
    then show ?thesis using fill_loop_step [OF assms, of u v buf] by (intro exI [of _ "[v]"]) simp
  next
    case False
    then have "v div n < v" using assms by simp
    from less.IH [OF this, of "digit_char u (v mod n) # buf"] obtain ds where
      ds: "fill_loop u n (v div n) (digit_char u (v mod n) # buf) = map (digit_char u) ds @ digit_char u (v mod n) # buf"
        "ds \<noteq> []" "\<forall>d \<in> set ds. d < n" by blast
    have "fill_loop u n v buf = map (digit_char u) (ds @ [v mod n]) @ buf"
      using ds(1) fill_loop_step [OF assms, of u v buf] False by simp
    moreover have "\<forall>d \<in> set (ds @ [v mod n]). d < n" using ds(3) assms by auto
    ultimately show ?thesis by blast
  qed
qed

lemma strtoul_digit:
  assumes n: "1 < n" "n \<le> 16" and v: "x * n + d < 2 ^ 64" "d < n"
  shows "strtoul_loop (int n) (digit_char u d # buf) (of_nat x) False = strtoul_loop (int n) buf (of_nat (x * n + d)) False"
proof -
  have x: "x < 2 ^ 64"
  proof -
    have "x \<le> x * n" using n(1) by simp
    then show ?thesis using v(1) by linarith
  qed
  have ux: "unat (of_nat x :: u64) = x" using x by (simp add: unsigned_of_nat take_bit_nat_eq_self)
  have un: "unat (of_nat n :: u64) = n" using n(2) by (simp add: unsigned_of_nat take_bit_nat_eq_self)
  have ud: "unat (of_nat d :: u64) = d" using v(2) n(2) by (simp add: unsigned_of_nat take_bit_nat_eq_self)
  have "unat (-1 - of_nat d :: u64) = 2 ^ 64 - 1 - d"
  proof -
    have m: "unat (-1 :: u64) = 2 ^ 64 - 1" by (simp add: unsigned_minus_1_eq_mask mask_eq_exp_minus_1)
    have "(of_nat d :: u64) \<le> -1" by simp
    then have "unat (-1 - of_nat d :: u64) = unat (-1 :: u64) - unat (of_nat d :: u64)" by (rule unat_sub)
    then show ?thesis using m ud by simp
  qed
  then have "unat ((-1 - of_nat d) div of_nat n :: u64) = (2 ^ 64 - 1 - d) div n" by (simp add: unat_div un)
  moreover have "x \<le> (2 ^ 64 - 1 - d) div n"
  proof -
    have "x * n \<le> 2 ^ 64 - 1 - d" using v(1) by linarith
    then show ?thesis using n(1) by (simp add: less_eq_div_iff_mult_less_eq)
  qed
  ultimately have "\<not> of_nat x > ((-1 - of_nat d) div of_nat n :: u64)" unfolding word_less_nat_alt ux by simp
  then show ?thesis using digit_of_digit_char [OF v(2) n(2), of u] by simp
qed

lemma strtoul_loop_fill:
  assumes n: "1 < n" "n \<le> 16"
  shows "v < 2 ^ 64 \<Longrightarrow> strtoul_loop (int n) (fill_loop u n v buf) 0 False = strtoul_loop (int n) buf (of_nat v) False"
proof (induction v arbitrary: buf rule: less_induct)
  case (less v)
  show ?case
  proof (cases "v < n")
    case True
    then show ?thesis using fill_loop_step [OF n(1), of u v buf] strtoul_digit [OF n, of 0 v u buf] less.prems by simp
  next
    case False
    then have lt: "v div n < v" using n by simp
    have e: "v div n * n + v mod n = v" by simp
    have "strtoul_loop (int n) (fill_loop u n v buf) 0 False
        = strtoul_loop (int n) (digit_char u (v mod n) # buf) (of_nat (v div n)) False"
      using less.IH [OF lt] less.prems lt fill_loop_step [OF n(1), of u v buf] False by simp
    also have "\<dots> = strtoul_loop (int n) buf (of_nat (v div n * n + v mod n)) False"
      by (rule strtoul_digit [OF n]) (use less.prems e n in auto)
    finally show ?thesis unfolding e .
  qed
qed

lemma digit_first:
  assumes "d < 16"
  shows "\<not> isspace (sint (digit_char u d))" "sint (digit_char u d) \<noteq> 45" "sint (digit_char u d) \<noteq> 43"
    "sint (digit_char u d) \<noteq> 120" "sint (digit_char u d) \<noteq> 88"
  using assms unfolding digit_char_sint [OF assms] isspace_def by auto

lemma strtoul_fill:
  assumes n: "1 < n" "n \<le> 16"
  shows "strtoul (fill_loop u n (unat val) []) (int n) = (val, [])"
proof -
  let ?s = "fill_loop u n (unat val) []"
  obtain ds where ds: "?s = map (digit_char u) ds" "ds \<noteq> []" "\<forall>d \<in> set ds. d < n"
    using fill_loop_chars [OF n(1), of u "unat val" "[]"] by auto
  obtain d ds' where d: "ds = d # ds'" using ds(2) by (cases ds) auto
  have d16: "d < 16" using ds(3) d n by auto
  have s1: "skip_spaces ?s = ?s" "cur ?s \<noteq> 45" "cur ?s \<noteq> 43" using digit_first [OF d16, of u] ds(1) d by (simp_all add: cur_def)
  have "cur (drop 1 ?s) \<noteq> 120 \<and> cur (drop 1 ?s) \<noteq> 88"
  proof (cases ds')
    case (Cons e es)
    then have "e < 16" using ds(3) d n by auto
    then show ?thesis using digit_first(4,5) [of e u] ds(1) d Cons by (simp add: cur_def)
  qed (use ds(1) d in \<open>simp add: cur_def\<close>)
  then have b: "strtoul_base (int n) ?s = (int n, ?s)" using n by (simp add: strtoul_base_def Let_def)
  have "unat val < 2 ^ 64" using unsigned_less [of val, where 'a = nat] by simp
  then have "strtoul_loop (int n) ?s 0 False = ([], val, False)" using strtoul_loop_fill [OF n, of "unat val" u "[]"] by simp
  then show ?thesis using s1 b by (simp add: strtoul_def Let_def)
qed

text \<open>
  C20. Printed numbers read back: for every 64-bit value, the digits \<^verbatim>\<open>fill_numbuf\<close> produces in base 10,
  16 and -16 (lower case) are parsed by \<^verbatim>\<open>strtoul\<close> to the same value with nothing left over; and
  they fit \<^verbatim>\<open>numbuf\<close>, at most 20 digits and a terminator in its 24 bytes.
\<close>

theorem numbers_round_trip:
  "strtoul (fill_numbuf val 10) 10 = (val, []) \<and> strtoul (fill_numbuf val 16) 16 = (val, [])
   \<and> strtoul (fill_numbuf val (-16)) 16 = (val, [])
   \<and> length (fill_numbuf val 10) \<le> 20 \<and> length (fill_numbuf val 16) \<le> 16 \<and> length (fill_numbuf val (-16)) \<le> 16"
proof -
  have v: "unat val < 2 ^ 64" using unsigned_less [of val, where 'a = nat] by simp
  then have b: "unat val < 10 ^ 20" "unat val < 16 ^ 16" by simp_all
  show ?thesis
    using strtoul_fill [of 10 True val] strtoul_fill [of 16 True val] strtoul_fill [of 16 False val]
      fill_loop_length [of 10 "unat val" 20 True "[]"] fill_loop_length [of 16 "unat val" 16 True "[]"]
      fill_loop_length [of 16 "unat val" 16 False "[]"] b
    by (simp add: fill_numbuf_def)
qed

lemma vprintf_ld:
  "vprintf color [37, 108, 100] [VNum w] =
     Some (map (\<lambda>x. (x, color)) ((if sint w < 0 then [45] else []) @ fill_numbuf (if sint w < 0 then - w else w) 10))"
  by (simp add: vprintf_spec_def parse_width_def parse_precision_def parse_length_def convert_def cur_def emit_def
      no_flags_def Let_def)

lemma sint_cases: "sint (w :: u64) = (if uint w < 2 ^ 63 then uint w else uint w - 2 ^ 64)"
proof -
  have b: "0 \<le> uint w" "uint w < 2 ^ 64" using uint_bounded [of w] by simp_all
  have "bit (uint w) 63 \<longleftrightarrow> \<not> uint w < 2 ^ 63"
  proof (cases "uint w < 2 ^ 63")
    case True
    then have "uint w div 2 ^ 63 = 0" using b by (intro div_pos_pos_trivial) auto
    then show ?thesis using True by (simp add: bit_iff_odd)
  next
    case False
    then have "uint w div 2 ^ 63 = 1" using b by (intro int_div_pos_eq [of _ _ 1 "uint w - 2 ^ 63"]) auto
    then show ?thesis using False by (simp add: bit_iff_odd)
  qed
  moreover have "take_bit 64 (uint w) = uint w" using b by (simp add: take_bit_int_eq_self)
  ultimately show ?thesis by (simp add: sint_uint signed_take_bit_eq_take_bit_minus)
qed

lemma u64_unat_le: "2 ^ n \<le> unat (w :: u64) \<longleftrightarrow> 2 ^ n \<le> uint w"
proof -
  have "int (unat w) = uint w" by simp
  moreover have "2 ^ n \<le> unat w \<longleftrightarrow> int (2 ^ n) \<le> int (unat w)" by (simp only: of_nat_le_iff)
  ultimately show ?thesis by (simp only: of_nat_power of_nat_numeral)
qed

lemma sint_neg_uint: "sint (w :: u64) < 0 \<Longrightarrow> 2 ^ 63 \<le> uint w"
proof (rule ccontr)
  assume n: "sint w < 0" and "\<not> 2 ^ 63 \<le> uint w"
  then have "sint w = uint w" using sint_cases [of w] by (simp only: not_le if_True)
  then show False using n uint_nonnegative [of w] by (metis not_less)
qed

lemma sint_nonneg_uint: "\<not> sint (w :: u64) < 0 \<Longrightarrow> uint w < 2 ^ 63"
proof (rule ccontr)
  assume n: "\<not> sint w < 0" and "\<not> uint w < 2 ^ 63"
  then have "sint w = uint w - 2 ^ 64" using sint_cases [of w] by (simp only: if_False)
  moreover have "uint w < 2 ^ 64" using uint_bounded [of w] by simp
  ultimately have "sint w < 0" by (simp only: diff_less_0_iff_less)
  with n show False by simp
qed

lemma sint_neg_unat: "sint (w :: u64) < 0 \<Longrightarrow> unat (- w) \<le> 2 ^ 63"
proof -
  assume n: "sint w < 0"
  have "2 ^ 63 \<le> uint w" using n by (rule sint_neg_uint)
  then have u: "2 ^ 63 \<le> unat w" by (simp only: u64_unat_le)
  have l: "unat w < 2 ^ 64" using unsigned_less [of w, where 'a = nat] by simp
  have "- w = of_nat (2 ^ 64 - unat w)" using l by (simp add: of_nat_diff)
  moreover have "take_bit 64 (2 ^ 64 - unat w) = 2 ^ 64 - unat w" using u by (intro take_bit_nat_eq_self) simp
  ultimately have "unat (- w) = 2 ^ 64 - unat w" by (simp only: unsigned_of_nat) simp
  then show ?thesis using u by simp
qed

text \<open>
  C21. Signed round trip through the formatter: what \<^verbatim>\<open>printf("%ld", x)\<close> prints, \<^verbatim>\<open>strtol\<close> reads back as \<open>x\<close>,
  for every 64-bit \<open>x\<close>, the most negative one included.
\<close>

theorem signed_round_trip:
  "\<exists>out. vprintf color [37, 108, 100] [VNum w] = Some out \<and> strtol (map fst out) 10 = (w, [])"
proof -
  let ?v = "if sint w < 0 then - w else w" and ?p = "if sint w < 0 then [45] else []"
  have f: "strtoul (fill_numbuf v 10) 10 = (v, [])" for v :: u64
    using strtoul_fill [of 10 True v] by (simp add: fill_numbuf_def)
  obtain d ds where s: "fill_numbuf ?v 10 = digit_char True d # ds" "d < 16"
  proof -
    obtain es where "fill_loop True 10 (unat ?v) [] = map (digit_char True) es" "es \<noteq> []" "\<forall>d \<in> set es. d < 10"
      using fill_loop_chars [of 10 True "unat ?v" "[]"] by auto
    then show ?thesis using that [of "hd es" "map (digit_char True) (tl es)"] by (cases es) (auto simp: fill_numbuf_def)
  qed
  have nd: "\<not> isspace (sint (digit_char True d))" "sint (digit_char True d) \<noteq> 45" using digit_first [OF s(2), of True] by auto
  have "strtol (?p @ fill_numbuf ?v 10) 10 = (w, [])"
  proof (cases "sint w < 0")
    case True
    have "skip_spaces (45 # fill_numbuf (- w) 10) = 45 # fill_numbuf (- w) 10" by (simp add: isspace_def)
    moreover have "cur (45 # fill_numbuf (- w) 10) = 45" by (simp add: cur_def)
    moreover have "\<not> - w > push_bit 63 1" using sint_neg_unat [OF True] by (simp add: word_less_nat_alt)
    ultimately show ?thesis using True f [of "- w"] by (simp add: strtol_def Let_def)
  next
    case False
    have "uint w < 2 ^ 63" using False by (rule sint_nonneg_uint)
    then have "unat w < 2 ^ 63" by (metis not_less u64_unat_le)
    then have "\<not> w > push_bit 63 1 - 1" by (simp add: word_less_nat_alt)
    moreover have "skip_spaces (fill_numbuf w 10) = fill_numbuf w 10" "cur (fill_numbuf w 10) \<noteq> 45"
      using s(1) nd False by (simp_all add: cur_def)
    ultimately show ?thesis using False f [of w] by (simp add: strtol_def Let_def)
  qed
  then have "strtol (map fst (map (\<lambda>x. (x, color)) (?p @ fill_numbuf ?v 10))) 10 = (w, [])" by (simp add: comp_def)
  with vprintf_ld [of color w] show ?thesis by blast
qed

text \<open>In base 16 the digit test accepts the characters between \<^verbatim>\<open>9\<close> and \<^verbatim>\<open>A\<close>: \<^verbatim>\<open>strtoul("1:", 16)\<close> is 26.\<close>

lemma strtoul_accepts_colon: "strtoul [49, 58] 16 = (26, [])"
  by (simp add: strtoul_def strtoul_base_def cur_def isspace_def digit_of_def Let_def)

end
