(* ===== verification/BufCache.thy ===== *)
theory BufCache
  imports Prelude
begin

text \<open>
  The buffer cache of the disk file system, \<^verbatim>\<open>struct bcentry\<close> and \<^verbatim>\<open>struct bufcache\<close> of
  \<^verbatim>\<open>k-chkfs.hh\<close> and \<^verbatim>\<open>k-chkfs.cc\<close>. The contents of a block are a type parameter \<open>'b\<close>. The three
  intrusive lists are sequences of entry indices (theory \<open>KList\<close> shows that this is what they
  implement), so \<^verbatim>\<open>qlink_.is_linked()\<close> is membership in \<^verbatim>\<open>evictq_\<close>.

  The record also holds what the cache talks to: the disk, the number of pages \<^verbatim>\<open>kalloc\<close> can still
  provide, the arbitrary contents of a freshly allocated page, and the calls that sleep. A call runs
  until it returns or until the condition of a \<^verbatim>\<open>block_until\<close> does not hold; then its result is the
  state at that point and a \<open>task\<close>, which says where the call is and holds its local variables, among
  them the list \<^verbatim>\<open>local_dirty\<close> of a \<^verbatim>\<open>sync\<close>. Other calls and the completion of a prefetch, \<open>pf_complete\<close>,
  happen before the task goes on with \<open>run_task\<close>. The \<^verbatim>\<open>sata_disk->read\<close> and \<^verbatim>\<open>write\<close> calls of the
  driver transfer whole blocks in one step, and the acceptance of a non-blocking read is an argument.
\<close>

datatype estate = es_empty | es_allocated | es_loading | es_clean | es_dirty | es_prefetching

record 'b bcentry =
  estate :: estate
  bn :: nat
  ref :: nat
  wref :: nat
  buf :: "'b option"
  pfstatus :: int

definition ne :: nat where [kconst]: "ne = 32"

text \<open>
  Where a call sleeps: \<open>TSync\<close> in \<^verbatim>\<open>get_write\<close> of the write-back loop of \<^verbatim>\<open>sync(drop)\<close>, with the entry it
  has taken from \<^verbatim>\<open>local_dirty\<close> and the rest of that list; \<open>TDrop\<close> in the dropping loop of \<^verbatim>\<open>sync\<close>, with the
  indices still to visit; \<open>TGet\<close> in the \<^verbatim>\<open>sync(0)\<close> called by \<^verbatim>\<open>get_disk_entry(bn, cleaner)\<close>; \<open>TWait\<close> in
  \<^verbatim>\<open>get_disk_entry\<close> on the prefetch in slot \<^verbatim>\<open>i\<close>; \<open>TLoad\<close> in \<^verbatim>\<open>load\<close>, on the read of another task.
\<close>

datatype 'b task =
    TSync int "nat list"
  | TDrop int "nat list"
  | TGet "nat \<Rightarrow> 'b \<Rightarrow> 'b" nat "nat list"
  | TWait "nat \<Rightarrow> 'b \<Rightarrow> 'b" nat nat
  | TLoad "nat \<Rightarrow> 'b \<Rightarrow> 'b" nat

fun local_dirty :: "'b task \<Rightarrow> nat list" where
  "local_dirty (TSync dropv L) = L"
| "local_dirty (TGet cleaner b L) = L"
| "local_dirty _ = []"

record 'b bufcache =
  ent :: "'b bcentry list"
  evictq :: "nat list"
  dirty_list :: "nat list"
  pfq :: "nat list"
  disk :: "nat \<Rightarrow> 'b"
  pages :: nat
  fresh :: 'b
  sleeping :: "'b task list"

datatype 'a wait = Blocked | Done 'a

datatype ('r, 'b) call = Ret 'r | Asleep "'b task"

definition entry_init :: "'b bcentry" where
  "entry_init = \<lparr>estate = es_empty, bn = 0, ref = 0, wref = 0, buf = None, pfstatus = E_AGAIN\<rparr>"

definition bc_init :: "(nat \<Rightarrow> 'b) \<Rightarrow> nat \<Rightarrow> 'b \<Rightarrow> 'b bufcache" where
  "bc_init d np junk = \<lparr>ent = replicate ne entry_init, evictq = [], dirty_list = [], pfq = [],
     disk = d, pages = np, fresh = junk, sleeping = []\<rparr>"

definition upd :: "nat \<Rightarrow> ('b bcentry \<Rightarrow> 'b bcentry) \<Rightarrow> 'b bufcache \<Rightarrow> 'b bufcache" where
  "upd i f c = c\<lparr>ent := (ent c)[i := f (ent c ! i)]\<rparr>"

definition be_empty :: "'b bufcache \<Rightarrow> nat \<Rightarrow> bool" where
  "be_empty c i \<longleftrightarrow> estate (ent c ! i) = es_empty"

definition bc_full :: "'b bufcache \<Rightarrow> bool" where
  "bc_full c \<longleftrightarrow> (\<forall>i \<in> set [0..<ne]. \<not> be_empty c i)"

definition bc_count :: "'b bufcache \<Rightarrow> nat" where
  "bc_count c = length (filter (\<lambda>i. \<not> be_empty c i) [0..<ne])"

subsection \<open>Entries\<close>

definition be_clear :: "nat \<Rightarrow> 'b bufcache \<Rightarrow> 'b bufcache option" where
  "be_clear i c =
     check (ref (ent c ! i) = 0)
      (Some ((upd i (\<lambda>e. e\<lparr>estate := es_empty, buf := None\<rparr>) c)
         \<lparr>pages := pages c + (if buf (ent c ! i) = None then 0 else 1)\<rparr>))"

text \<open>\<^verbatim>\<open>bcentry::load\<close>: the result is \<open>Done False\<close> when there is no memory for the block.\<close>

definition be_load :: "(nat \<Rightarrow> 'b \<Rightarrow> 'b) \<Rightarrow> nat \<Rightarrow> 'b bufcache \<Rightarrow> (bool wait \<times> 'b bufcache) option" where
  "be_load cleaner i c =
     (case estate (ent c ! i) of
        es_empty \<Rightarrow> None
      | es_allocated \<Rightarrow>
          if buf (ent c ! i) = None \<and> pages c = 0 then Some (Done False, c)
          else
            (let c' = (if buf (ent c ! i) = None then c\<lparr>pages := pages c - 1\<rparr> else c)
             in Some (Done True,
                 upd i (\<lambda>e. e\<lparr>buf := Some (cleaner i (disk c (bn e))), estate := es_clean\<rparr>) c'))
      | es_loading \<Rightarrow> Some (Blocked, c)
      | _ \<Rightarrow> Some (Done True, c))"

definition be_put :: "nat \<Rightarrow> 'b bufcache \<Rightarrow> 'b bufcache option" where
  "be_put i c =
     check (ref (ent c ! i) \<noteq> 0)
      (let c' = upd i (\<lambda>e. e\<lparr>ref := ref e - 1\<rparr>) c; e' = ent c' ! i
       in Some (if ref e' = 0 \<and> bn e' \<noteq> 0 \<and> estate e' \<noteq> es_dirty \<and> estate e' \<noteq> es_prefetching
                then c'\<lparr>evictq := evictq c' @ [i]\<rparr> else c'))"

text \<open>
  \<^verbatim>\<open>dlink_.is_linked()\<close>: the entry is on the dirty list or on the \<^verbatim>\<open>local_dirty\<close> list of a sleeping \<^verbatim>\<open>sync\<close>,
  which no longer holds the entry the \<^verbatim>\<open>sync\<close> is waiting for.
\<close>

definition dlinked :: "nat \<Rightarrow> 'b bufcache \<Rightarrow> bool" where
  "dlinked i c \<longleftrightarrow> i \<in> set (dirty_list c) \<or> (\<exists>t \<in> set (sleeping c). i \<in> set (tl (local_dirty t)))"

definition get_write :: "nat \<Rightarrow> bool \<Rightarrow> 'b bufcache \<Rightarrow> 'b bufcache wait option" where
  "get_write i push c =
     check (wref (ent c ! i) = 0 \<or> wref (ent c ! i) = 1)
      (if wref (ent c ! i) = 1 then Some Blocked
       else
         (let c' = upd i (\<lambda>e. e\<lparr>wref := wref e + 1\<rparr>) c
          in if push \<and> \<not> dlinked i c' then
               Some (Done ((upd i (\<lambda>e. e\<lparr>estate := es_dirty\<rparr>) c')\<lparr>dirty_list := dirty_list c' @ [i]\<rparr>))
             else Some (Done c')))"

definition put_write :: "nat \<Rightarrow> 'b bufcache \<Rightarrow> 'b bufcache option" where
  "put_write i c =
     check (wref (ent c ! i) = 1) (Some (upd i (\<lambda>e. e\<lparr>wref := wref e - 1\<rparr>) c))"

text \<open>A store through \<^verbatim>\<open>e->buf_\<close> by a task that holds the entry.\<close>

definition be_modify :: "nat \<Rightarrow> ('b \<Rightarrow> 'b) \<Rightarrow> 'b bufcache \<Rightarrow> 'b bufcache" where
  "be_modify i f c = upd i (\<lambda>e. e\<lparr>buf := map_option f (buf e)\<rparr>) c"

subsection \<open>Eviction\<close>

definition evict :: "'b bufcache \<Rightarrow> (nat option \<times> 'b bufcache) option" where
  "evict c =
     (case evictq c of
        i # q \<Rightarrow> check (i < ne) (map_option (Pair (Some i)) (be_clear i (c\<lparr>evictq := q\<rparr>)))
      | [] \<Rightarrow>
          (case find (\<lambda>i. pfstatus (ent c ! i) \<noteq> E_AGAIN) (pfq c) of
             None \<Rightarrow> Some (None, c)
           | Some i \<Rightarrow> map_option (Pair (Some i)) (be_clear i (c\<lparr>pfq := remove1 i (pfq c)\<rparr>))))"

definition has_uref_dirty_blocks :: "'b bufcache \<Rightarrow> bool" where
  "has_uref_dirty_blocks c \<longleftrightarrow> (\<exists>i \<in> set (take ne (dirty_list c)). ref (ent c ! i) = 0)"

subsection \<open>Writing back\<close>

text \<open>
  The write-back loop of \<^verbatim>\<open>sync\<close> over the local list of dirty entries. The list in the result is what is
  left when the loop sleeps, with the entry it waits for first; it is empty when the loop is over.
\<close>

fun sync_loop :: "int \<Rightarrow> nat list \<Rightarrow> 'b bufcache \<Rightarrow> (nat list \<times> 'b bufcache) option" where
  "sync_loop dropv [] c = Some ([], c)"
| "sync_loop dropv (i # q) c =
     (case get_write i False c of
        None \<Rightarrow> None
      | Some Blocked \<Rightarrow> Some (i # q, c)
      | Some (Done c1) \<Rightarrow>
          (let e = ent c1 ! i
           in case buf e of
                None \<Rightarrow> None
              | Some x \<Rightarrow>
                  (let c2 = c1\<lparr>disk := (disk c1)(bn e := x)\<rparr>;
                       c3 = upd i (\<lambda>e. e\<lparr>estate := es_clean\<rparr>) c2;
                       c4 = (if ref e = 0 \<and> bn e \<noteq> 0 \<and> dropv \<le> 0 then c3\<lparr>evictq := evictq c3 @ [i]\<rparr> else c3)
                   in case put_write i c4 of None \<Rightarrow> None | Some c5 \<Rightarrow> sync_loop dropv q c5)))"

text \<open>The dropping loop of \<^verbatim>\<open>sync\<close>, over the entry indices, and what it does after its wait.\<close>

fun drop_loop :: "int \<Rightarrow> nat list \<Rightarrow> 'b bufcache \<Rightarrow> (nat list \<times> 'b bufcache) option" where
  "drop_loop dropv [] c = Some ([], c)"
| "drop_loop dropv (i # is) c =
     (let e = ent c ! i
      in check (ref e = 0 \<or> estate e \<noteq> es_empty)
          (check (\<not> (ref e > 0 \<and> dropv > 1 \<and> bn e \<ge> 2))
            (if ref e = 0 then
               (if i \<notin> set (evictq c) \<and> i \<in> set (pfq c) \<and> pfstatus e = E_AGAIN then Some (i # is, c)
                else
                  (let c' = (if i \<in> set (evictq c) then c\<lparr>evictq := remove1 i (evictq c)\<rparr>
                             else if i \<in> set (pfq c) then c\<lparr>pfq := remove1 i (pfq c)\<rparr>
                             else c)
                   in case be_clear i c' of None \<Rightarrow> None | Some c'' \<Rightarrow> drop_loop dropv is c''))
             else drop_loop dropv is c)))"

fun drop_resume :: "int \<Rightarrow> nat list \<Rightarrow> 'b bufcache \<Rightarrow> (nat list \<times> 'b bufcache) option" where
  "drop_resume dropv [] c = Some ([], c)"
| "drop_resume dropv (i # is) c =
     (if pfstatus (ent c ! i) = E_AGAIN then Some (i # is, c)
      else
        check (i \<notin> set (evictq c))
         (case be_clear i (c\<lparr>pfq := remove1 i (pfq c)\<rparr>) of None \<Rightarrow> None | Some c' \<Rightarrow> drop_loop dropv is c'))"

fun drop_done :: "int \<Rightarrow> (nat list \<times> 'b bufcache) option \<Rightarrow> ((int, 'b) call \<times> 'b bufcache) option" where
  "drop_done dropv None = None"
| "drop_done dropv (Some (L, c)) = Some (if L = [] then Ret 0 else Asleep (TDrop dropv L), c)"

definition sync_rest :: "int \<Rightarrow> nat list \<Rightarrow> 'b bufcache \<Rightarrow> ((int, 'b) call \<times> 'b bufcache) option" where
  "sync_rest dropv L c =
     (case sync_loop dropv L c of
        None \<Rightarrow> None
      | Some (i # q, c') \<Rightarrow> Some (Asleep (TSync dropv (i # q)), c')
      | Some ([], c') \<Rightarrow> if dropv > 0 then drop_done dropv (drop_loop dropv [0..<ne] c') else Some (Ret 0, c'))"

definition bc_sync :: "int \<Rightarrow> 'b bufcache \<Rightarrow> ((int, 'b) call \<times> 'b bufcache) option" where
  "bc_sync dropv c = sync_rest dropv (dirty_list c) (c\<lparr>dirty_list := []\<rparr>)"

subsection \<open>Obtaining a block\<close>

definition find_block :: "nat \<Rightarrow> 'b bufcache \<Rightarrow> nat option" where
  "find_block b c = find (\<lambda>i. \<not> be_empty c i \<and> bn (ent c ! i) = b) [0..<ne]"

definition find_empty :: "'b bufcache \<Rightarrow> nat option" where
  "find_empty c = find (be_empty c) [0..<ne]"

text \<open>The end of \<^verbatim>\<open>get_disk_entry\<close>: take a reference on slot \<open>i\<close> and load it.\<close>

definition gde_finish :: "(nat \<Rightarrow> 'b \<Rightarrow> 'b) \<Rightarrow> nat \<Rightarrow> 'b bufcache \<Rightarrow> ((nat option, 'b) call \<times> 'b bufcache) option" where
  "gde_finish cleaner i c =
     (case be_load cleaner i c of
        None \<Rightarrow> None
      | Some (Blocked, c') \<Rightarrow> Some (Asleep (TLoad cleaner i), c')
      | Some (Done True, c') \<Rightarrow> Some (Ret (Some i), c')
      | Some (Done False, c') \<Rightarrow> map_option (Pair (Ret None)) (be_clear i (upd i (\<lambda>e. e\<lparr>ref := ref e - 1\<rparr>) c')))"

definition gde_load :: "(nat \<Rightarrow> 'b \<Rightarrow> 'b) \<Rightarrow> nat \<Rightarrow> nat \<Rightarrow> 'b bufcache \<Rightarrow> ((nat option, 'b) call \<times> 'b bufcache) option" where
  "gde_load cleaner b i c =
     (let c1 = (if be_empty c i then upd i (\<lambda>e. e\<lparr>estate := es_allocated, bn := b\<rparr>) c else c);
          c2 = upd i (\<lambda>e. e\<lparr>ref := ref e + 1\<rparr>) c1
      in gde_finish cleaner i (if i \<in> set (evictq c2) then c2\<lparr>evictq := remove1 i (evictq c2)\<rparr> else c2))"

text \<open>
  The slot \<open>i\<close> held block \<open>b\<close> when it was found: a prefetched block is claimed once its read is done.
  After the wait the code goes by what it then finds in slot \<open>i\<close>, and does not look at its block number.
\<close>

definition gde_claim :: "(nat \<Rightarrow> 'b \<Rightarrow> 'b) \<Rightarrow> nat \<Rightarrow> nat \<Rightarrow> 'b bufcache \<Rightarrow> ((nat option, 'b) call \<times> 'b bufcache) option" where
  "gde_claim cleaner b i c =
     (if estate (ent c ! i) \<noteq> es_prefetching then gde_load cleaner b i c
      else
        check (i \<notin> set (evictq c))
         (Some (Ret (Some i),
            (upd i (\<lambda>e. e\<lparr>ref := ref e + 1, estate := es_clean, buf := map_option (cleaner i) (buf e)\<rparr>) c)
              \<lparr>pfq := remove1 i (pfq c)\<rparr>)))"

definition gde_after_wait :: "(nat \<Rightarrow> 'b \<Rightarrow> 'b) \<Rightarrow> nat \<Rightarrow> nat \<Rightarrow> 'b bufcache \<Rightarrow> ((nat option, 'b) call \<times> 'b bufcache) option" where
  "gde_after_wait cleaner b i c =
     (if pfstatus (ent c ! i) = E_AGAIN then Some (Asleep (TWait cleaner b i), c) else gde_claim cleaner b i c)"

partial_function (option) get_disk_entry ::
  "(nat \<Rightarrow> 'b \<Rightarrow> 'b) \<Rightarrow> nat \<Rightarrow> 'b bufcache \<Rightarrow> ((nat option, 'b) call \<times> 'b bufcache) option" where
  "get_disk_entry cleaner b c =
     (case find_block b c of
        Some i \<Rightarrow> if estate (ent c ! i) = es_prefetching then gde_after_wait cleaner b i c else gde_claim cleaner b i c
      | None \<Rightarrow>
          (case find_empty c of
             Some i \<Rightarrow> gde_load cleaner b i c
           | None \<Rightarrow>
               (case evict c of
                  None \<Rightarrow> None
                | Some (Some i, c') \<Rightarrow> gde_load cleaner b i c'
                | Some (None, c') \<Rightarrow>
                    if has_uref_dirty_blocks c' then
                      (case bc_sync 0 c' of
                         None \<Rightarrow> None
                       | Some (Asleep t, c'') \<Rightarrow> Some (Asleep (TGet cleaner b (local_dirty t)), c'')
                       | Some (Ret r, c'') \<Rightarrow> get_disk_entry cleaner b c'')
                    else Some (Ret None, c'))))"

definition gde_after_sync :: "(nat \<Rightarrow> 'b \<Rightarrow> 'b) \<Rightarrow> nat \<Rightarrow> nat list \<Rightarrow> 'b bufcache \<Rightarrow> ((nat option, 'b) call \<times> 'b bufcache) option" where
  "gde_after_sync cleaner b L c =
     (case sync_rest 0 L c of
        None \<Rightarrow> None
      | Some (Asleep t, c') \<Rightarrow> Some (Asleep (TGet cleaner b (local_dirty t)), c')
      | Some (Ret r, c') \<Rightarrow> get_disk_entry cleaner b c')"

text \<open>A call that sleeps joins \<open>sleeping\<close>; \<open>run_task\<close> is the next piece of a task.\<close>

fun asleep :: "('r, 'b) call \<times> 'b bufcache \<Rightarrow> 'b bufcache" where
  "asleep (Ret r, c) = c"
| "asleep (Asleep t, c) = c\<lparr>sleeping := sleeping c @ [t]\<rparr>"

fun run_task :: "'b task \<Rightarrow> 'b bufcache \<Rightarrow> 'b bufcache option" where
  "run_task (TSync dropv L) c = map_option asleep (sync_rest dropv L c)"
| "run_task (TDrop dropv L) c = map_option asleep (drop_done dropv (drop_resume dropv L c))"
| "run_task (TGet cleaner b L) c = map_option asleep (gde_after_sync cleaner b L c)"
| "run_task (TWait cleaner b i) c = map_option asleep (gde_after_wait cleaner b i c)"
| "run_task (TLoad cleaner i) c = map_option asleep (gde_finish cleaner i c)"

definition woken :: "nat \<Rightarrow> 'b bufcache \<Rightarrow> 'b bufcache" where
  "woken k c = c\<lparr>sleeping := take k (sleeping c) @ drop (Suc k) (sleeping c)\<rparr>"

subsection \<open>Prefetching\<close>

text \<open>\<^verbatim>\<open>bcentry::prefetch_block\<close>; \<open>refused\<close> says that the disk has no free command slot.\<close>

definition prefetch_block :: "bool \<Rightarrow> nat \<Rightarrow> 'b bufcache \<Rightarrow> (bool \<times> 'b bufcache) option" where
  "prefetch_block refused i c =
     check (be_empty c i)
      (if buf (ent c ! i) = None \<and> pages c = 0 then Some (False, c)
       else
         (let c1 = (if buf (ent c ! i) = None then (upd i (\<lambda>e. e\<lparr>buf := Some (fresh c)\<rparr>) c)\<lparr>pages := pages c - 1\<rparr> else c);
              c2 = upd i (\<lambda>e. e\<lparr>pfstatus := E_AGAIN, estate := es_prefetching\<rparr>) c1
          in if refused then Some (False, c2) else Some (True, c2\<lparr>pfq := pfq c2 @ [i]\<rparr>)))"

text \<open>
  One round of \<^verbatim>\<open>bufcache::prefetch\<close> for block \<open>b\<close>. The scan asserts that \<^verbatim>\<open>e_[empty_slot]\<close> is not on
  the eviction queue; at the first empty slot \<^verbatim>\<open>empty_slot\<close> is still \<^verbatim>\<open>-1\<close>, and \<open>oob\<close> is what that
  read outside the array gives. The Boolean result is false when the function returns \<open>-1\<close>.
\<close>

fun prefetch_scan :: "bool \<Rightarrow> nat \<Rightarrow> 'b bufcache \<Rightarrow> nat list \<Rightarrow> nat option \<Rightarrow> (bool \<times> nat option) option" where
  "prefetch_scan oob b c [] slot = Some (False, slot)"
| "prefetch_scan oob b c (i # is) slot =
     (if be_empty c i then
        check (\<not> (case slot of None \<Rightarrow> oob | Some j \<Rightarrow> j \<in> set (evictq c)))
         (prefetch_scan oob b c is (if slot = None then Some i else slot))
      else if bn (ent c ! i) = b then Some (True, slot)
      else prefetch_scan oob b c is slot)"

definition prefetch_one :: "bool \<Rightarrow> bool \<Rightarrow> nat \<Rightarrow> 'b bufcache \<Rightarrow> (bool \<times> 'b bufcache) option" where
  "prefetch_one oob refused b c =
     (case prefetch_scan oob b c [0..<ne] None of
        None \<Rightarrow> None
      | Some (True, _) \<Rightarrow> Some (True, c)
      | Some (False, slot) \<Rightarrow>
          (case (case slot of Some i \<Rightarrow> Some (Some i, c) | None \<Rightarrow> evict c) of
             None \<Rightarrow> None
           | Some (None, c') \<Rightarrow> Some (False, c')
           | Some (Some i, c') \<Rightarrow>
               (case prefetch_block refused i (upd i (\<lambda>e. e\<lparr>bn := b\<rparr>) c') of
                  None \<Rightarrow> None
                | Some (_, c'') \<Rightarrow> check (i \<notin> set (evictq c'')) (Some (True, c'')))))"

text \<open>\<^verbatim>\<open>bufcache::prefetch\<close> for the blocks \<open>bs\<close> that its file iterator visits.\<close>

fun bc_prefetch :: "bool \<Rightarrow> (nat \<Rightarrow> bool) \<Rightarrow> nat list \<Rightarrow> 'b bufcache \<Rightarrow> (int \<times> 'b bufcache) option" where
  "bc_prefetch oob refused [] c = Some (0, c)"
| "bc_prefetch oob refused (b # bs) c =
     (case prefetch_one oob (refused b) b c of
        None \<Rightarrow> None
      | Some (False, c') \<Rightarrow> Some (- 1, c')
      | Some (True, c') \<Rightarrow> bc_prefetch oob refused bs c')"

text \<open>The disk completes the prefetch of slot \<open>i\<close> and stores the status the driver was given.\<close>

definition pf_complete :: "nat \<Rightarrow> 'b bufcache \<Rightarrow> 'b bufcache" where
  "pf_complete i c = upd i (\<lambda>e. e\<lparr>buf := Some (disk c (bn e)), pfstatus := 0\<rparr>) c"

subsection \<open>The invariant\<close>

text \<open>
  The entries with a write-back to come: those on the dirty list and those that a sleeping write-back
  still has to write, including the one it waits for.
\<close>

definition slept :: "'b bufcache \<Rightarrow> nat list" where
  "slept c = concat (map local_dirty (sleeping c))"

definition pending :: "'b bufcache \<Rightarrow> nat list" where
  "pending c = dirty_list c @ slept c"

lemma slept_simps [simp]:
  "slept (c\<lparr>ent := x\<rparr>) = slept c" "slept (c\<lparr>evictq := l\<rparr>) = slept c" "slept (c\<lparr>dirty_list := l\<rparr>) = slept c"
  "slept (c\<lparr>pfq := l\<rparr>) = slept c" "slept (c\<lparr>disk := d\<rparr>) = slept c" "slept (c\<lparr>pages := n\<rparr>) = slept c"
  "slept (upd i f c) = slept c"
  by (simp_all add: slept_def upd_def)

lemma pending_simps [simp]:
  "pending (c\<lparr>ent := x\<rparr>) = pending c" "pending (c\<lparr>evictq := l\<rparr>) = pending c" "pending (c\<lparr>dirty_list := l\<rparr>) = l @ slept c"
  "pending (c\<lparr>pfq := l\<rparr>) = pending c" "pending (c\<lparr>disk := d\<rparr>) = pending c" "pending (c\<lparr>pages := n\<rparr>) = pending c"
  "pending (upd i f c) = pending c"
  by (simp_all add: pending_def upd_def)

text \<open>
  What holds of a slot between calls, given its membership in the eviction queue, the pending entries and
  the prefetch queue. \<open>er\<close> removes from a block what only exists in memory (the fields a cleaner
  resets). With \<open>st\<close> false, unreferenced clean slots may be missing from the eviction queue, as they
  are between the two loops of \<^verbatim>\<open>sync(drop > 0)\<close>.
\<close>

definition slot_ok :: "bool \<Rightarrow> ('b \<Rightarrow> 'p) \<Rightarrow> (nat \<Rightarrow> 'b) \<Rightarrow> 'b bcentry \<Rightarrow> bool \<Rightarrow> bool \<Rightarrow> bool \<Rightarrow> bool" where
  "slot_ok st er d e q dl pf \<longleftrightarrow>
     (case estate e of
        es_empty \<Rightarrow> buf e = None \<and> ref e = 0 \<and> wref e = 0 \<and> \<not> q \<and> \<not> dl \<and> \<not> pf
      | es_clean \<Rightarrow> (\<exists>b. buf e = Some b \<and> er b = er (d (bn e))) \<and> wref e = 0 \<and> \<not> dl \<and> \<not> pf \<and>
          (if st then q = (ref e = 0 \<and> bn e \<noteq> 0) else q \<longrightarrow> ref e = 0 \<and> bn e \<noteq> 0)
      | es_dirty \<Rightarrow> buf e \<noteq> None \<and> wref e \<le> 1 \<and> (wref e = 1 \<longrightarrow> ref e > 0) \<and> \<not> q \<and> dl \<and> \<not> pf
      | es_prefetching \<Rightarrow> buf e \<noteq> None \<and> ref e = 0 \<and> wref e = 0 \<and> \<not> q \<and> \<not> dl \<and>
          (\<not> pf \<longrightarrow> pfstatus e = E_AGAIN) \<and> (pfstatus e \<noteq> E_AGAIN \<longrightarrow> buf e = Some (d (bn e)))
      | _ \<Rightarrow> False)"

definition qs_ok :: "nat list \<Rightarrow> bool" where
  "qs_ok xs \<longleftrightarrow> distinct xs \<and> (\<forall>x \<in> set xs. x < ne)"

definition bc_inv :: "bool \<Rightarrow> ('b \<Rightarrow> 'p) \<Rightarrow> 'b bufcache \<Rightarrow> bool" where
  "bc_inv st er c \<longleftrightarrow>
     length (ent c) = ne \<and> qs_ok (evictq c) \<and> qs_ok (pending c) \<and> qs_ok (pfq c) \<and>
     (\<forall>i < ne. slot_ok st er (disk c) (ent c ! i) (i \<in> set (evictq c)) (i \<in> set (pending c)) (i \<in> set (pfq c))) \<and>
     (\<forall>i < ne. \<forall>j < ne. i \<noteq> j \<and> estate (ent c ! i) \<noteq> es_empty \<and> estate (ent c ! j) \<noteq> es_empty \<longrightarrow>
        bn (ent c ! i) \<noteq> bn (ent c ! j))"

text \<open>The block contents a reader of the cache sees.\<close>

definition bc_view :: "('b \<Rightarrow> 'p) \<Rightarrow> 'b bufcache \<Rightarrow> nat \<Rightarrow> 'p" where
  "bc_view er c b =
     er (case find_block b c of
           Some i \<Rightarrow> if estate (ent c ! i) = es_clean \<or> estate (ent c ! i) = es_dirty then the (buf (ent c ! i)) else disk c b
         | None \<Rightarrow> disk c b)"

lemma qs_ok_simps [simp]:
  "qs_ok []" "qs_ok (x # xs) \<longleftrightarrow> x < ne \<and> x \<notin> set xs \<and> qs_ok xs"
  "qs_ok (xs @ [x]) \<longleftrightarrow> x < ne \<and> x \<notin> set xs \<and> qs_ok xs"
  by (auto simp: qs_ok_def)

lemma qs_ok_remove1 [simp]: "qs_ok xs \<Longrightarrow> qs_ok (remove1 x xs)" "qs_ok xs \<Longrightarrow> set (remove1 x xs) = set xs - {x}"
  by (auto simp: qs_ok_def dest: notin_set_remove1)

lemma slotD: "bc_inv st er c \<Longrightarrow> i < ne \<Longrightarrow>
   slot_ok st er (disk c) (ent c ! i) (i \<in> set (evictq c)) (i \<in> set (pending c)) (i \<in> set (pfq c))"
  by (simp add: bc_inv_def)

lemma bn_unique: "bc_inv st er c \<Longrightarrow> i < ne \<Longrightarrow> j < ne \<Longrightarrow> estate (ent c ! i) \<noteq> es_empty \<Longrightarrow>
   estate (ent c ! j) \<noteq> es_empty \<Longrightarrow> bn (ent c ! i) = bn (ent c ! j) \<Longrightarrow> i = j"
  unfolding bc_inv_def by blast

lemma find_block_Some: "find_block b c = Some i \<Longrightarrow> i < ne \<and> estate (ent c ! i) \<noteq> es_empty \<and> bn (ent c ! i) = b"
  by (auto simp: find_block_def be_empty_def find_Some_iff)

lemma find_block_None: "find_block b c = None \<Longrightarrow> i < ne \<Longrightarrow> estate (ent c ! i) \<noteq> es_empty \<Longrightarrow> bn (ent c ! i) \<noteq> b"
  by (auto simp: find_block_def be_empty_def find_None_iff)

lemma find_blockI:
  assumes "bc_inv st er c" "i < ne" "estate (ent c ! i) \<noteq> es_empty"
  shows "find_block (bn (ent c ! i)) c = Some i"
proof (cases "find_block (bn (ent c ! i)) c")
  case None
  then show ?thesis using find_block_None assms by blast
next
  case (Some j)
  then show ?thesis using find_block_Some [OF Some] bn_unique [OF assms(1) _ assms(2)] assms(3) by auto
qed

lemma find_empty_Some: "find_empty c = Some i \<Longrightarrow> i < ne \<and> estate (ent c ! i) = es_empty"
  by (auto simp: find_empty_def be_empty_def find_Some_iff)

text \<open>Only dirty slots make the view differ from the disk.\<close>

lemma view_dirty:
  assumes "bc_inv st er c" "i < ne" "estate (ent c ! i) = es_dirty"
  shows "bc_view er c (bn (ent c ! i)) = er (the (buf (ent c ! i)))"
  using find_blockI [OF assms(1,2)] assms(3) by (simp add: bc_view_def)

lemma view_disk:
  assumes "bc_inv st er c" "\<And>i. i < ne \<Longrightarrow> estate (ent c ! i) = es_dirty \<Longrightarrow> bn (ent c ! i) \<noteq> b"
  shows "bc_view er c b = er (disk c b)"
proof (cases "find_block b c")
  case (Some i)
  note F = find_block_Some [OF this]
  then show ?thesis using slotD [OF assms(1), of i] assms(2) [of i] Some
    by (auto simp: bc_view_def slot_ok_def split: estate.splits)
qed (simp add: bc_view_def)

lemma view_eqI:
  assumes "bc_inv st er c" "bc_inv st' er c'"
    and d: "\<And>b. (\<And>i. i < ne \<Longrightarrow> estate (ent c ! i) = es_dirty \<Longrightarrow> bn (ent c ! i) \<noteq> b) \<Longrightarrow> er (disk c' b) = er (disk c b)"
    and i: "\<And>i. i < ne \<Longrightarrow> estate (ent c' ! i) = es_dirty \<Longrightarrow>
       estate (ent c ! i) = es_dirty \<and> bn (ent c' ! i) = bn (ent c ! i) \<and> buf (ent c' ! i) = buf (ent c ! i)"
    and j: "\<And>i. i < ne \<Longrightarrow> estate (ent c ! i) = es_dirty \<Longrightarrow> estate (ent c' ! i) \<noteq> es_dirty \<Longrightarrow>
       er (disk c' (bn (ent c ! i))) = er (the (buf (ent c ! i)))"
  shows "bc_view er c' = bc_view er c"
proof
  fix b
  show "bc_view er c' b = bc_view er c b"
  proof (cases "\<exists>i < ne. estate (ent c ! i) = es_dirty \<and> bn (ent c ! i) = b")
    case True
    then obtain k where k: "k < ne" "estate (ent c ! k) = es_dirty" "bn (ent c ! k) = b" by auto
    show ?thesis
    proof (cases "estate (ent c' ! k) = es_dirty")
      case True
      then show ?thesis using view_dirty [OF assms(1) k(1,2)] view_dirty [OF assms(2) k(1) True] i [OF k(1) True] k(3) by simp
    next
      case False
      have "bn (ent c' ! l) \<noteq> b" if "l < ne" "estate (ent c' ! l) = es_dirty" for l
        using i [OF that] bn_unique [OF assms(1) that(1) k(1)] k False that by auto
      then show ?thesis using view_disk [OF assms(2), of b] view_dirty [OF assms(1) k(1,2)] j [OF k(1,2) False] k(3) by simp
    qed
  next
    case False
    then have "bn (ent c' ! l) \<noteq> b" if "l < ne" "estate (ent c' ! l) = es_dirty" for l using i [OF that] that by auto
    then show ?thesis using view_disk [OF assms(2), of b] view_disk [OF assms(1), of b] d [of b] False by auto
  qed
qed

text \<open>A step that changes one slot and its queue memberships.\<close>

lemma inv_step:
  assumes inv: "bc_inv st er c" and i: "i < ne" and c': "ent c' = (ent c)[i := e']"
    and q: "qs_ok (evictq c')" "qs_ok (pending c')" "qs_ok (pfq c')"
    and m: "\<And>j. j \<noteq> i \<Longrightarrow> j \<in> set (evictq c') \<longleftrightarrow> j \<in> set (evictq c)"
      "\<And>j. j \<noteq> i \<Longrightarrow> j \<in> set (pending c') \<longleftrightarrow> j \<in> set (pending c)"
      "\<And>j. j \<noteq> i \<Longrightarrow> j \<in> set (pfq c') \<longleftrightarrow> j \<in> set (pfq c)"
    and d: "\<And>j. j < ne \<Longrightarrow> j \<noteq> i \<Longrightarrow> estate (ent c ! j) \<noteq> es_empty \<Longrightarrow> disk c' (bn (ent c ! j)) = disk c (bn (ent c ! j))"
    and s: "slot_ok st er (disk c') e' (i \<in> set (evictq c')) (i \<in> set (pending c')) (i \<in> set (pfq c'))"
    and u: "\<And>j. j < ne \<Longrightarrow> j \<noteq> i \<Longrightarrow> estate (ent c ! j) \<noteq> es_empty \<Longrightarrow> estate e' \<noteq> es_empty \<Longrightarrow> bn (ent c ! j) \<noteq> bn e'"
  shows "bc_inv st er c'"
proof -
  have l: "length (ent c) = ne" using inv by (simp add: bc_inv_def)
  have n: "ent c' ! j = (if j = i then e' else ent c ! j)" if "j < ne" for j using that c' l by (simp add: nth_list_update)
  have "slot_ok st er (disk c') (ent c' ! j) (j \<in> set (evictq c')) (j \<in> set (pending c')) (j \<in> set (pfq c'))" if j: "j < ne" for j
  proof (cases "j = i")
    case True
    then show ?thesis using s n [OF j] by simp
  next
    case False
    have "slot_ok st er (disk c') (ent c ! j) x y z = slot_ok st er (disk c) (ent c ! j) x y z" for x y z
      using d [OF j False] by (cases "estate (ent c ! j)") (simp_all add: slot_ok_def)
    then show ?thesis using slotD [OF inv j] m [OF False] n [OF j] False by simp
  qed
  moreover have "bn (ent c' ! j) \<noteq> bn (ent c' ! k)"
    if "j < ne" "k < ne" "j \<noteq> k" "estate (ent c' ! j) \<noteq> es_empty" "estate (ent c' ! k) \<noteq> es_empty" for j k
    using that n [OF that(1)] n [OF that(2)] u [of j] u [of k] bn_unique [OF inv that(1,2)] by (auto split: if_splits)
  ultimately show ?thesis using l c' q by (auto simp: bc_inv_def)
qed

subsection \<open>Each operation keeps the invariant and the view\<close>

text \<open>
  \<open>frame c c'\<close>: entries that some task refers to keep their block number, contents and write
  reference; \<open>refs_same\<close>: no reference count changes.
\<close>

definition frame :: "'b bufcache \<Rightarrow> 'b bufcache \<Rightarrow> bool" where
  "frame c c' \<longleftrightarrow> (\<forall>j < ne. ref (ent c ! j) > 0 \<longrightarrow>
     bn (ent c' ! j) = bn (ent c ! j) \<and> buf (ent c' ! j) = buf (ent c ! j) \<and> wref (ent c' ! j) = wref (ent c ! j))"

definition refs_same :: "'b bufcache \<Rightarrow> 'b bufcache \<Rightarrow> bool" where
  "refs_same c c' \<longleftrightarrow> (\<forall>j < ne. ref (ent c' ! j) = ref (ent c ! j))"

definition keeps :: "bool \<Rightarrow> ('b \<Rightarrow> 'p) \<Rightarrow> 'b bufcache \<Rightarrow> 'b bufcache \<Rightarrow> bool" where
  "keeps st er c c' \<longleftrightarrow> bc_inv st er c' \<and> bc_view er c' = bc_view er c \<and> frame c c'"

lemma frame_refl [simp]: "frame c c" "refs_same c c" by (simp_all add: frame_def refs_same_def)

lemma frame_trans: "frame c c1 \<Longrightarrow> refs_same c c1 \<Longrightarrow> frame c1 c2 \<Longrightarrow> frame c c2"
  by (auto simp: frame_def refs_same_def)

lemma refs_trans: "refs_same c c1 \<Longrightarrow> refs_same c1 c2 \<Longrightarrow> refs_same c c2"
  by (simp add: refs_same_def)

lemma inv_length: "bc_inv st er c \<Longrightarrow> length (ent c) = ne"
  by (simp add: bc_inv_def)

lemma inv_queues: "bc_inv st er c \<Longrightarrow> qs_ok (evictq c) \<and> qs_ok (pending c) \<and> qs_ok (pfq c)"
  by (simp add: bc_inv_def)

lemma upd_sel [simp]:
  "evictq (upd i f c) = evictq c" "dirty_list (upd i f c) = dirty_list c" "sleeping (upd i f c) = sleeping c" "pfq (upd i f c) = pfq c"
  "disk (upd i f c) = disk c" "pages (upd i f c) = pages c" "fresh (upd i f c) = fresh c"
  "ent (upd i f c) = (ent c)[i := f (ent c ! i)]"
  by (simp_all add: upd_def)

text \<open>Emptying an unreferenced slot that is not dirty.\<close>

lemma empty_slot:
  assumes inv: "bc_inv st er c" and i: "i < ne" "ref (ent c ! i) = 0" "estate (ent c ! i) \<noteq> es_dirty"
    and c': "ent c' = (ent c)[i := (ent c ! i)\<lparr>estate := es_empty, buf := None\<rparr>]"
      "evictq c' = remove1 i (evictq c)" "pending c' = pending c" "pfq c' = remove1 i (pfq c)" "disk c' = disk c"
  shows "keeps st er c c' \<and> refs_same c c'"
proof -
  note S = slotD [OF inv i(1)] and q = inv_queues [OF inv] and l = inv_length [OF inv]
  have "wref (ent c ! i) = 0" "i \<notin> set (pending c)" using S i(2,3) by (cases "estate (ent c ! i)"; simp add: slot_ok_def)+
  then have s: "slot_ok st er (disk c') ((ent c ! i)\<lparr>estate := es_empty, buf := None\<rparr>) (i \<in> set (evictq c'))
     (i \<in> set (pending c')) (i \<in> set (pfq c'))" using q c'(2-4) i by (simp add: slot_ok_def)
  have inv': "bc_inv st er c'"
    by (rule inv_step [OF inv i(1) c'(1) _ _ _ _ _ _ _ s]) (use q c'(2-5) in simp_all)
  have "bc_view er c' = bc_view er c"
    by (rule view_eqI [OF inv inv']) (use c' i l in \<open>auto simp: nth_list_update split: if_splits\<close>)
  then show ?thesis using inv' c'(1) i l by (auto simp: keeps_def frame_def refs_same_def nth_list_update)
qed

lemma evict_correct:
  assumes inv: "bc_inv True er c"
  shows "\<exists>r c'. evict c = Some (r, c') \<and> keeps True er c c' \<and> refs_same c c' \<and> sleeping c' = sleeping c \<and>
     (\<forall>j < ne. estate (ent c' ! j) \<noteq> es_empty \<longrightarrow> ent c' ! j = ent c ! j) \<and>
     (case r of Some i \<Rightarrow> i < ne \<and> estate (ent c' ! i) = es_empty \<and> pages c' > 0
      | None \<Rightarrow> c' = c \<and> evictq c = [] \<and> (\<forall>i \<in> set (pfq c). pfstatus (ent c ! i) = E_AGAIN))"
proof (cases "evictq c")
  case (Cons i q)
  note qs = inv_queues [OF inv]
  have i: "i < ne" "i \<notin> set q" using qs Cons by auto
  have S: "estate (ent c ! i) = es_clean" "ref (ent c ! i) = 0" "i \<notin> set (pfq c)" "buf (ent c ! i) \<noteq> None"
    using slotD [OF inv i(1)] Cons by (auto simp: slot_ok_def split: estate.splits)
  define c' where "c' = (upd i (\<lambda>e. e\<lparr>estate := es_empty, buf := None\<rparr>) (c\<lparr>evictq := q\<rparr>))
         \<lparr>pages := pages c + (if buf (ent c ! i) = None then 0 else 1)\<rparr>"
  have E: "evict c = Some (Some i, c')" using Cons i S by (simp add: evict_def be_clear_def c'_def)
  have "keeps True er c c' \<and> refs_same c c'"
    by (rule empty_slot [OF inv i(1) S(2)]) (use S Cons i in \<open>simp_all add: c'_def remove1_idem\<close>)
  then show ?thesis using E i S inv_length [OF inv] by (auto simp: c'_def nth_list_update)
next
  case Nil
  show ?thesis
  proof (cases "find (\<lambda>i. pfstatus (ent c ! i) \<noteq> E_AGAIN) (pfq c)")
    case None
    then have "\<forall>i \<in> set (pfq c). pfstatus (ent c ! i) = E_AGAIN" by (auto simp: find_None_iff)
    then show ?thesis using None Nil inv by (simp add: evict_def keeps_def)
  next
    case (Some i)
    then have p: "i \<in> set (pfq c)" "pfstatus (ent c ! i) \<noteq> E_AGAIN" by (auto simp: find_Some_iff)
    have i: "i < ne" using p inv_queues [OF inv] by (simp add: qs_ok_def)
    have S: "estate (ent c ! i) = es_prefetching" "ref (ent c ! i) = 0" "buf (ent c ! i) \<noteq> None"
      using slotD [OF inv i] p by (auto simp: slot_ok_def split: estate.splits)
    define c' where "c' = (upd i (\<lambda>e. e\<lparr>estate := es_empty, buf := None\<rparr>) (c\<lparr>pfq := remove1 i (pfq c)\<rparr>))
         \<lparr>pages := pages c + (if buf (ent c ! i) = None then 0 else 1)\<rparr>"
    have E: "evict c = Some (Some i, c')" using Nil Some S by (simp add: evict_def be_clear_def c'_def)
    have "keeps True er c c' \<and> refs_same c c'"
      by (rule empty_slot [OF inv i S(2)]) (use S Nil in \<open>simp_all add: c'_def\<close>)
    then show ?thesis using E i S inv_length [OF inv] by (auto simp: c'_def nth_list_update)
  qed
qed

text \<open>What the caller of \<^verbatim>\<open>get_disk_entry\<close> gets: a reference on a slot with the contents of block \<open>b\<close>.\<close>

definition got :: "('b \<Rightarrow> 'p) \<Rightarrow> 'b bufcache \<Rightarrow> nat \<Rightarrow> nat \<Rightarrow> 'b bufcache \<Rightarrow> bool" where
  "got er c b i c' \<longleftrightarrow> i < ne \<and> bn (ent c' ! i) = b \<and> (estate (ent c' ! i) = es_clean \<or> estate (ent c' ! i) = es_dirty) \<and>
     (\<exists>x. buf (ent c' ! i) = Some x \<and> er x = bc_view er c b) \<and>
     (\<forall>j < ne. ref (ent c' ! j) = ref (ent c ! j) + (if j = i then 1 else 0))"

definition gde_post :: "('b \<Rightarrow> 'p) \<Rightarrow> 'b bufcache \<Rightarrow> nat \<Rightarrow> nat option \<Rightarrow> 'b bufcache \<Rightarrow> bool" where
  "gde_post er c b r c' \<longleftrightarrow> keeps True er c c' \<and> sleeping c' = sleeping c \<and>
     (case r of Some i \<Rightarrow> got er c b i c' | None \<Rightarrow> refs_same c c')"

lemma view_uncached: "bc_inv st er c \<Longrightarrow> (\<And>j. j < ne \<Longrightarrow> estate (ent c ! j) \<noteq> es_empty \<Longrightarrow> bn (ent c ! j) \<noteq> b) \<Longrightarrow>
   bc_view er c b = er (disk c b)"
  using view_disk [of st er c b] by auto

lemma gde_load_empty:
  assumes inv: "bc_inv True er c" and i: "i < ne" "estate (ent c ! i) = es_empty"
    and b: "\<And>j. j < ne \<Longrightarrow> estate (ent c ! j) \<noteq> es_empty \<Longrightarrow> bn (ent c ! j) \<noteq> b"
    and cl: "\<And>i x. er (cleaner i x) = er x"
  shows "\<exists>c'. gde_load cleaner b i c = Some (Ret (if pages c = 0 then None else Some i), c') \<and>
     gde_post er c b (if pages c = 0 then None else Some i) c'"
proof -
  note q = inv_queues [OF inv] and l = inv_length [OF inv]
  have S: "buf (ent c ! i) = None" "ref (ent c ! i) = 0" "wref (ent c ! i) = 0" "i \<notin> set (evictq c)"
    "i \<notin> set (pending c)" "i \<notin> set (pfq c)" using slotD [OF inv i(1)] i(2) by (simp_all add: slot_ok_def)
  show ?thesis
  proof (cases "pages c = 0")
    case True
    define e' where "e' = (ent c ! i)\<lparr>bn := b, ref := 0, estate := es_empty, buf := None\<rparr>"
    define c' where "c' = c\<lparr>ent := (ent c)[i := e'], pages := 0\<rparr>"
    have E: "gde_load cleaner b i c = Some (Ret None, c')"
      using i l S True by (simp add: gde_load_def gde_finish_def be_empty_def be_load_def be_clear_def upd_def c'_def e'_def)
    have inv': "bc_inv True er c'"
      by (rule inv_step [OF inv i(1), of _ e']) (use q S in \<open>simp_all add: c'_def e'_def slot_ok_def\<close>)
    have "bc_view er c' = bc_view er c"
      by (rule view_eqI [OF inv inv']) (use i l in \<open>auto simp: c'_def e'_def nth_list_update split: if_splits\<close>)
    then show ?thesis using E inv' True i l S
      by (auto simp: gde_post_def keeps_def frame_def refs_same_def c'_def e'_def nth_list_update)
  next
    case False
    define e' where "e' = (ent c ! i)\<lparr>bn := b, ref := 1, buf := Some (cleaner i (disk c b)), estate := es_clean\<rparr>"
    define c' where "c' = c\<lparr>pages := pages c - 1, ent := (ent c)[i := e']\<rparr>"
    have E: "gde_load cleaner b i c = Some (Ret (Some i), c')"
      using i l S False by (simp add: gde_load_def gde_finish_def be_empty_def be_load_def be_clear_def upd_def c'_def e'_def)
    have inv': "bc_inv True er c'"
      by (rule inv_step [OF inv i(1), of _ e']) (use q S b cl in \<open>simp_all add: c'_def e'_def slot_ok_def\<close>)
    have v: "bc_view er c' = bc_view er c"
      by (rule view_eqI [OF inv inv']) (use i l in \<open>auto simp: c'_def e'_def nth_list_update split: if_splits\<close>)
    have "got er c b i c'" using i l S cl view_uncached [OF inv b] by (auto simp: got_def c'_def e'_def nth_list_update)
    then show ?thesis using E inv' v False i l S
      by (auto simp: gde_post_def keeps_def frame_def c'_def e'_def nth_list_update)
  qed
qed

text \<open>A cached block is handed out again, and leaves the eviction queue.\<close>

lemma gde_load_hit:
  assumes inv: "bc_inv True er c" and i: "i < ne" "bn (ent c ! i) = b"
    and st: "estate (ent c ! i) = es_clean \<or> estate (ent c ! i) = es_dirty"
  shows "\<exists>c'. gde_load cleaner b i c = Some (Ret (Some i), c') \<and> gde_post er c b (Some i) c'"
proof -
  note q = inv_queues [OF inv] and l = inv_length [OF inv] and S = slotD [OF inv i(1)]
  define e' where "e' = (ent c ! i)\<lparr>ref := ref (ent c ! i) + 1\<rparr>"
  define c' where "c' = c\<lparr>ent := (ent c)[i := e'], evictq := remove1 i (evictq c)\<rparr>"
  have E: "gde_load cleaner b i c = Some (Ret (Some i), c')"
    using st i l by (elim disjE; cases "i \<in> set (evictq c)")
      (simp_all add: gde_load_def gde_finish_def be_empty_def be_load_def upd_def c'_def e'_def remove1_idem)
  have s: "slot_ok True er (disk c') e' (i \<in> set (evictq c')) (i \<in> set (pending c')) (i \<in> set (pfq c'))"
    using st S q by (elim disjE) (simp_all add: c'_def e'_def slot_ok_def)
  have u: "bn (ent c ! j) \<noteq> bn e'" if "j < ne" "j \<noteq> i" "estate (ent c ! j) \<noteq> es_empty" for j
    using bn_unique [OF inv that(1) i(1) that(3)] st that by (auto simp: e'_def)
  have inv': "bc_inv True er c'"
    by (rule inv_step [OF inv i(1), of _ e', OF _ _ _ _ _ _ _ _ s u]) (use q in \<open>simp_all add: c'_def\<close>)
  have v: "bc_view er c' = bc_view er c"
    by (rule view_eqI [OF inv inv']) (use i l in \<open>auto simp: c'_def e'_def nth_list_update split: if_splits\<close>)
  have "find_block b c = Some i" using find_blockI [OF inv i(1)] st i(2) by auto
  then have "bc_view er c b = er (the (buf (ent c ! i)))" using st by (auto simp: bc_view_def)
  moreover have "buf (ent c ! i) \<noteq> None" using S st by (auto simp: slot_ok_def)
  ultimately have "got er c b i c'" using i l st by (auto simp: got_def c'_def e'_def nth_list_update)
  then show ?thesis using E inv' v i l by (auto simp: gde_post_def keeps_def frame_def c'_def e'_def nth_list_update)
qed

text \<open>A prefetched block whose read is done is claimed.\<close>

lemma gde_claim_prefetched:
  assumes inv: "bc_inv True er c" and i: "i < ne" "bn (ent c ! i) = b"
    and st: "estate (ent c ! i) = es_prefetching" "pfstatus (ent c ! i) \<noteq> E_AGAIN"
    and cl: "\<And>i x. er (cleaner i x) = er x"
  shows "\<exists>c'. gde_claim cleaner b i c = Some (Ret (Some i), c') \<and> gde_post er c b (Some i) c'"
proof -
  note q = inv_queues [OF inv] and l = inv_length [OF inv]
  have S: "buf (ent c ! i) = Some (disk c b)" "ref (ent c ! i) = 0" "wref (ent c ! i) = 0" "i \<notin> set (evictq c)"
    "i \<notin> set (pending c)" "i \<in> set (pfq c)" using slotD [OF inv i(1)] st i(2) by (auto simp: slot_ok_def)
  define e' where "e' = (ent c ! i)\<lparr>ref := 1, estate := es_clean, buf := Some (cleaner i (disk c b))\<rparr>"
  define c' where "c' = c\<lparr>ent := (ent c)[i := e'], pfq := remove1 i (pfq c)\<rparr>"
  have E: "gde_claim cleaner b i c = Some (Ret (Some i), c')"
    using i l st S by (simp add: gde_claim_def upd_def c'_def e'_def)
  have s: "slot_ok True er (disk c') e' (i \<in> set (evictq c')) (i \<in> set (pending c')) (i \<in> set (pfq c'))"
    using S q i cl by (simp add: c'_def e'_def slot_ok_def)
  have u: "bn (ent c ! j) \<noteq> bn e'" if "j < ne" "j \<noteq> i" "estate (ent c ! j) \<noteq> es_empty" for j
    using bn_unique [OF inv that(1) i(1) that(3)] st that by (auto simp: e'_def)
  have inv': "bc_inv True er c'"
    by (rule inv_step [OF inv i(1), of _ e', OF _ _ _ _ _ _ _ _ s u]) (use q in \<open>simp_all add: c'_def\<close>)
  have v: "bc_view er c' = bc_view er c"
    by (rule view_eqI [OF inv inv']) (use i l st in \<open>auto simp: c'_def e'_def nth_list_update split: if_splits\<close>)
  have "find_block b c = Some i" using find_blockI [OF inv i(1)] st i(2) by auto
  then have "bc_view er c b = er (disk c b)" using st by (simp add: bc_view_def)
  then have "got er c b i c'" using i l cl S by (auto simp: got_def c'_def e'_def nth_list_update)
  then show ?thesis using E inv' v i l S by (auto simp: gde_post_def keeps_def frame_def c'_def e'_def nth_list_update)
qed

subsection \<open>Writing back keeps the view\<close>

definition written :: "nat \<Rightarrow> 'b bufcache \<Rightarrow> (nat \<Rightarrow> 'b)" where
  "written i c = (disk c)(bn (ent c ! i) := the (buf (ent c ! i)))"

definition sync_one :: "int \<Rightarrow> nat \<Rightarrow> 'b bufcache \<Rightarrow> 'b bufcache" where
  "sync_one dv i c =
     (if ref (ent c ! i) = 0 \<and> bn (ent c ! i) \<noteq> 0 \<and> dv \<le> 0
      then c\<lparr>disk := written i c, evictq := evictq c @ [i], ent := (ent c)[i := (ent c ! i)\<lparr>estate := es_clean, wref := 0\<rparr>]\<rparr>
      else c\<lparr>disk := written i c, ent := (ent c)[i := (ent c ! i)\<lparr>estate := es_clean, wref := 0\<rparr>]\<rparr>)"

lemma sync_one_sel [simp]:
  "ent (sync_one dv i c) = (ent c)[i := (ent c ! i)\<lparr>estate := es_clean, wref := 0\<rparr>]" "disk (sync_one dv i c) = written i c"
  "dirty_list (sync_one dv i c) = dirty_list c" "pfq (sync_one dv i c) = pfq c" "pages (sync_one dv i c) = pages c"
  "evictq (sync_one dv i c) = (if ref (ent c ! i) = 0 \<and> bn (ent c ! i) \<noteq> 0 \<and> dv \<le> 0 then evictq c @ [i] else evictq c)"
  "sleeping (sync_one dv i c) = sleeping c" "slept (sync_one dv i c) = slept c"
  by (simp_all add: sync_one_def)

lemma sync_loop_step:
  "wref (ent c ! i) = 0 \<Longrightarrow> i < length (ent c) \<Longrightarrow> buf (ent c ! i) \<noteq> None \<Longrightarrow> sync_loop dv (i # q) c = sync_loop dv q (sync_one dv i c)"
  by (cases "buf (ent c ! i)") (simp_all add: get_write_def put_write_def upd_def Let_def sync_one_def written_def)

lemma view_lists [simp]: "bc_view er (c\<lparr>dirty_list := q\<rparr>) = bc_view er c" "bc_view er (c\<lparr>sleeping := s\<rparr>) = bc_view er c"
  by (rule ext; simp add: bc_view_def find_block_def be_empty_def cong: option.case_cong if_cong)+

lemma sync_one_inv:
  assumes inv: "bc_inv st er (c\<lparr>dirty_list := i # q\<rparr>)" and w: "wref (ent c ! i) = 0" and st: "st \<longrightarrow> dv \<le> 0"
  shows "bc_inv st er ((sync_one dv i c)\<lparr>dirty_list := q\<rparr>)"
    and "bc_view er (sync_one dv i c) = bc_view er c"
    and "frame c (sync_one dv i c)" "refs_same c (sync_one dv i c)" "buf (ent c ! i) \<noteq> None"
proof -
  let ?c = "c\<lparr>dirty_list := i # q\<rparr>" and ?c' = "(sync_one dv i c)\<lparr>dirty_list := q\<rparr>"
  let ?e' = "(ent c ! i)\<lparr>estate := es_clean, wref := 0\<rparr>"
  note qs = inv_queues [OF inv] and l = inv_length [OF inv]
  have i: "i < ne" "i \<notin> set (q @ slept c)" using qs by simp_all
  have "slot_ok st er (disk c) (ent c ! i) (i \<in> set (evictq c)) True (i \<in> set (pfq c))" using slotD [OF inv i(1)] by simp
  then have e: "estate (ent c ! i) = es_dirty" "i \<notin> set (evictq c)" "i \<notin> set (pfq c)" and bn: "buf (ent c ! i) \<noteq> None"
    by (cases "estate (ent c ! i)"; simp add: slot_ok_def)+
  then obtain b where b: "buf (ent c ! i) = Some b" by auto
  have u: "bn (ent c ! j) \<noteq> bn (ent c ! i)" if "j < ne" "j \<noteq> i" "estate (ent c ! j) \<noteq> es_empty" for j
    using bn_unique [OF inv that(1) i(1)] that e by auto
  have dj: "written i c (bn (ent c ! j)) = disk c (bn (ent c ! j))" if "j < ne" "j \<noteq> i" "estate (ent c ! j) \<noteq> es_empty" for j
    using u [OF that] by (simp add: written_def)
  have s: "slot_ok st er (disk ?c') ?e' (i \<in> set (evictq ?c')) (i \<in> set (pending ?c')) (i \<in> set (pfq ?c'))"
    using e b st i(2) by (simp add: slot_ok_def written_def)
  have qp: "qs_ok (q @ slept c)" using qs by simp
  show inv': "bc_inv st er ?c'"
    by (rule inv_step [OF inv i(1), of _ ?e', OF _ _ _ _ _ _ _ _ s]) (use qs qp e i dj u in simp_all)
  have "bc_view er ?c' = bc_view er ?c"
  proof (rule view_eqI [OF inv inv'])
    fix b' assume "\<And>k. k < ne \<Longrightarrow> estate (ent ?c ! k) = es_dirty \<Longrightarrow> bn (ent ?c ! k) \<noteq> b'"
    from this [of i] show "er (disk ?c' b') = er (disk ?c b')" using i e by (simp add: written_def)
  next
    fix k assume "k < ne" "estate (ent ?c' ! k) = es_dirty"
    then show "estate (ent ?c ! k) = es_dirty \<and> bn (ent ?c' ! k) = bn (ent ?c ! k) \<and> buf (ent ?c' ! k) = buf (ent ?c ! k)"
      using l by (cases "k = i") (simp_all add: nth_list_update)
  next
    fix k assume "k < ne" "estate (ent ?c ! k) = es_dirty" "estate (ent ?c' ! k) \<noteq> es_dirty"
    then have "k = i" using l by (cases "k = i") (simp_all add: nth_list_update)
    then show "er (disk ?c' (bn (ent ?c ! k))) = er (the (buf (ent ?c ! k)))" using b by (simp add: written_def)
  qed
  then show "bc_view er (sync_one dv i c) = bc_view er c" by simp
  show "frame c (sync_one dv i c)" "refs_same c (sync_one dv i c)"
    using l w i(1) by (auto simp: frame_def refs_same_def nth_list_update)
  show "buf (ent c ! i) \<noteq> None" by (rule bn)
qed

text \<open>
  The loop writes entries until the list is empty or the next entry has a writer. What is left, given
  back to the dirty list, is again a state of the invariant.
\<close>

definition stops :: "nat list \<Rightarrow> 'b bufcache \<Rightarrow> bool" where
  "stops L c \<longleftrightarrow> (case L of [] \<Rightarrow> True | i # q \<Rightarrow> i < ne \<and> wref (ent c ! i) \<noteq> 0)"

lemma sync_loop_correct:
  assumes "bc_inv st er (c\<lparr>dirty_list := q @ dirty_list c\<rparr>)" "st \<longrightarrow> dv \<le> 0"
  shows "\<exists>p q' c'. sync_loop dv q c = Some (q', c') \<and> q = p @ q' \<and> stops q' c' \<and>
     bc_inv st er (c'\<lparr>dirty_list := q' @ dirty_list c'\<rparr>) \<and> dirty_list c' = dirty_list c \<and> sleeping c' = sleeping c \<and>
     bc_view er c' = bc_view er c \<and> frame c c' \<and> refs_same c c' \<and> pages c' = pages c \<and> pfq c' = pfq c \<and>
     (\<forall>i < ne. wref (ent c' ! i) \<le> wref (ent c ! i) \<and> bn (ent c' ! i) = bn (ent c ! i) \<and>
        (estate (ent c' ! i) = es_prefetching \<longleftrightarrow> estate (ent c ! i) = es_prefetching))"
  using assms
proof (induction q arbitrary: c)
  case Nil
  then show ?case by (simp add: stops_def)
next
  case (Cons i q)
  have inv: "bc_inv st er (c\<lparr>dirty_list := i # q @ dirty_list c\<rparr>)" using Cons.prems(1) by simp
  note qs = inv_queues [OF inv] and l = inv_length [OF inv]
  have i: "i < ne" using qs by simp
  show ?case
  proof (cases "wref (ent c ! i) = 0")
    case False
    have "slot_ok st er (disk c) (ent c ! i) (i \<in> set (evictq c)) True (i \<in> set (pfq c))" using slotD [OF inv i] by simp
    then have "wref (ent c ! i) \<le> 1" by (cases "estate (ent c ! i)") (simp_all add: slot_ok_def)
    then have "wref (ent c ! i) = 1" using False by simp
    then have "sync_loop dv (i # q) c = Some (i # q, c)" by (simp add: get_write_def)
    then show ?thesis using i False Cons.prems(1) by (simp add: stops_def)
  next
    case True
    let ?c = "sync_one dv i c"
    note S = sync_one_inv [OF inv True Cons.prems(2)]
    have "bc_inv st er (?c\<lparr>dirty_list := q @ dirty_list ?c\<rparr>)" using S(1) by simp
    from Cons.IH [OF this Cons.prems(2)] obtain p q' c' where r: "sync_loop dv q ?c = Some (q', c')" "q = p @ q'" "stops q' c'"
      "bc_inv st er (c'\<lparr>dirty_list := q' @ dirty_list c'\<rparr>)" "dirty_list c' = dirty_list ?c" "sleeping c' = sleeping ?c"
      "bc_view er c' = bc_view er ?c" "frame ?c c'" "refs_same ?c c'" "pages c' = pages ?c" "pfq c' = pfq ?c"
      "\<forall>j < ne. wref (ent c' ! j) \<le> wref (ent ?c ! j) \<and> bn (ent c' ! j) = bn (ent ?c ! j) \<and>
        (estate (ent c' ! j) = es_prefetching \<longleftrightarrow> estate (ent ?c ! j) = es_prefetching)" by blast
    have e: "sync_loop dv (i # q) c = Some (q', c')" using sync_loop_step [OF True _ S(5), of dv q] l i r(1) by simp
    have ne: "estate (ent c ! i) \<noteq> es_prefetching" using slotD [OF inv i] by (auto simp: slot_ok_def)
    have "wref (ent c' ! j) \<le> wref (ent c ! j) \<and> bn (ent c' ! j) = bn (ent c ! j) \<and>
        (estate (ent c' ! j) = es_prefetching \<longleftrightarrow> estate (ent c ! j) = es_prefetching)" if "j < ne" for j
      using r(12) [rule_format, OF that] that l ne i by (cases "j = i") auto
    moreover have "frame c c'" by (rule frame_trans [OF S(3,4) r(8)])
    moreover have "refs_same c c'" by (rule refs_trans [OF S(4) r(9)])
    ultimately show ?thesis using e r(2-7,10,11) S(2) by (intro exI [of _ "i # p"] exI [of _ q'] exI [of _ c']) simp
  qed
qed

lemma drop_loop_correct:
  assumes "bc_inv False er c" "pending c = []" "\<forall>i \<in> set is. i < ne"
    and "\<forall>i \<in> set is. \<not> (ref (ent c ! i) > 0 \<and> dv > 1 \<and> bn (ent c ! i) \<ge> 2)"
  shows "\<exists>L c'. drop_loop dv is c = Some (L, c') \<and>
     (L \<noteq> [] \<longrightarrow> (\<exists>i < ne. i \<in> set (pfq c) \<and> pfstatus (ent c ! i) = E_AGAIN)) \<and>
     (L = [] \<longrightarrow> keeps False er c c' \<and> refs_same c c' \<and> pending c' = [] \<and> sleeping c' = sleeping c \<and> disk c' = disk c \<and>
          (\<forall>i < ne. (i \<in> set is \<and> ref (ent c ! i) = 0) \<or> estate (ent c ! i) = es_empty \<longrightarrow> estate (ent c' ! i) = es_empty))"
  using assms
proof (induction "is" arbitrary: c)
  case Nil
  then show ?case by (simp add: keeps_def)
next
  case (Cons i "is")
  note inv = Cons.prems(1)
  have i: "i < ne" using Cons.prems(3) by simp
  note q = inv_queues [OF inv] and l = inv_length [OF inv] and S = slotD [OF inv i]
  have a: "ref (ent c ! i) = 0 \<or> estate (ent c ! i) \<noteq> es_empty" using S by (cases "estate (ent c ! i)") (simp_all add: slot_ok_def)
  have nd: "estate (ent c ! i) \<noteq> es_dirty" using S Cons.prems(2) by (cases "estate (ent c ! i)") (simp_all add: slot_ok_def)
  have ex: "i \<notin> set (evictq c) \<or> i \<notin> set (pfq c)" using S by (cases "estate (ent c ! i)") (simp_all add: slot_ok_def)
  show ?case
  proof (cases "ref (ent c ! i) = 0")
    case False
    then have "drop_loop dv (i # is) c = drop_loop dv is c" using a Cons.prems(4) by simp
    moreover obtain L c' where "drop_loop dv is c = Some (L, c')" "(L \<noteq> [] \<longrightarrow> (\<exists>i < ne. i \<in> set (pfq c) \<and> pfstatus (ent c ! i) = E_AGAIN)) \<and>
     (L = [] \<longrightarrow> keeps False er c c' \<and> refs_same c c' \<and> pending c' = [] \<and> sleeping c' = sleeping c \<and> disk c' = disk c \<and>
          (\<forall>i < ne. (i \<in> set is \<and> ref (ent c ! i) = 0) \<or> estate (ent c ! i) = es_empty \<longrightarrow> estate (ent c' ! i) = es_empty))"
      using Cons.IH [OF inv Cons.prems(2)] Cons.prems(3,4) by (elim exE conjE meta_impE) simp_all
    ultimately show ?thesis using False by (intro exI [of _ L] exI [of _ c']) auto
  next
    case True
    show ?thesis
    proof (cases "i \<notin> set (evictq c) \<and> i \<in> set (pfq c) \<and> pfstatus (ent c ! i) = E_AGAIN")
      case b: True
      then have "drop_loop dv (i # is) c = Some (i # is, c)" using True by simp
      then show ?thesis using b i by auto
    next
      case nb: False
      define c1 where "c1 = (if i \<in> set (evictq c) then c\<lparr>evictq := remove1 i (evictq c)\<rparr>
         else if i \<in> set (pfq c) then c\<lparr>pfq := remove1 i (pfq c)\<rparr> else c)"
      define c2 where "c2 = (upd i (\<lambda>e. e\<lparr>estate := es_empty, buf := None\<rparr>) c1)
         \<lparr>pages := pages c1 + (if buf (ent c1 ! i) = None then 0 else 1)\<rparr>"
      have c1: "ent c1 = ent c" "pending c1 = pending c" "disk c1 = disk c" "sleeping c1 = sleeping c"
        "evictq c1 = remove1 i (evictq c)" "pfq c1 = remove1 i (pfq c)"
        using ex by (auto simp: c1_def remove1_idem)
      have step: "drop_loop dv (i # is) c = drop_loop dv is c2"
        using True nb by (auto simp: Let_def be_clear_def c1 c2_def simp flip: c1_def)
      have c2: "ent c2 = (ent c)[i := (ent c ! i)\<lparr>estate := es_empty, buf := None\<rparr>]" "pending c2 = pending c"
        "disk c2 = disk c" "sleeping c2 = sleeping c" "evictq c2 = remove1 i (evictq c)" "pfq c2 = remove1 i (pfq c)" by (simp_all add: c2_def c1)
      have K: "keeps False er c c2" "refs_same c c2"
        using empty_slot [OF inv i True nd c2(1,5,2,6,3)] by auto
      have bnr: "bn (ent c2 ! j) = bn (ent c ! j)" "ref (ent c2 ! j) = ref (ent c ! j)" "pfstatus (ent c2 ! j) = pfstatus (ent c ! j)" if "j < ne" for j
        using that l by (cases "j = i"; simp add: c2 nth_list_update)+
      have e2: "estate (ent c2 ! j) = (if j = i then es_empty else estate (ent c ! j))" if "j < ne" for j
        using that l by (cases "j = i"; simp add: c2 nth_list_update)+
      have pf: "set (pfq c2) \<subseteq> set (pfq c)" using c2 q by auto
      from Cons.IH [of c2] K Cons.prems(2-4) bnr obtain L c' where r: "drop_loop dv is c2 = Some (L, c')" "(L \<noteq> [] \<longrightarrow> (\<exists>i < ne. i \<in> set (pfq c2) \<and> pfstatus (ent c2 ! i) = E_AGAIN)) \<and>
     (L = [] \<longrightarrow> keeps False er c2 c' \<and> refs_same c2 c' \<and> pending c' = [] \<and> sleeping c' = sleeping c2 \<and> disk c' = disk c2 \<and>
          (\<forall>i < ne. (i \<in> set is \<and> ref (ent c2 ! i) = 0) \<or> estate (ent c2 ! i) = es_empty \<longrightarrow> estate (ent c' ! i) = es_empty))"
        by (auto simp: c2 keeps_def)
      show ?thesis
      proof (cases "L = []")
        case False
        then show ?thesis using r step bnr pf by auto
      next
        case L: True
        have R: "keeps False er c2 c'" "refs_same c2 c'" "pending c' = []" "sleeping c' = sleeping c2" "disk c' = disk c2"
          "\<And>j. j < ne \<Longrightarrow> (j \<in> set is \<and> ref (ent c2 ! j) = 0) \<or> estate (ent c2 ! j) = es_empty \<Longrightarrow> estate (ent c' ! j) = es_empty"
          using r(2) L by auto
        have "keeps False er c c'" using K R(1) frame_trans [of c c2 c'] by (simp add: keeps_def)
        moreover have "estate (ent c' ! j) = es_empty"
          if "j < ne" "(j \<in> set (i # is) \<and> ref (ent c ! j) = 0) \<or> estate (ent c ! j) = es_empty" for j
          using R(6) [OF that(1)] that(2) bnr [OF that(1)] e2 [OF that(1)] by auto
        ultimately show ?thesis using step r(1) L R(3-5) refs_trans [OF K(2) R(2)] c2(3,4) by simp
      qed
    qed
  qed
qed

lemma bc_inv_lax: "bc_inv True er c \<Longrightarrow> bc_inv False er c"
proof -
  have "slot_ok True er d e q dl pf \<Longrightarrow> slot_ok False er d e q dl pf" for d e q dl pf
    by (cases "estate e") (simp_all add: slot_ok_def)
  then show "bc_inv True er c \<Longrightarrow> bc_inv False er c" by (simp add: bc_inv_def)
qed

lemma bc_inv_strict:
  assumes "bc_inv False er c" "\<forall>i < ne. ref (ent c ! i) = 0 \<longrightarrow> estate (ent c ! i) = es_empty"
  shows "bc_inv True er c"
proof -
  have "slot_ok True er d e q dl pf" if "slot_ok False er d e q dl pf" "ref e = 0 \<longrightarrow> estate e = es_empty" for d e q dl pf
    using that by (cases "estate e") (auto simp: slot_ok_def)
  then show ?thesis using assms by (simp add: bc_inv_def)
qed

lemma no_dirty: "bc_inv st er c \<Longrightarrow> pending c = [] \<Longrightarrow> i < ne \<Longrightarrow> estate (ent c ! i) \<noteq> es_dirty"
  using slotD [of st er c i] by (auto simp: slot_ok_def)

lemma view_synced: "bc_inv st er c \<Longrightarrow> pending c = [] \<Longrightarrow> bc_view er c b = er (disk c b)"
  using no_dirty [of st er c] by (auto intro: view_disk)

lemma view_written:
  assumes "bc_inv st er c" "\<And>i. i \<in> set (pending c) \<Longrightarrow> bn (ent c ! i) \<noteq> b"
  shows "bc_view er c b = er (disk c b)"
proof (rule view_disk [OF assms(1)])
  fix i assume "i < ne" "estate (ent c ! i) = es_dirty"
  then show "bn (ent c ! i) \<noteq> b" using slotD [OF assms(1), of i] assms(2) by (auto simp: slot_ok_def)
qed

text \<open>The invariant only depends on which entries are pending, not on who holds them.\<close>

lemma bc_inv_pending:
  assumes "ent c' = ent c" "evictq c' = evictq c" "pfq c' = pfq c" "disk c' = disk c"
    and "set (pending c') = set (pending c)" "distinct (pending c') = distinct (pending c)"
  shows "bc_inv st er c' = bc_inv st er c"
  using assms by (simp add: bc_inv_def qs_ok_def)

lemma bc_inv_asleep: "bc_inv st er (asleep (Asleep t, c)) \<longleftrightarrow> bc_inv st er (c\<lparr>dirty_list := local_dirty t @ dirty_list c\<rparr>)"
  by (rule bc_inv_pending) (auto simp: pending_def slept_def)

text \<open>The result of \<^verbatim>\<open>sync\<close>, called or woken with the local list \<open>L\<close>.\<close>

definition sync_post :: "('b \<Rightarrow> 'p) \<Rightarrow> int \<Rightarrow> nat list \<Rightarrow> 'b bufcache \<Rightarrow> (int, 'b) call \<Rightarrow> 'b bufcache \<Rightarrow> bool" where
  "sync_post er dv L c r c' \<longleftrightarrow> keeps True er c (asleep (r, c')) \<and> refs_same c c' \<and> sleeping c' = sleeping c \<and> dirty_list c' = dirty_list c \<and>
     (dv \<le> 0 \<longrightarrow> (\<forall>i < ne. bn (ent c' ! i) = bn (ent c ! i))) \<and>
     (case r of
        Asleep t \<Rightarrow> \<exists>p M. t = TSync dv M \<and> L = p @ M \<and> M \<noteq> [] \<and> stops M c'
      | Ret n \<Rightarrow> n = 0 \<and> (dv > 0 \<longrightarrow> (\<forall>i < ne. ref (ent c ! i) = 0 \<longrightarrow> estate (ent c' ! i) = es_empty)))"

lemma sync_rest_correct:
  assumes inv: "bc_inv True er (c\<lparr>dirty_list := L @ dirty_list c\<rparr>)" and dv: "dv \<le> 0"
  shows "\<exists>r c'. sync_rest dv L c = Some (r, c') \<and> sync_post er dv L c r c'"
proof -
  obtain p q c' where S: "sync_loop dv L c = Some (q, c')" "L = p @ q" "stops q c'" "bc_inv True er (c'\<lparr>dirty_list := q @ dirty_list c'\<rparr>)"
    "dirty_list c' = dirty_list c" "sleeping c' = sleeping c" "bc_view er c' = bc_view er c" "frame c c'" "refs_same c c'"
    "\<forall>i < ne. wref (ent c' ! i) \<le> wref (ent c ! i) \<and> bn (ent c' ! i) = bn (ent c ! i) \<and>
        (estate (ent c' ! i) = es_prefetching \<longleftrightarrow> estate (ent c ! i) = es_prefetching)"
    using sync_loop_correct [OF inv, of dv] dv by blast
  show ?thesis
  proof (cases q)
    case Nil
    then have "sync_rest dv L c = Some (Ret 0, c')" using S(1) dv by (simp add: sync_rest_def)
    moreover have "bc_inv True er c'" using S(4) Nil by simp
    ultimately show ?thesis using S Nil dv by (auto simp: sync_post_def keeps_def)
  next
    case (Cons i q')
    then have e: "sync_rest dv L c = Some (Asleep (TSync dv q), c')" using S(1) by (simp add: sync_rest_def)
    have "bc_inv True er (asleep (Asleep (TSync dv q), c'))" using S(4) by (simp only: bc_inv_asleep local_dirty.simps)
    then have "sync_post er dv L c (Asleep (TSync dv q)) c'" using S Cons by (auto simp: sync_post_def keeps_def frame_def)
    then show ?thesis using e by blast
  qed
qed

text \<open>A call of \<^verbatim>\<open>sync\<close>; with \<^verbatim>\<open>drop > 0\<close> when nothing makes it wait.\<close>

lemma bc_sync_flush:
  assumes inv: "bc_inv True er c" and dv: "dv \<le> 0"
  shows "\<exists>r c'. bc_sync dv c = Some (r, c') \<and> sync_post er dv (dirty_list c) (c\<lparr>dirty_list := []\<rparr>) r c'"
  using sync_rest_correct [of er "dirty_list c" "c\<lparr>dirty_list := []\<rparr>" dv] inv dv by (simp add: bc_sync_def)

lemma bc_sync_drop:
  assumes inv: "bc_inv True er c" and dv: "dv > 0" and a: "dv > 1 \<longrightarrow> (\<forall>i < ne. ref (ent c ! i) > 0 \<longrightarrow> bn (ent c ! i) < 2)"
    and w: "\<forall>i < ne. wref (ent c ! i) = 0" "\<forall>i < ne. estate (ent c ! i) \<noteq> es_prefetching" "slept c = []"
  shows "\<exists>c'. bc_sync dv c = Some (Ret 0, c') \<and> sync_post er dv (dirty_list c) (c\<lparr>dirty_list := []\<rparr>) (Ret 0) c'"
proof -
  let ?c = "c\<lparr>dirty_list := []\<rparr>"
  have lax: "bc_inv False er (?c\<lparr>dirty_list := dirty_list c @ dirty_list ?c\<rparr>)" using bc_inv_lax [OF inv] by simp
  obtain q c1 where S: "sync_loop dv (dirty_list c) ?c = Some (q, c1)" "stops q c1" "bc_inv False er (c1\<lparr>dirty_list := q @ dirty_list c1\<rparr>)"
    "dirty_list c1 = []" "sleeping c1 = sleeping c" "bc_view er c1 = bc_view er c" "frame ?c c1" "refs_same ?c c1" "pfq c1 = pfq c"
    "\<forall>i < ne. wref (ent c1 ! i) \<le> wref (ent c ! i) \<and> bn (ent c1 ! i) = bn (ent c ! i) \<and>
        (estate (ent c1 ! i) = es_prefetching \<longleftrightarrow> estate (ent c ! i) = es_prefetching)"
    using sync_loop_correct [OF lax, of dv] by auto
  have q: "q = []" using S(2,10) w(1) by (cases q) (auto simp: stops_def)
  have "c1\<lparr>dirty_list := dirty_list c1\<rparr> = c1" by simp
  then have inv1: "bc_inv False er c1" using S(3) q by simp
  have p1: "pending c1 = []" using S(4,5) w(3) by (simp add: pending_def slept_def)
  have d1: "\<forall>i \<in> set [0..<ne]. i < ne" by simp
  have d2: "\<forall>i \<in> set [0..<ne]. \<not> (ref (ent c1 ! i) > 0 \<and> dv > 1 \<and> bn (ent c1 ! i) \<ge> 2)"
    using a S(8,10) by (auto simp: refs_same_def)
  obtain M c2 where D: "drop_loop dv [0..<ne] c1 = Some (M, c2)"
    "M \<noteq> [] \<longrightarrow> (\<exists>i < ne. i \<in> set (pfq c1) \<and> pfstatus (ent c1 ! i) = E_AGAIN)"
    "M = [] \<longrightarrow> keeps False er c1 c2 \<and> refs_same c1 c2 \<and> pending c2 = [] \<and> sleeping c2 = sleeping c1 \<and> disk c2 = disk c1 \<and>
          (\<forall>i < ne. (i \<in> set [0..<ne] \<and> ref (ent c1 ! i) = 0) \<or> estate (ent c1 ! i) = es_empty \<longrightarrow> estate (ent c2 ! i) = es_empty)"
    using drop_loop_correct [OF inv1 p1 d1 d2] by (elim exE conjE)
  have "i \<notin> set (pfq c1)" if "i < ne" for i
    using slotD [OF inv1 that] S(10) w(2) that by (auto simp: slot_ok_def split: estate.splits)
  then have M: "M = []" using D(2) by blast
  have Q: "keeps False er c1 c2" "refs_same c1 c2" "pending c2 = []" "sleeping c2 = sleeping c"
    "\<And>i. i < ne \<Longrightarrow> ref (ent c1 ! i) = 0 \<Longrightarrow> estate (ent c2 ! i) = es_empty" using D(3) M S(5) by auto
  have e: "bc_sync dv c = Some (Ret 0, c2)" using S(1) D(1) q M dv by (simp add: bc_sync_def sync_rest_def)
  have refs: "refs_same ?c c2" by (rule refs_trans [OF S(8) Q(2)])
  have em: "\<forall>i < ne. ref (ent c ! i) = 0 \<longrightarrow> estate (ent c2 ! i) = es_empty" using Q(5) S(8) by (simp add: refs_same_def)
  have "bc_inv True er c2" using Q(1) refs em by (intro bc_inv_strict) (simp_all add: keeps_def refs_same_def)
  moreover have "bc_view er c2 = bc_view er c" using Q(1) S(6) by (simp add: keeps_def)
  moreover have "frame ?c c2" using frame_trans [OF S(7,8)] Q(1) by (simp add: keeps_def)
  moreover have "dirty_list c2 = []" using Q(3) by (simp add: pending_def)
  ultimately have "sync_post er dv (dirty_list c) ?c (Ret 0) c2" using refs em Q(4) dv by (auto simp: sync_post_def keeps_def frame_def)
  then show ?thesis using e by blast
qed

subsection \<open>Obtaining a block terminates and gives its contents\<close>

text \<open>Why \<^verbatim>\<open>get_disk_entry\<close> gives no entry, in the state it leaves, and why it sleeps.\<close>

definition no_room :: "'b bufcache \<Rightarrow> bool" where
  "no_room c \<longleftrightarrow> pages c = 0 \<or>
     (\<forall>i < ne. estate (ent c ! i) \<noteq> es_empty \<and>
        (ref (ent c ! i) > 0 \<or> bn (ent c ! i) = 0 \<or> estate (ent c ! i) = es_prefetching \<or> i \<in> set (slept c)))"

definition waits_for :: "(nat \<Rightarrow> 'b \<Rightarrow> 'b) \<Rightarrow> nat \<Rightarrow> 'b task \<Rightarrow> 'b bufcache \<Rightarrow> bool" where
  "waits_for cleaner b t c \<longleftrightarrow>
     (\<exists>i < ne. t = TWait cleaner b i \<and> estate (ent c ! i) = es_prefetching \<and> bn (ent c ! i) = b \<and> pfstatus (ent c ! i) = E_AGAIN) \<or>
     (\<exists>L. t = TGet cleaner b L \<and> L \<noteq> [] \<and> stops L c)"

definition gde_full :: "('b \<Rightarrow> 'p) \<Rightarrow> (nat \<Rightarrow> 'b \<Rightarrow> 'b) \<Rightarrow> 'b bufcache \<Rightarrow> nat \<Rightarrow> (nat option, 'b) call \<Rightarrow> 'b bufcache \<Rightarrow> bool" where
  "gde_full er cleaner c b r c' \<longleftrightarrow> keeps True er c (asleep (r, c')) \<and> sleeping c' = sleeping c \<and>
     (case r of
        Ret (Some i) \<Rightarrow> got er c b i c'
      | Ret None \<Rightarrow> refs_same c c' \<and> no_room c'
      | Asleep t \<Rightarrow> refs_same c c' \<and> waits_for cleaner b t c')"

lemma gde_full_got: "gde_post er c b (Some i) c' \<Longrightarrow> gde_full er cleaner c b (Ret (Some i)) c'"
  by (simp add: gde_full_def gde_post_def)

text \<open>A slot that holds the block, found by the scan or after the wait.\<close>

lemma gde_claim_spec:
  assumes inv: "bc_inv True er c" and i: "i < ne" "bn (ent c ! i) = b" "estate (ent c ! i) \<noteq> es_empty"
    and p: "estate (ent c ! i) = es_prefetching \<longrightarrow> pfstatus (ent c ! i) \<noteq> E_AGAIN" and cl: "\<And>i x. er (cleaner i x) = er x"
  shows "\<exists>c'. gde_claim cleaner b i c = Some (Ret (Some i), c') \<and> gde_full er cleaner c b (Ret (Some i)) c'"
proof (cases "estate (ent c ! i) = es_prefetching")
  case True
  then show ?thesis using gde_claim_prefetched [of er c i b cleaner, OF inv i(1,2) True _ cl] p gde_full_got by blast
next
  case False
  have st: "estate (ent c ! i) = es_clean \<or> estate (ent c ! i) = es_dirty"
    using slotD [OF inv i(1)] i(3) False by (cases "estate (ent c ! i)") (simp_all add: slot_ok_def)
  then show ?thesis using gde_load_hit [OF inv i(1,2) st, of cleaner] gde_full_got False by (auto simp: gde_claim_def)
qed

lemma gde_after_wait_spec:
  assumes inv: "bc_inv True er c" and i: "i < ne" "bn (ent c ! i) = b" "estate (ent c ! i) \<noteq> es_empty" and cl: "\<And>i x. er (cleaner i x) = er x"
  shows "\<exists>r c'. gde_after_wait cleaner b i c = Some (r, c') \<and>
     (if pfstatus (ent c ! i) = E_AGAIN then r = Asleep (TWait cleaner b i) \<and> c' = c
      else r = Ret (Some i) \<and> gde_full er cleaner c b r c')"
proof (cases "pfstatus (ent c ! i) = E_AGAIN")
  case True
  then show ?thesis by (simp add: gde_after_wait_def)
next
  case False
  then show ?thesis using gde_claim_spec [of er c i b cleaner, OF inv i _ cl] by (auto simp: gde_after_wait_def)
qed

lemma asleep_wait: "bc_inv True er c \<Longrightarrow> keeps True er c (asleep (Asleep (TWait cleaner b i), c))"
  unfolding keeps_def bc_inv_asleep by (simp add: frame_def)

lemma gde_hit:
  assumes inv: "bc_inv True er c" and f: "find_block b c = Some i" and cl: "\<And>i x. er (cleaner i x) = er x"
  shows "\<exists>r c'. get_disk_entry cleaner b c = Some (r, c') \<and> gde_full er cleaner c b r c'"
proof -
  note F = find_block_Some [OF f]
  then have i: "i < ne" "bn (ent c ! i) = b" "estate (ent c ! i) \<noteq> es_empty" by auto
  show ?thesis
  proof (cases "estate (ent c ! i) = es_prefetching")
    case True
    then have e: "get_disk_entry cleaner b c = gde_after_wait cleaner b i c" using f by (subst get_disk_entry.simps) simp
    show ?thesis
    proof (cases "pfstatus (ent c ! i) = E_AGAIN")
      case w: True
      have "gde_full er cleaner c b (Asleep (TWait cleaner b i)) c"
        using asleep_wait [OF inv, of cleaner b i] i True w by (simp add: gde_full_def waits_for_def)
      then show ?thesis using e w by (simp add: gde_after_wait_def)
    next
      case False
      then show ?thesis using e gde_after_wait_spec [of er c i b cleaner, OF inv i cl] by auto
    qed
  next
    case False
    then have "get_disk_entry cleaner b c = gde_claim cleaner b i c" using f by (subst get_disk_entry.simps) simp
    then show ?thesis using gde_claim_spec [of er c i b cleaner, OF inv i _ cl] False by auto
  qed
qed

text \<open>Steps that change no reference count compose.\<close>

lemma keeps_trans: "keeps st er c c1 \<Longrightarrow> refs_same c c1 \<Longrightarrow> keeps st er c1 c2 \<Longrightarrow> keeps st er c c2"
  using frame_trans [of c c1 c2] by (simp add: keeps_def)

lemma got_view: "bc_view er c1 = bc_view er c \<Longrightarrow> refs_same c c1 \<Longrightarrow> got er c1 b i c2 \<longleftrightarrow> got er c b i c2"
  by (simp add: got_def refs_same_def)

lemma gde_post_trans:
  assumes "keeps True er c c1" "refs_same c c1" "sleeping c1 = sleeping c" "gde_post er c1 b r c2"
  shows "gde_post er c b r c2"
  using assms keeps_trans [OF assms(1,2), of c2] refs_trans [OF assms(2), of c2] got_view [of er c1 c] by (auto simp: gde_post_def keeps_def split: option.splits)

lemma gde_full_trans:
  assumes "bc_view er c1 = bc_view er c" "frame c c1" "refs_same c c1" "sleeping c1 = sleeping c" "gde_full er cleaner c1 b r c2"
  shows "gde_full er cleaner c b r c2"
  using assms refs_trans [OF assms(3), of c2] frame_trans [OF assms(2,3), of "asleep (r, c2)"] got_view [OF assms(1,3)]
  by (auto simp: gde_full_def keeps_def split: option.splits call.splits)

text \<open>A block that is not cached, when no write-back is needed to make room.\<close>

lemma dirty_taken: "bc_inv st er c \<Longrightarrow> take ne (dirty_list c) = dirty_list c"
proof -
  assume "bc_inv st er c"
  from inv_queues [OF this] have "distinct (dirty_list c)" "set (dirty_list c) \<subseteq> {..<ne}" by (auto simp: qs_ok_def pending_def)
  then have "length (dirty_list c) \<le> ne" using card_mono [of "{..<ne}" "set (dirty_list c)"] by (simp add: distinct_card)
  then show ?thesis by simp
qed

lemma gde_miss:
  assumes inv: "bc_inv True er c" and f: "find_block b c = None" and cl: "\<And>i x. er (cleaner i x) = er x"
    and n: "find_empty c \<noteq> None \<or> fst (the (evict c)) \<noteq> None \<or> \<not> has_uref_dirty_blocks c"
  shows "\<exists>r c'. get_disk_entry cleaner b c = Some (r, c') \<and> gde_full er cleaner c b r c'"
proof (cases "find_empty c")
  case (Some i)
  note F = find_empty_Some [OF Some]
  have e: "get_disk_entry cleaner b c = gde_load cleaner b i c" using f Some by (subst get_disk_entry.simps) simp
  obtain c' where c': "gde_load cleaner b i c = Some (Ret (if pages c = 0 then None else Some i), c')"
    "gde_post er c b (if pages c = 0 then None else Some i) c'"
    using gde_load_empty [of er c i b cleaner, OF inv _ _ _ cl] F find_block_None [OF f] by blast
  moreover have "pages c = 0 \<Longrightarrow> pages c' = 0"
    using c'(1) F slotD [OF inv, of i] inv_length [OF inv]
    by (auto simp: gde_load_def gde_finish_def be_load_def be_clear_def be_empty_def slot_ok_def Let_def split: if_splits)
  ultimately show ?thesis unfolding e by (cases "pages c = 0") (auto simp: gde_full_def gde_post_def no_room_def)
next
  case None
  obtain r c1 where E: "evict c = Some (r, c1)" "keeps True er c c1" "refs_same c c1" "sleeping c1 = sleeping c"
    "\<forall>j < ne. estate (ent c1 ! j) \<noteq> es_empty \<longrightarrow> ent c1 ! j = ent c ! j"
    "case r of Some i \<Rightarrow> i < ne \<and> estate (ent c1 ! i) = es_empty \<and> pages c1 > 0
      | None \<Rightarrow> c1 = c \<and> evictq c = [] \<and> (\<forall>i \<in> set (pfq c). pfstatus (ent c ! i) = E_AGAIN)"
    using evict_correct [OF inv] by (elim exE conjE)
  show ?thesis
  proof (cases r)
    case (Some i)
    then have i: "i < ne" "estate (ent c1 ! i) = es_empty" "pages c1 > 0" using E(6) by auto
    have e: "get_disk_entry cleaner b c = gde_load cleaner b i c1" using f None E(1) Some by (subst get_disk_entry.simps) simp
    have "bn (ent c1 ! j) \<noteq> b" if "j < ne" "estate (ent c1 ! j) \<noteq> es_empty" for j
      using E(5) find_block_None [OF f that(1)] that by auto
    then obtain c' where "gde_load cleaner b i c1 = Some (Ret (Some i), c')" "gde_post er c1 b (Some i) c'"
      using gde_load_empty [of er c1 i b cleaner, OF _ i(1,2) _ cl] i(3) E(2) by (auto simp: keeps_def)
    then show ?thesis using e gde_full_got [OF gde_post_trans [OF E(2-4)]] by auto
  next
    case r: None
    then have c1: "c1 = c" "evictq c = []" using E(6) by auto
    have nu: "\<not> has_uref_dirty_blocks c" using n None E(1) r by simp
    then have e: "get_disk_entry cleaner b c = Some (Ret None, c)" using f None E(1) r c1 by (subst get_disk_entry.simps) simp
    have "no_room c"
    proof -
      have "estate (ent c ! i) \<noteq> es_empty \<and>
          (ref (ent c ! i) > 0 \<or> bn (ent c ! i) = 0 \<or> estate (ent c ! i) = es_prefetching \<or> i \<in> set (slept c))"
        if i: "i < ne" for i
      proof -
        have "estate (ent c ! i) \<noteq> es_empty" using None i by (auto simp: find_empty_def find_None_iff be_empty_def)
        moreover have "ref (ent c ! i) > 0" if "i \<in> set (dirty_list c)"
          using nu that dirty_taken [OF inv] by (auto simp: has_uref_dirty_blocks_def)
        ultimately show ?thesis using slotD [OF inv i] c1(2) by (cases "estate (ent c ! i)") (auto simp: slot_ok_def pending_def)
      qed
      then show ?thesis by (simp add: no_room_def)
    qed
    then show ?thesis using e inv by (auto simp: gde_full_def keeps_def)
  qed
qed

text \<open>The write-back inside \<^verbatim>\<open>get_disk_entry\<close> leaves no entry on the dirty list, so the retry needs no other.\<close>

lemma get_disk_entry_synced:
  assumes inv: "bc_inv True er c" "dirty_list c = []" and cl: "\<And>i x. er (cleaner i x) = er x"
  shows "\<exists>r c'. get_disk_entry cleaner b c = Some (r, c') \<and> gde_full er cleaner c b r c'"
proof -
  have "\<not> has_uref_dirty_blocks c" using inv(2) by (simp add: has_uref_dirty_blocks_def)
  then show ?thesis using gde_hit [of er c b _ cleaner, OF inv(1) _ cl] gde_miss [of er c b cleaner, OF inv(1) _ cl] by (cases "find_block b c") auto
qed

lemma gde_sync_slept:
  assumes S: "sync_post er 0 L c (Asleep t) c'"
  shows "gde_full er cleaner c b (Asleep (TGet cleaner b (local_dirty t))) c'"
proof -
  obtain M where M: "t = TSync 0 M" "M \<noteq> []" "stops M c'" using S by (auto simp: sync_post_def)
  have "bc_inv True er (asleep (Asleep (TGet cleaner b M), c')) \<longleftrightarrow> bc_inv True er (asleep (Asleep t, c'))"
    by (simp only: bc_inv_asleep local_dirty.simps M(1))
  then show ?thesis using S M by (auto simp: gde_full_def sync_post_def waits_for_def keeps_def frame_def)
qed

lemma sync_post_Ret:
  "sync_post er dv L c (Ret n) c' \<Longrightarrow>
   bc_inv True er c' \<and> bc_view er c' = bc_view er c \<and> frame c c' \<and> refs_same c c' \<and> sleeping c' = sleeping c \<and> dirty_list c' = dirty_list c"
  by (auto simp: sync_post_def keeps_def)

lemma frame_lists [simp]:
  "frame (c\<lparr>dirty_list := l\<rparr>) x = frame c x" "refs_same (c\<lparr>dirty_list := l\<rparr>) x = refs_same c x"
  "frame (c\<lparr>sleeping := s\<rparr>) x = frame c x" "refs_same (c\<lparr>sleeping := s\<rparr>) x = refs_same c x"
  by (simp_all add: frame_def refs_same_def)

lemma gde_full_lists [simp]: "gde_full er cleaner (c\<lparr>dirty_list := l\<rparr>) b r c' = gde_full er cleaner c b r c'"
  by (simp add: gde_full_def keeps_def got_def cong: option.case_cong call.case_cong)

lemma get_disk_entry_spec:
  assumes inv: "bc_inv True er c" and cl: "\<And>i x. er (cleaner i x) = er x"
  shows "\<exists>r c'. get_disk_entry cleaner b c = Some (r, c') \<and> gde_full er cleaner c b r c'"
proof (cases "find_block b c = None \<and> find_empty c = None \<and> fst (the (evict c)) = None \<and> has_uref_dirty_blocks c")
  case False
  then show ?thesis using gde_hit [of er c b _ cleaner, OF inv _ cl] gde_miss [of er c b cleaner, OF inv _ cl] by (cases "find_block b c") auto
next
  case True
  obtain r c1 where E: "evict c = Some (r, c1)" "case r of None \<Rightarrow> c1 = c | Some i \<Rightarrow> True"
    using evict_correct [OF inv] by (auto split: option.splits)
  then have ec: "evict c = Some (None, c)" using True by (cases r) simp_all
  obtain s c2 where s: "bc_sync 0 c = Some (s, c2)" "sync_post er 0 (dirty_list c) (c\<lparr>dirty_list := []\<rparr>) s c2"
    using bc_sync_flush [OF inv, of 0] by auto
  show ?thesis
  proof (cases s)
    case (Asleep t)
    then have "get_disk_entry cleaner b c = Some (Asleep (TGet cleaner b (local_dirty t)), c2)"
      using True ec s(1) by (subst get_disk_entry.simps) simp
    then show ?thesis using gde_sync_slept [of er "dirty_list c" "c\<lparr>dirty_list := []\<rparr>" t c2] s(2) Asleep by simp
  next
    case (Ret n)
    then have e: "get_disk_entry cleaner b c = get_disk_entry cleaner b c2" using True ec s(1) by (subst get_disk_entry.simps) simp
    have K: "bc_inv True er c2" "bc_view er c2 = bc_view er c" "frame c c2" "refs_same c c2" "sleeping c2 = sleeping c" "dirty_list c2 = []"
      using sync_post_Ret [of er 0 "dirty_list c" "c\<lparr>dirty_list := []\<rparr>" n c2] s(2) Ret by simp_all
    then show ?thesis using e get_disk_entry_synced [of er c2 cleaner b, OF K(1,6) cl] gde_full_trans [OF K(2-5)] by auto
  qed
qed

text \<open>The rest of \<^verbatim>\<open>get_disk_entry\<close> when its write-back wakes up.\<close>

lemma gde_after_sync_spec:
  assumes inv: "bc_inv True er (c\<lparr>dirty_list := L @ dirty_list c\<rparr>)" and cl: "\<And>i x. er (cleaner i x) = er x"
  shows "\<exists>r c'. gde_after_sync cleaner b L c = Some (r, c') \<and> gde_full er cleaner c b r c'"
proof -
  obtain s c2 where s: "sync_rest 0 L c = Some (s, c2)" "sync_post er 0 L c s c2" using sync_rest_correct [OF inv, of 0] by auto
  show ?thesis
  proof (cases s)
    case (Asleep t)
    then show ?thesis using s gde_sync_slept [of er L c t c2] by (simp add: gde_after_sync_def)
  next
    case (Ret n)
    then have K: "bc_inv True er c2" "bc_view er c2 = bc_view er c" "frame c c2" "refs_same c c2" "sleeping c2 = sleeping c"
      using sync_post_Ret [of er 0 L c n c2] s(2) by simp_all
    have "gde_after_sync cleaner b L c = get_disk_entry cleaner b c2" using s(1) Ret by (simp add: gde_after_sync_def)
    then show ?thesis using get_disk_entry_spec [of er c2 cleaner b, OF K(1) cl] gde_full_trans [OF K(2-5)] by auto
  qed
qed

subsection \<open>References, writes and prefetching\<close>

text \<open>A change of slot \<open>i\<close> that keeps its block number and its being in use or not.\<close>

lemma inv_same_bn:
  assumes inv: "bc_inv st er c" and i: "i < ne" and n: "estate (ent c ! i) \<noteq> es_empty" "bn e' = bn (ent c ! i)"
    and c': "ent c' = (ent c)[i := e']" "disk c' = disk c"
    and q: "qs_ok (evictq c')" "qs_ok (pending c')" "qs_ok (pfq c')"
    and m: "\<And>j. j \<noteq> i \<Longrightarrow> j \<in> set (evictq c') \<longleftrightarrow> j \<in> set (evictq c)"
      "\<And>j. j \<noteq> i \<Longrightarrow> j \<in> set (pending c') \<longleftrightarrow> j \<in> set (pending c)"
      "\<And>j. j \<noteq> i \<Longrightarrow> j \<in> set (pfq c') \<longleftrightarrow> j \<in> set (pfq c)"
    and s: "slot_ok st er (disk c) e' (i \<in> set (evictq c')) (i \<in> set (pending c')) (i \<in> set (pfq c'))"
  shows "bc_inv st er c'"
proof (rule inv_step [OF inv i c'(1) q m])
  show "slot_ok st er (disk c') e' (i \<in> set (evictq c')) (i \<in> set (pending c')) (i \<in> set (pfq c'))" using s c'(2) by simp
  fix j assume "j < ne" "j \<noteq> i" "estate (ent c ! j) \<noteq> es_empty"
  then show "bn (ent c ! j) \<noteq> bn e'" using bn_unique [OF inv _ i _ n(1)] n(2) by auto
qed (simp_all add: c'(2))

lemma be_put_spec:
  assumes inv: "bc_inv True er c" and i: "i < ne" "ref (ent c ! i) > 0" "ref (ent c ! i) = 1 \<longrightarrow> wref (ent c ! i) = 0"
  shows "\<exists>c'. be_put i c = Some c' \<and> bc_inv True er c' \<and> bc_view er c' = bc_view er c"
proof -
  note q = inv_queues [OF inv] and l = inv_length [OF inv] and S = slotD [OF inv i(1)]
  have st: "estate (ent c ! i) = es_clean \<or> estate (ent c ! i) = es_dirty"
    using S i(2) by (cases "estate (ent c ! i)") (simp_all add: slot_ok_def)
  define e' where "e' = (ent c ! i)\<lparr>ref := ref (ent c ! i) - 1\<rparr>"
  define p where "p \<longleftrightarrow> ref e' = 0 \<and> bn e' \<noteq> 0 \<and> estate e' \<noteq> es_dirty"
  define c' where "c' = (if p then c\<lparr>ent := (ent c)[i := e'], evictq := evictq c @ [i]\<rparr> else c\<lparr>ent := (ent c)[i := e']\<rparr>)"
  have E: "be_put i c = Some c'"
    using st i l by (auto simp: be_put_def upd_def Let_def c'_def p_def e'_def)
  have sel: "ent c' = (ent c)[i := e']" "disk c' = disk c" "pending c' = pending c" "pfq c' = pfq c"
    "evictq c' = (if p then evictq c @ [i] else evictq c)" by (simp_all add: c'_def)
  have w2: "wref (ent c ! i) = Suc 0 \<longrightarrow> Suc 0 < ref (ent c ! i)" using i(2,3) by (cases "ref (ent c ! i) = 1") auto
  have ni: "i \<notin> set (evictq c)" using S i(2) st by (elim disjE) (simp_all add: slot_ok_def)
  have s: "slot_ok True er (disk c) e' (i \<in> set (evictq c')) (i \<in> set (pending c')) (i \<in> set (pfq c'))"
    using st S i(2) ni w2 by (elim disjE) (simp_all add: slot_ok_def sel p_def e'_def)
  have inv': "bc_inv True er c'"
    by (rule inv_same_bn [OF inv i(1) _ _ sel(1,2) _ _ _ _ _ _ s]) (use st q ni i(1) in \<open>auto simp: e'_def sel\<close>)
  have "bc_view er c' = bc_view er c"
    by (rule view_eqI [OF inv inv']) (use i l in \<open>auto simp: sel e'_def nth_list_update split: if_splits\<close>)
  then show ?thesis using E inv' by blast
qed

text \<open>The entries sleeping write-backs wait for; for all others \<^verbatim>\<open>dlink_\<close> says whether they are pending.\<close>

definition waited :: "nat \<Rightarrow> 'b bufcache \<Rightarrow> bool" where
  "waited i c \<longleftrightarrow> (\<exists>t \<in> set (sleeping c). local_dirty t \<noteq> [] \<and> hd (local_dirty t) = i)"

lemma dlinked_pending: "\<not> waited i c \<Longrightarrow> dlinked i c \<longleftrightarrow> i \<in> set (pending c)"
proof -
  have "i \<in> set L \<longleftrightarrow> i \<in> set (tl L)" if "L = [] \<or> hd L \<noteq> i" for L using that by (cases L) auto
  then show "\<not> waited i c \<Longrightarrow> dlinked i c \<longleftrightarrow> i \<in> set (pending c)"
    unfolding waited_def dlinked_def pending_def slept_def by auto
qed

lemma dlinked_upd [simp]: "dlinked i (upd j f c) = dlinked i c"
  by (simp add: dlinked_def)

lemma get_write_spec:
  assumes inv: "bc_inv True er c" and i: "i < ne" "ref (ent c ! i) > 0" "wref (ent c ! i) = 0 \<longrightarrow> \<not> waited i c"
  shows "\<exists>r. get_write i True c = Some r \<and>
     (case r of Blocked \<Rightarrow> wref (ent c ! i) = 1
      | Done c' \<Rightarrow> wref (ent c ! i) = 0 \<and> bc_inv True er c' \<and> bc_view er c' = bc_view er c \<and> wref (ent c' ! i) = 1)"
proof -
  note q = inv_queues [OF inv] and l = inv_length [OF inv] and S = slotD [OF inv i(1)]
  have st: "estate (ent c ! i) = es_clean \<or> estate (ent c ! i) = es_dirty"
    using S i(2) by (cases "estate (ent c ! i)") (simp_all add: slot_ok_def)
  then have w: "wref (ent c ! i) \<le> 1" using S by (elim disjE) (simp_all add: slot_ok_def)
  show ?thesis
  proof (cases "wref (ent c ! i) = 1")
    case True
    then show ?thesis by (simp add: get_write_def)
  next
    case False
    then have w0: "wref (ent c ! i) = 0" using w by simp
    define e' where "e' = (ent c ! i)\<lparr>wref := 1, estate := es_dirty\<rparr>"
    have dp: "dlinked i c \<longleftrightarrow> i \<in> set (pending c)" using dlinked_pending i(3) w0 by blast
    define c' where "c' = (if i \<in> set (pending c) then c\<lparr>ent := (ent c)[i := (ent c ! i)\<lparr>wref := 1\<rparr>]\<rparr>
       else c\<lparr>ent := (ent c)[i := e'], dirty_list := dirty_list c @ [i]\<rparr>)"
    have "upd i (\<lambda>e. e\<lparr>estate := es_dirty\<rparr>) (upd i (\<lambda>e. e\<lparr>wref := wref e + 1\<rparr>) c) = c\<lparr>ent := (ent c)[i := e']\<rparr>"
      using w0 i l by (simp add: upd_def e'_def)
    then have E: "get_write i True c = Some (Done c')" using w0 i l dp by (auto simp: get_write_def c'_def)
    have dl: "i \<in> set (pending c) \<longleftrightarrow> estate (ent c ! i) = es_dirty" using S st by (elim disjE) (simp_all add: slot_ok_def)
    then have e: "i \<in> set (pending c) \<Longrightarrow> (ent c ! i)\<lparr>wref := 1\<rparr> = e'" by (simp add: e'_def)
    have sel: "ent c' = (ent c)[i := e']" "disk c' = disk c" "evictq c' = evictq c" "pfq c' = pfq c"
      "pending c' = (if i \<in> set (pending c) then pending c else dirty_list c @ [i] @ slept c)" using e by (simp_all add: c'_def)
    have pc: "i \<notin> set (pending c) \<Longrightarrow> i \<notin> set (dirty_list c) \<and> i \<notin> set (slept c)" "set (pending c) = set (dirty_list c) \<union> set (slept c)"
      "qs_ok (dirty_list c @ slept c)" using q by (simp_all add: pending_def)
    have qp: "qs_ok (pending c')" using pc(1,3) i(1) q unfolding sel(5) by (auto simp: qs_ok_def)
    have mp: "j \<in> set (pending c') \<longleftrightarrow> j \<in> set (pending c) \<or> j = i" for j unfolding sel(5) using pc(2) by auto
    have s: "slot_ok True er (disk c) e' (i \<in> set (evictq c')) (i \<in> set (pending c')) (i \<in> set (pfq c'))"
      using st S i(2) unfolding mp by (elim disjE) (auto simp: slot_ok_def sel(2-4) e'_def)
    have inv': "bc_inv True er c'"
      by (rule inv_same_bn [OF inv i(1) _ _ sel(1,2) _ _ _ _ _ _ s]) (use st q qp mp i(1) in \<open>auto simp: e'_def sel(1-4)\<close>)
    have b: "buf e' = buf (ent c ! i)" "bn e' = bn (ent c ! i)" by (simp_all add: e'_def)
    have vi: "bc_view er c (bn (ent c ! i)) = er (the (buf (ent c ! i)))"
      using find_blockI [OF inv i(1)] st by (auto simp: bc_view_def)
    have "bc_view er c' b = bc_view er c b" for b
    proof (cases "b = bn (ent c ! i)")
      case True
      have "ent c' ! i = e'" using sel(1) i l by simp
      then show ?thesis using view_dirty [OF inv' i(1)] vi b True by (simp add: e'_def)
    next
      case False
      have ej: "ent c' ! j = ent c ! j" if "j < ne" "bn (ent c ! j) = b \<or> bn (ent c' ! j) = b" for j
        using that False sel(1) b l i(1) by (cases "j = i") simp_all
      show ?thesis
      proof (cases "\<exists>j < ne. estate (ent c ! j) = es_dirty \<and> bn (ent c ! j) = b")
        case True
        then obtain j where j: "j < ne" "estate (ent c ! j) = es_dirty" "bn (ent c ! j) = b" by auto
        then show ?thesis using view_dirty [OF inv j(1,2)] view_dirty [OF inv' j(1)] ej [OF j(1)] by simp
      next
        case no: False
        then show ?thesis using view_disk [OF inv, of b] view_disk [OF inv', of b] ej sel(2) by metis
      qed
    qed
    then have "bc_view er c' = bc_view er c" by auto
    moreover have "wref (ent c' ! i) = 1" using sel(1) i l by (simp add: e'_def)
    ultimately show ?thesis using E inv' w0 by auto
  qed
qed

lemma put_write_spec:
  assumes inv: "bc_inv True er c" and i: "i < ne" "wref (ent c ! i) = 1"
  shows "\<exists>c'. put_write i c = Some c' \<and> bc_inv True er c' \<and> bc_view er c' = bc_view er c"
proof -
  note q = inv_queues [OF inv] and l = inv_length [OF inv] and S = slotD [OF inv i(1)]
  have st: "estate (ent c ! i) = es_dirty" using S i(2) by (cases "estate (ent c ! i)") (simp_all add: slot_ok_def)
  define e' where "e' = (ent c ! i)\<lparr>wref := 0\<rparr>"
  define c' where "c' = c\<lparr>ent := (ent c)[i := e']\<rparr>"
  have E: "put_write i c = Some c'" using i by (simp add: put_write_def upd_def c'_def e'_def)
  have s: "slot_ok True er (disk c) e' (i \<in> set (evictq c')) (i \<in> set (pending c')) (i \<in> set (pfq c'))"
    using S st by (simp add: slot_ok_def c'_def e'_def)
  have inv': "bc_inv True er c'"
    by (rule inv_same_bn [OF inv i(1) _ _ _ _ _ _ _ _ _ _ s]) (use st q in \<open>auto simp: e'_def c'_def\<close>)
  have "bc_view er c' = bc_view er c"
    by (rule view_eqI [OF inv inv']) (use i l in \<open>auto simp: c'_def e'_def nth_list_update split: if_splits\<close>)
  then show ?thesis using E inv' by blast
qed

lemma be_modify_spec:
  assumes inv: "bc_inv True er c" and i: "i < ne" "wref (ent c ! i) = 1"
  shows "bc_inv True er (be_modify i f c) \<and>
     bc_view er (be_modify i f c) = (bc_view er c)(bn (ent c ! i) := er (f (the (buf (ent c ! i)))))"
proof -
  note q = inv_queues [OF inv] and l = inv_length [OF inv] and S = slotD [OF inv i(1)]
  have st: "estate (ent c ! i) = es_dirty" using S i(2) by (cases "estate (ent c ! i)") (simp_all add: slot_ok_def)
  then obtain x where x: "buf (ent c ! i) = Some x" using S by (auto simp: slot_ok_def)
  define e' where "e' = (ent c ! i)\<lparr>buf := Some (f x)\<rparr>"
  define c' where "c' = be_modify i f c"
  have sel: "ent c' = (ent c)[i := e']" "disk c' = disk c" "evictq c' = evictq c" "pending c' = pending c" "pfq c' = pfq c"
    by (simp_all add: c'_def be_modify_def e'_def x)
  have s: "slot_ok True er (disk c) e' (i \<in> set (evictq c')) (i \<in> set (pending c')) (i \<in> set (pfq c'))"
    using S st by (simp add: slot_ok_def sel e'_def)
  have inv': "bc_inv True er c'"
    by (rule inv_same_bn [OF inv i(1) _ _ sel(1,2) _ _ _ _ _ _ s]) (use st q in \<open>auto simp: e'_def sel\<close>)
  have "bc_view er c' b = (if b = bn (ent c ! i) then er (f x) else bc_view er c b)" for b
  proof (cases "b = bn (ent c ! i)")
    case True
    have "ent c' ! i = e'" using sel(1) i l by simp
    then show ?thesis using view_dirty [OF inv' i(1)] True st by (simp add: e'_def)
  next
    case False
    have ej: "ent c' ! j = ent c ! j" if "j < ne" "bn (ent c ! j) = b \<or> bn (ent c' ! j) = b" for j
      using that False sel(1) l i(1) by (cases "j = i") (simp_all add: e'_def)
    show ?thesis
    proof (cases "\<exists>j < ne. estate (ent c ! j) = es_dirty \<and> bn (ent c ! j) = b")
      case True
      then obtain j where j: "j < ne" "estate (ent c ! j) = es_dirty" "bn (ent c ! j) = b" by auto
      then show ?thesis using view_dirty [OF inv j(1,2)] view_dirty [OF inv' j(1)] ej [OF j(1)] False by simp
    next
      case no: False
      then show ?thesis using view_disk [OF inv, of b] view_disk [OF inv', of b] ej sel(2) False by metis
    qed
  qed
  then show ?thesis using inv' x by (auto simp: c'_def)
qed

lemma pf_complete_spec:
  assumes inv: "bc_inv True er c" and i: "i \<in> set (pfq c)"
  shows "bc_inv True er (pf_complete i c) \<and> bc_view er (pf_complete i c) = bc_view er c"
proof -
  note q = inv_queues [OF inv] and l = inv_length [OF inv]
  have n: "i < ne" using q i by (simp add: qs_ok_def)
  note S = slotD [OF inv n]
  have st: "estate (ent c ! i) = es_prefetching" using S i by (cases "estate (ent c ! i)") (simp_all add: slot_ok_def)
  define e' where "e' = (ent c ! i)\<lparr>buf := Some (disk c (bn (ent c ! i))), pfstatus := 0\<rparr>"
  define c' where "c' = pf_complete i c"
  have sel: "ent c' = (ent c)[i := e']" "disk c' = disk c" "evictq c' = evictq c" "pending c' = pending c" "pfq c' = pfq c"
    by (simp_all add: c'_def pf_complete_def e'_def)
  have s: "slot_ok True er (disk c) e' (i \<in> set (evictq c')) (i \<in> set (pending c')) (i \<in> set (pfq c'))"
    using S st i by (simp add: slot_ok_def sel e'_def)
  have inv': "bc_inv True er c'"
    by (rule inv_same_bn [OF inv n _ _ sel(1,2) _ _ _ _ _ _ s]) (use st q in \<open>auto simp: e'_def sel\<close>)
  have "bc_view er c' = bc_view er c"
    by (rule view_eqI [OF inv inv']) (use n l st in \<open>auto simp: sel e'_def nth_list_update split: if_splits\<close>)
  then show ?thesis using inv' by (simp add: c'_def)
qed

text \<open>Prefetching, where the read outside the array does not trip the assertion.\<close>

lemma prefetch_scan_spec:
  assumes inv: "bc_inv True er c" and "\<forall>i \<in> set is. i < ne" and "\<forall>j. slot = Some j \<longrightarrow> j < ne \<and> be_empty c j"
  shows "\<exists>f s. prefetch_scan False b c is slot = Some (f, s) \<and>
     (\<not> f \<longrightarrow> (\<forall>i \<in> set is. be_empty c i \<or> bn (ent c ! i) \<noteq> b) \<and> (\<forall>j. s = Some j \<longrightarrow> j < ne \<and> be_empty c j))"
  using assms(2,3)
proof (induction "is" arbitrary: slot)
  case (Cons i "is")
  have nq: "j \<notin> set (evictq c)" if "slot = Some j" for j
    using Cons.prems(2) that slotD [OF inv, of j] by (auto simp: be_empty_def slot_ok_def)
  show ?case
  proof (cases "be_empty c i")
    case True
    have "prefetch_scan False b c (i # is) slot = prefetch_scan False b c is (if slot = None then Some i else slot)"
      using True nq by (auto split: option.splits)
    then show ?thesis using Cons.IH [of "if slot = None then Some i else slot"] Cons.prems True by auto
  next
    case False
    then show ?thesis using Cons.IH [of slot] Cons.prems by (cases "bn (ent c ! i) = b") auto
  qed
qed auto

lemma prefetch_fill:
  assumes inv: "bc_inv True er c" and i: "i < ne" "be_empty c i"
    and b: "\<And>j. j < ne \<Longrightarrow> estate (ent c ! j) \<noteq> es_empty \<Longrightarrow> bn (ent c ! j) \<noteq> b"
  shows "\<exists>f c'. prefetch_block refused i (upd i (\<lambda>e. e\<lparr>bn := b\<rparr>) c) = Some (f, c') \<and> bc_inv True er c' \<and>
     bc_view er c' = bc_view er c \<and> i \<notin> set (evictq c')"
proof -
  note q = inv_queues [OF inv] and l = inv_length [OF inv]
  have S: "buf (ent c ! i) = None" "ref (ent c ! i) = 0" "wref (ent c ! i) = 0" "i \<notin> set (evictq c)"
    "i \<notin> set (pending c)" "i \<notin> set (pfq c)" "estate (ent c ! i) = es_empty"
    using slotD [OF inv i(1)] i(2) by (simp_all add: slot_ok_def be_empty_def)
  obtain f c' e' where E: "prefetch_block refused i (upd i (\<lambda>e. e\<lparr>bn := b\<rparr>) c) = Some (f, c')"
    and sel: "ent c' = (ent c)[i := e']" "disk c' = disk c" "evictq c' = evictq c" "pending c' = pending c"
      "pfq c' = (if f then pfq c @ [i] else pfq c)"
    and e': "slot_ok True er (disk c) e' False False f" "bn e' = b" "estate e' \<noteq> es_dirty"
  proof (cases "pages c = 0")
    case True
    then show thesis using S i l
      by (intro that [of False "upd i (\<lambda>e. e\<lparr>bn := b\<rparr>) c" "(ent c ! i)\<lparr>bn := b\<rparr>"])
        (simp_all add: prefetch_block_def be_empty_def slot_ok_def)
  next
    case False
    let ?e = "(ent c ! i)\<lparr>bn := b, buf := Some (fresh c), pfstatus := E_AGAIN, estate := es_prefetching\<rparr>"
    let ?c = "c\<lparr>ent := (ent c)[i := ?e], pages := pages c - 1, pfq := (if refused then pfq c else pfq c @ [i])\<rparr>"
    have "prefetch_block refused i (upd i (\<lambda>e. e\<lparr>bn := b\<rparr>) c) = Some (\<not> refused, ?c)"
      using S i l False by (simp add: prefetch_block_def be_empty_def upd_def Let_def)
    then show thesis using S i l by (intro that [of "\<not> refused" ?c ?e]) (simp_all add: slot_ok_def)
  qed
  have inv': "bc_inv True er c'"
    by (rule inv_step [OF inv i(1) sel(1)]) (use q S i b e' sel(2-) in auto)
  moreover have "bc_view er c' = bc_view er c"
    by (rule view_eqI [OF inv inv']) (use i l e' S in \<open>auto simp: sel nth_list_update split: if_splits\<close>)
  ultimately show ?thesis using E S sel(3) by auto
qed

lemma prefetch_one_spec:
  assumes inv: "bc_inv True er c"
  shows "\<exists>f c'. prefetch_one False refused b c = Some (f, c') \<and> bc_inv True er c' \<and> bc_view er c' = bc_view er c"
proof -
  obtain f s where P: "prefetch_scan False b c [0..<ne] None = Some (f, s)"
    "\<not> f \<longrightarrow> (\<forall>i \<in> set [0..<ne]. be_empty c i \<or> bn (ent c ! i) \<noteq> b) \<and> (\<forall>j. s = Some j \<longrightarrow> j < ne \<and> be_empty c j)"
    using prefetch_scan_spec [OF inv, of "[0..<ne]" None b] by auto
  show ?thesis
  proof (cases f)
    case True
    then have "prefetch_one False refused b c = Some (True, c)" using P(1) by (simp add: prefetch_one_def)
    then show ?thesis using inv by blast
  next
    case False
    have b: "bn (ent c ! j) \<noteq> b" if "j < ne" "estate (ent c ! j) \<noteq> es_empty" for j
      using P(2) False that by (auto simp: be_empty_def)
    show ?thesis
    proof (cases s)
      case (Some i)
      then show ?thesis using prefetch_fill [OF inv _ _ b, of i refused] P False by (auto simp: prefetch_one_def)
    next
      case None
      obtain r c1 where E: "evict c = Some (r, c1)" "keeps True er c c1"
        "\<forall>j < ne. estate (ent c1 ! j) \<noteq> es_empty \<longrightarrow> ent c1 ! j = ent c ! j"
        "case r of Some i \<Rightarrow> i < ne \<and> estate (ent c1 ! i) = es_empty \<and> pages c1 > 0
          | None \<Rightarrow> c1 = c \<and> evictq c = [] \<and> (\<forall>i \<in> set (pfq c). pfstatus (ent c ! i) = E_AGAIN)"
        using evict_correct [OF inv] by (elim exE conjE)
      show ?thesis
      proof (cases r)
        case r: None
        then show ?thesis using E P(1) False None inv by (auto simp: prefetch_one_def)
      next
        case (Some i)
        have inv1: "bc_inv True er c1" "bc_view er c1 = bc_view er c" using E(2) by (simp_all add: keeps_def)
        have i: "i < ne" "be_empty c1 i" using E(4) Some by (simp_all add: be_empty_def)
        have b1: "bn (ent c1 ! j) \<noteq> b" if "j < ne" "estate (ent c1 ! j) \<noteq> es_empty" for j using E(3) b [of j] that by auto
        obtain g c' where "prefetch_block refused i (upd i (\<lambda>e. e\<lparr>bn := b\<rparr>) c1) = Some (g, c')" "bc_inv True er c'"
          "bc_view er c' = bc_view er c1" "i \<notin> set (evictq c')" using prefetch_fill [OF inv1(1) i, of b refused] b1 by auto
        then show ?thesis using E(1) P(1) False None Some inv1(2)
          by (intro exI [of _ True] exI [of _ c']) (simp add: prefetch_one_def)
      qed
    qed
  qed
qed

lemma bc_prefetch_spec:
  "bc_inv True er c \<Longrightarrow> \<exists>r c'. bc_prefetch False refused bs c = Some (r, c') \<and> bc_inv True er c' \<and> bc_view er c' = bc_view er c"
proof (induction bs arbitrary: c)
  case (Cons b bs)
  obtain f c1 where "prefetch_one False (refused b) b c = Some (f, c1)" "bc_inv True er c1" "bc_view er c1 = bc_view er c"
    using prefetch_one_spec [OF Cons.prems] by blast
  then show ?case using Cons.IH [of c1] by (cases f) auto
qed simp

subsection \<open>The calls that sleep\<close>

lemma keeps_sleeping:
  "be_put i c = Some c' \<Longrightarrow> sleeping c' = sleeping c" "put_write i c = Some c' \<Longrightarrow> sleeping c' = sleeping c"
  "get_write i p c = Some (Done c') \<Longrightarrow> sleeping c' = sleeping c" "evict c = Some (r, c') \<Longrightarrow> sleeping c' = sleeping c"
  "sleeping (be_modify i f c) = sleeping c" "sleeping (pf_complete i c) = sleeping c"
  by (auto simp: be_put_def put_write_def get_write_def evict_def be_clear_def be_modify_def pf_complete_def Let_def split: if_splits list.splits option.splits)

lemma prefetch_sleeping: "bc_prefetch oob refused bs c = Some (r, c') \<Longrightarrow> sleeping c' = sleeping c"
proof (induction bs arbitrary: c)
  case (Cons b bs)
  have one: "sleeping c1 = sleeping c" if "prefetch_one oob f b c = Some (g, c1)" for f g c1
    using that by (auto simp: prefetch_one_def prefetch_block_def Let_def split: option.splits if_splits bool.splits; metis keeps_sleeping(4))
  then show ?case using Cons by (auto split: option.splits bool.splits)
qed simp

text \<open>Whatever is read outside the array, a prefetch that survives it does the same.\<close>

lemma prefetch_scan_oob: "prefetch_scan oob b c L slot = Some x \<Longrightarrow> prefetch_scan False b c L slot = Some x"
  by (induction L arbitrary: slot) (auto split: if_splits option.splits)

lemma prefetch_oob: "bc_prefetch oob refused bs c = Some x \<Longrightarrow> bc_prefetch False refused bs c = Some x"
proof (induction bs arbitrary: c)
  case (Cons b bs)
  have one: "prefetch_one oob f b c = Some y \<Longrightarrow> prefetch_one False f b c = Some y" for f y
    using prefetch_scan_oob [of oob b c "[0..<ne]" None] by (cases "prefetch_scan oob b c [0..<ne] None") (simp_all add: prefetch_one_def)
  then show ?case using Cons by (auto split: option.splits bool.splits)
qed simp

lemma prefetch_oob_halts:
  assumes "find_block b c = None" "find_empty c \<noteq> None"
  shows "bc_prefetch True refused (b # bs) c = None"
proof -
  have "prefetch_scan True b c L None = None" if "\<exists>i \<in> set L. be_empty c i" "\<forall>i \<in> set L. be_empty c i \<or> bn (ent c ! i) \<noteq> b" for L
    using that by (induction L) auto
  moreover have "\<exists>i \<in> set [0..<ne]. be_empty c i" "\<forall>i \<in> set [0..<ne]. be_empty c i \<or> bn (ent c ! i) \<noteq> b"
    using assms by (auto simp: find_block_def find_empty_def find_None_iff)
  ultimately have "prefetch_scan True b c [0..<ne] None = None" by blast
  then show ?thesis by (simp add: prefetch_one_def)
qed

text \<open>The tasks that sleep in a history; \<^verbatim>\<open>sync\<close> with \<^verbatim>\<open>drop > 0\<close> and \<^verbatim>\<open>load\<close> never do.\<close>

fun task_ok :: "('b \<Rightarrow> 'p) \<Rightarrow> 'b task \<Rightarrow> bool" where
  "task_ok er (TSync dv L) \<longleftrightarrow> dv \<le> 0"
| "task_ok er (TGet cleaner b L) \<longleftrightarrow> (\<forall>i x. er (cleaner i x) = er x)"
| "task_ok er (TWait cleaner b i) \<longleftrightarrow> i < ne \<and> (\<forall>i x. er (cleaner i x) = er x)"
| "task_ok er _ \<longleftrightarrow> False"

definition sys_inv :: "('b \<Rightarrow> 'p) \<Rightarrow> 'b bufcache \<Rightarrow> bool" where
  "sys_inv er c \<longleftrightarrow> bc_inv True er c \<and> (\<forall>t \<in> set (sleeping c). task_ok er t)"

definition refines :: "('b \<Rightarrow> 'p) \<Rightarrow> 'b bufcache option \<Rightarrow> (nat \<Rightarrow> 'p) \<Rightarrow> bool" where
  "refines er x v \<longleftrightarrow> (\<exists>c'. x = Some c' \<and> sys_inv er c' \<and> bc_view er c' = v)"

lemma refines_quiet:
  "x = Some c' \<Longrightarrow> bc_inv True er c' \<Longrightarrow> bc_view er c' = v \<Longrightarrow> sleeping c' = sleeping c \<Longrightarrow> sys_inv er c \<Longrightarrow> refines er x v"
  by (simp add: refines_def sys_inv_def)

lemma refines_gde:
  assumes "x = Some (r, c')" "gde_full er cleaner c b r c'" "\<forall>t \<in> set (sleeping c). task_ok er t" "\<forall>i x. er (cleaner i x) = er x"
  shows "refines er (map_option asleep x) (bc_view er c)"
  using assms by (cases r) (auto simp: refines_def sys_inv_def gde_full_def keeps_def waits_for_def)

lemma refines_sync:
  assumes "x = Some (r, c')" "sync_post er dv L c r c'" "\<forall>t \<in> set (sleeping c). task_ok er t" "dv \<le> 0 \<or> (\<exists>n. r = Ret n)"
  shows "refines er (map_option asleep x) (bc_view er c)"
  using assms by (cases r) (auto simp: refines_def sys_inv_def sync_post_def keeps_def)

text \<open>A task that is woken gives back what it holds.\<close>

lemma woken_inv:
  assumes "sys_inv er c" "k < length (sleeping c)"
  shows "bc_inv True er ((woken k c)\<lparr>dirty_list := local_dirty (sleeping c ! k) @ dirty_list (woken k c)\<rparr>)"
    and "\<forall>t \<in> set (sleeping (woken k c)). task_ok er t" "task_ok er (sleeping c ! k)"
proof -
  have e: "sleeping c = take k (sleeping c) @ sleeping c ! k # drop (Suc k) (sleeping c)" by (rule id_take_nth_drop [OF assms(2)])
  let ?S = "concat (map local_dirty (take k (sleeping c)))" and ?T = "concat (map local_dirty (drop (Suc k) (sleeping c)))"
  have s: "slept c = ?S @ local_dirty (sleeping c ! k) @ ?T" unfolding slept_def by (subst e) simp
  have w: "slept (woken k c) = ?S @ ?T" by (simp add: slept_def woken_def)
  have "bc_inv True er ((woken k c)\<lparr>dirty_list := local_dirty (sleeping c ! k) @ dirty_list (woken k c)\<rparr>) = bc_inv True er c"
    by (rule bc_inv_pending) (auto simp: pending_def s w, simp_all add: woken_def, auto)
  then show "bc_inv True er ((woken k c)\<lparr>dirty_list := local_dirty (sleeping c ! k) @ dirty_list (woken k c)\<rparr>)"
    using assms(1) by (simp add: sys_inv_def)
  show "\<forall>t \<in> set (sleeping (woken k c)). task_ok er t" "task_ok er (sleeping c ! k)"
    using assms by (auto simp: sys_inv_def woken_def dest: in_set_takeD in_set_dropD)
qed

lemma woken_sel [simp]: "ent (woken k c) = ent c" "dirty_list (woken k c) = dirty_list c" "disk (woken k c) = disk c" "bc_view er (woken k c) = bc_view er c"
  by (simp_all add: woken_def)

text \<open>
  Running a task again. For a wait on a prefetch the slot must still hold the block, which the code does
  not check.
\<close>

definition holds_block :: "'b task \<Rightarrow> 'b bufcache \<Rightarrow> bool" where
  "holds_block t c \<longleftrightarrow>
     (case t of TWait cleaner b i \<Rightarrow> pfstatus (ent c ! i) = E_AGAIN \<or> estate (ent c ! i) \<noteq> es_empty \<and> bn (ent c ! i) = b | _ \<Rightarrow> True)"

lemma run_task_refines:
  assumes inv: "sys_inv er c" and k: "k < length (sleeping c)" "holds_block (sleeping c ! k) c"
  shows "refines er (run_task (sleeping c ! k) (woken k c)) (bc_view er c)"
proof -
  note W = woken_inv [OF inv k(1)]
  let ?c = "woken k c"
  show ?thesis
  proof (cases "sleeping c ! k")
    case (TSync dv L)
    then have dv: "dv \<le> 0" using W(3) by simp
    have "bc_inv True er (?c\<lparr>dirty_list := L @ dirty_list ?c\<rparr>)" using W(1) TSync by simp
    from sync_rest_correct [OF this dv] obtain r c' where "sync_rest dv L ?c = Some (r, c')" "sync_post er dv L ?c r c'" by blast
    from refines_sync [OF this W(2)] show ?thesis using TSync dv by simp
  next
    case (TGet cleaner b L)
    then have cl: "\<forall>i x. er (cleaner i x) = er x" using W(3) by simp
    have "bc_inv True er (?c\<lparr>dirty_list := L @ dirty_list ?c\<rparr>)" using W(1) TGet by simp
    from gde_after_sync_spec [of er L ?c cleaner b, OF this] cl obtain r c' where
      "gde_after_sync cleaner b L ?c = Some (r, c')" "gde_full er cleaner ?c b r c'" by blast
    from refines_gde [OF this W(2) cl] show ?thesis using TGet by simp
  next
    case (TWait cleaner b i)
    then have cl: "i < ne" "\<forall>i x. er (cleaner i x) = er x" using W(3) by simp_all
    have e: "?c\<lparr>dirty_list := dirty_list ?c\<rparr> = ?c" by (rule bufcache.surjective [of ?c, THEN ssubst]) simp
    have inv': "bc_inv True er ?c" using W(1) unfolding TWait local_dirty.simps append_Nil e .
    show ?thesis
    proof (cases "pfstatus (ent c ! i) = E_AGAIN")
      case True
      have "bc_inv True er (asleep (Asleep (TWait cleaner b i), ?c))" using inv' by (simp only: bc_inv_asleep local_dirty.simps append_Nil e)
      then show ?thesis using True TWait W(2) cl by (simp add: gde_after_wait_def refines_def sys_inv_def)
    next
      case False
      then have h: "bn (ent ?c ! i) = b" "estate (ent ?c ! i) \<noteq> es_empty" using k(2) TWait by (simp_all add: holds_block_def)
      obtain r c' where "gde_after_wait cleaner b i ?c = Some (r, c')" "gde_full er cleaner ?c b r c'"
        using gde_after_wait_spec [of er ?c i b cleaner, OF inv' cl(1) h] cl(2) False by auto
      from refines_gde [OF this W(2) cl(2)] show ?thesis using TWait by simp
    qed
  qed (use W(3) in simp_all)
qed

subsection \<open>The cache is transparent\<close>

text \<open>
  The calls a client makes, with the completion of a prefetch by the disk and the continuation of the
  \<open>k\<close>-th sleeping call. A writer that sleeps in \<^verbatim>\<open>get_write\<close> has changed nothing and calls it again.
\<close>

datatype 'b bc_op =
    Get "nat \<Rightarrow> 'b \<Rightarrow> 'b" nat | Put nat | GetWrite nat | PutWrite nat | Modify nat "'b \<Rightarrow> 'b"
  | Sync int | Prefetch bool "nat \<Rightarrow> bool" "nat list" | PfDone nat | Resume nat

fun bc_exec :: "'b bc_op \<Rightarrow> 'b bufcache \<Rightarrow> 'b bufcache option" where
  "bc_exec (Get cleaner b) c = map_option asleep (get_disk_entry cleaner b c)"
| "bc_exec (Put i) c = be_put i c"
| "bc_exec (GetWrite i) c = (case get_write i True c of None \<Rightarrow> None | Some Blocked \<Rightarrow> Some c | Some (Done c') \<Rightarrow> Some c')"
| "bc_exec (PutWrite i) c = put_write i c"
| "bc_exec (Modify i f) c = Some (be_modify i f c)"
| "bc_exec (Sync dv) c = map_option asleep (bc_sync dv c)"
| "bc_exec (Prefetch oob refused bs) c = map_option snd (bc_prefetch oob refused bs c)"
| "bc_exec (PfDone i) c = Some (pf_complete i c)"
| "bc_exec (Resume k) c = run_task (sleeping c ! k) (woken k c)"

text \<open>
  The rules. Those of \<^verbatim>\<open>k-chkfs.hh\<close>: a reference for every use, a write reference for every store, cleaners
  that only touch fields kept in memory. Three more the code needs but does not enforce (the lemmas
  at the end of this theory show what happens without them): no task takes a write reference on an
  entry between the moment its writer leaves and the moment a sleeping \<^verbatim>\<open>sync\<close> takes it; a task that
  waited for a prefetch runs before the slot is used for another block; and \<^verbatim>\<open>sync\<close> with \<^verbatim>\<open>drop > 0\<close>
  is called when nothing can make it sleep.
\<close>

fun protocol :: "('b \<Rightarrow> 'p) \<Rightarrow> 'b bc_op \<Rightarrow> 'b bufcache \<Rightarrow> bool" where
  "protocol er (Get cleaner b) c \<longleftrightarrow> (\<forall>i x. er (cleaner i x) = er x)"
| "protocol er (Put i) c \<longleftrightarrow> i < ne \<and> ref (ent c ! i) > 0 \<and> (ref (ent c ! i) = 1 \<longrightarrow> wref (ent c ! i) = 0)"
| "protocol er (GetWrite i) c \<longleftrightarrow> i < ne \<and> ref (ent c ! i) > 0 \<and> (wref (ent c ! i) = 0 \<longrightarrow> \<not> waited i c)"
| "protocol er (PutWrite i) c \<longleftrightarrow> i < ne \<and> wref (ent c ! i) = 1"
| "protocol er (Modify i f) c \<longleftrightarrow> i < ne \<and> wref (ent c ! i) = 1"
| "protocol er (Sync dv) c \<longleftrightarrow>
     (dv > 0 \<longrightarrow> (\<forall>i < ne. wref (ent c ! i) = 0) \<and> (\<forall>i < ne. estate (ent c ! i) \<noteq> es_prefetching) \<and> slept c = []) \<and>
     (dv > 1 \<longrightarrow> (\<forall>i < ne. ref (ent c ! i) > 0 \<longrightarrow> bn (ent c ! i) < 2))"
| "protocol er (Prefetch oob refused bs) c \<longleftrightarrow> True"
| "protocol er (PfDone i) c \<longleftrightarrow> i \<in> set (pfq c)"
| "protocol er (Resume k) c \<longleftrightarrow> k < length (sleeping c) \<and> holds_block (sleeping c ! k) c"

text \<open>The specification: an array of blocks that only stores change.\<close>

fun spec_exec :: "('b \<Rightarrow> 'p) \<Rightarrow> 'b bc_op \<Rightarrow> 'b bufcache \<Rightarrow> (nat \<Rightarrow> 'p) \<Rightarrow> (nat \<Rightarrow> 'p)" where
  "spec_exec er (Modify i f) c v = v(bn (ent c ! i) := er (f (the (buf (ent c ! i)))))"
| "spec_exec er _ c v = v"

lemma prefetch_refines:
  assumes "sys_inv er c"
  shows "refines er (map_option snd (bc_prefetch oob refused bs c)) (bc_view er c) \<or> oob \<and> bc_prefetch oob refused bs c = None"
proof -
  obtain r c' where P: "bc_prefetch False refused bs c = Some (r, c')" "bc_inv True er c'" "bc_view er c' = bc_view er c"
    using bc_prefetch_spec [of er c refused bs] assms by (auto simp: sys_inv_def)
  have R: "refines er (map_option snd (Some (r, c'))) (bc_view er c)"
    by (rule refines_quiet [OF _ P(2,3) prefetch_sleeping [OF P(1)] assms]) simp
  show ?thesis
  proof (cases "bc_prefetch oob refused bs c")
    case None
    then show ?thesis using R P(1) by (cases oob) simp_all
  next
    case (Some x)
    then show ?thesis using R P(1) prefetch_oob [OF Some] by simp
  qed
qed

lemma bc_exec_refines:
  assumes inv: "sys_inv er c" and p: "protocol er op c"
  shows "refines er (bc_exec op c) (spec_exec er op c (bc_view er c)) \<or> (\<exists>refused bs. op = Prefetch True refused bs \<and> bc_exec op c = None)"
proof -
  have I: "bc_inv True er c" and T: "\<forall>t \<in> set (sleeping c). task_ok er t" using inv by (simp_all add: sys_inv_def)
  note quiet = refines_quiet [OF _ _ _ _ inv]
  show ?thesis
  proof (cases op)
    case (Get cleaner b)
    then have cl: "\<forall>i x. er (cleaner i x) = er x" using p by simp
    then obtain r c' where "get_disk_entry cleaner b c = Some (r, c')" "gde_full er cleaner c b r c'"
      using get_disk_entry_spec [of er c cleaner b, OF I] by auto
    from refines_gde [OF this T cl] show ?thesis using Get by simp
  next
    case (Put i)
    then obtain c' where c': "be_put i c = Some c'" "bc_inv True er c'" "bc_view er c' = bc_view er c" using be_put_spec [OF I, of i] p by auto
    from quiet [OF this keeps_sleeping(1) [OF c'(1)]] show ?thesis using Put by simp
  next
    case (GetWrite i)
    then obtain r where r: "get_write i True c = Some r"
       "case r of Blocked \<Rightarrow> wref (ent c ! i) = 1
        | Done c' \<Rightarrow> wref (ent c ! i) = 0 \<and> bc_inv True er c' \<and> bc_view er c' = bc_view er c \<and> wref (ent c' ! i) = 1"
      using get_write_spec [OF I, of i] p by auto
    show ?thesis
    proof (cases r)
      case Blocked
      then show ?thesis using r GetWrite inv by (simp add: refines_def)
    next
      case (Done c')
      then have "refines er (Some c') (bc_view er c)" using r keeps_sleeping(3) [of i True c c'] by (intro quiet [OF refl]) auto
      then show ?thesis using Done r GetWrite by simp
    qed
  next
    case (PutWrite i)
    then obtain c' where c': "put_write i c = Some c'" "bc_inv True er c'" "bc_view er c' = bc_view er c" using put_write_spec [OF I, of i] p by auto
    from quiet [OF this keeps_sleeping(2) [OF c'(1)]] show ?thesis using PutWrite by simp
  next
    case (Modify i f)
    then have "refines er (Some (be_modify i f c)) (spec_exec er op c (bc_view er c))"
      using be_modify_spec [OF I, of i f] p keeps_sleeping(5) by (intro quiet [OF refl]) auto
    then show ?thesis using Modify by simp
  next
    case (Sync dv)
    show ?thesis
    proof (cases "dv \<le> 0")
      case True
      from bc_sync_flush [OF I this] obtain r c' where
        S: "bc_sync dv c = Some (r, c')" "sync_post er dv (dirty_list c) (c\<lparr>dirty_list := []\<rparr>) r c'" by blast
      from refines_sync [OF this] T True show ?thesis using Sync by simp
    next
      case False
      then obtain c' where S: "bc_sync dv c = Some (Ret 0, c')" "sync_post er dv (dirty_list c) (c\<lparr>dirty_list := []\<rparr>) (Ret 0) c'"
        using bc_sync_drop [OF I, of dv] p Sync by auto
      from refines_sync [OF this] T show ?thesis using Sync by simp
    qed
  next
    case (Prefetch oob refused bs)
    then show ?thesis using prefetch_refines [OF inv, of oob refused bs] by auto
  next
    case (PfDone i)
    then have "refines er (Some (pf_complete i c)) (bc_view er c)"
      using pf_complete_spec [OF I, of i] p keeps_sleeping(6) by (intro quiet [OF refl]) auto
    then show ?thesis using PfDone by simp
  next
    case (Resume k)
    then show ?thesis using run_task_refines [OF inv, of k] p by simp
  qed
qed

inductive bc_reach :: "('b \<Rightarrow> 'p) \<Rightarrow> (nat \<Rightarrow> 'b) \<Rightarrow> nat \<Rightarrow> 'b \<Rightarrow> 'b bufcache \<Rightarrow> (nat \<Rightarrow> 'p) \<Rightarrow> bool"
  for er :: "'b \<Rightarrow> 'p" and d np junk where
  start: "bc_reach er d np junk (bc_init d np junk) (\<lambda>b. er (d b))"
| step: "bc_reach er d np junk c v \<Longrightarrow> protocol er op c \<Longrightarrow> bc_exec op c = Some c' \<Longrightarrow>
    bc_reach er d np junk c' (spec_exec er op c v)"

lemma bc_init_inv: "bc_inv True er (bc_init d np junk) \<and> bc_view er (bc_init d np junk) = (\<lambda>b. er (d b))"
proof -
  have n: "ent (bc_init d np junk) ! i = entry_init" if "i < ne" for i using that by (simp add: bc_init_def)
  have p: "pending (bc_init d np junk) = []" by (simp add: bc_init_def pending_def slept_def)
  have inv: "bc_inv True er (bc_init d np junk)"
    unfolding bc_inv_def p using n by (auto simp: slot_ok_def entry_init_def) (auto simp: bc_init_def)
  moreover have "bc_view er (bc_init d np junk) b = er (d b)" for b
    using view_synced [OF inv p, of b] by (simp add: bc_init_def)
  ultimately show ?thesis by auto
qed

lemma bc_reach_view: "bc_reach er d np junk c v \<Longrightarrow> sys_inv er c \<and> bc_view er c = v"
proof (induction rule: bc_reach.induct)
  case start
  then show ?case using bc_init_inv [of er d np junk] by (simp add: sys_inv_def bc_init_def)
next
  case (step c v op c')
  then show ?case using bc_exec_refines [of er c op] by (auto simp: refines_def)
qed

text \<open>What is on the disk when a \<^verbatim>\<open>sync\<close> returns, at once or after it slept.\<close>

lemma sync_returns:
  assumes inv: "sys_inv er c" and p: "protocol er (Sync dv) c" and r: "bc_sync dv c = Some (Ret n, c')"
    and b: "\<forall>i \<in> set (slept c). bn (ent c ! i) \<noteq> b"
  shows "er (disk c' b) = bc_view er c b"
proof -
  have I: "bc_inv True er c" using inv by (simp add: sys_inv_def)
  have S: "sync_post er dv (dirty_list c) (c\<lparr>dirty_list := []\<rparr>) (Ret n) c'"
  proof (cases "dv \<le> 0")
    case True
    then show ?thesis using bc_sync_flush [OF I True] r by auto
  next
    case False
    then show ?thesis using bc_sync_drop [OF I, of dv] p r by auto
  qed
  have K: "bc_inv True er c'" "bc_view er c' = bc_view er c" "sleeping c' = sleeping c" "dirty_list c' = []" using sync_post_Ret [OF S] by simp_all
  have l: "slept c' = slept c" by (simp add: slept_def K(3))
  have "bn (ent c' ! i) \<noteq> b" if i: "i \<in> set (pending c')" for i
  proof -
    have s: "i \<in> set (slept c)" "i < ne" using i K(4) l inv_queues [OF K(1)] by (auto simp: pending_def qs_ok_def)
    then have "dv \<le> 0" using p by auto
    then show ?thesis using S s b by (auto simp: sync_post_def)
  qed
  then show ?thesis using view_written [OF K(1), of b] K(2) by simp
qed

lemma sync_wakes_returns:
  assumes inv: "sys_inv er c" and k: "k < length (sleeping c)" "sleeping c ! k = TSync dv L"
    and r: "sync_rest dv L (woken k c) = Some (Ret n, c')" and i: "i \<in> set L"
  shows "er (disk c' (bn (ent c ! i))) = bc_view er c (bn (ent c ! i))"
proof -
  note W = woken_inv [OF inv k(1)]
  let ?c = "woken k c"
  have dv: "dv \<le> 0" using W(3) k(2) by simp
  have A: "bc_inv True er (?c\<lparr>dirty_list := L @ dirty_list ?c\<rparr>)" using W(1) k(2) by simp
  have S: "sync_post er dv L ?c (Ret n) c'" using sync_rest_correct [OF A dv] r by auto
  note K = sync_post_Ret [OF S]
  have l: "pending c' = dirty_list c @ slept ?c" using K by (simp add: pending_def slept_def)
  have q: "qs_ok (L @ dirty_list c @ slept ?c)" using inv_queues [OF A] by simp
  have dirty: "estate (ent c ! j) = es_dirty" if "j \<in> set L \<or> j \<in> set (pending c')" for j
  proof -
    have "j < ne" using q l that by (auto simp: qs_ok_def)
    from slotD [OF A this] show ?thesis using that l by (auto simp: slot_ok_def split: estate.splits)
  qed
  have "bn (ent c' ! j) \<noteq> bn (ent c ! i)" if j: "j \<in> set (pending c')" for j
  proof -
    have "j < ne" "i < ne" "j \<noteq> i" using q l i j by (auto simp: qs_ok_def)
    then have "bn (ent c ! j) \<noteq> bn (ent c ! i)" using bn_unique [OF A, of j i] dirty [of i] dirty [of j] i j by auto
    then show ?thesis using S dv \<open>j < ne\<close> by (simp add: sync_post_def)
  qed
  then show ?thesis using view_written [of True er c' "bn (ent c ! i)"] K by simp
qed

text \<open>
  C22. The buffer cache is transparent. Take any state reached from an empty cache by calls that follow the
  rules of \<open>protocol\<close>, which may sleep in the middle of a write-back and go on later, with other calls and
  disk completions in between. The invariant holds (one slot per block, the eviction queue holds
  exactly the unreferenced clean blocks, every clean buffer agrees with the disk, every dirty block is
  on the dirty list or on the list of one sleeping write-back). What a reader sees is the initial
  disk with the stores applied in order. The only call that can fail an assertion is a prefetch for
  which the read outside the array gives true, and it does when there is an empty slot. A \<^verbatim>\<open>sync\<close> that
  returns at once leaves the current contents of every block on the disk, other than those a
  sleeping write-back still holds; one that returns after it slept, those of all blocks it held.
\<close>

theorem bufcache_transparent:
  assumes "bc_reach er d np junk c v"
  shows "bc_inv True er c \<and> bc_view er c = v \<and>
    (\<forall>op. protocol er op c \<and> bc_exec op c = None \<longrightarrow> (\<exists>refused bs. op = Prefetch True refused bs)) \<and>
    (\<forall>refused b bs. find_block b c = None \<and> find_empty c \<noteq> None \<longrightarrow> bc_exec (Prefetch True refused (b # bs)) c = None) \<and>
    (\<forall>dv c' b. protocol er (Sync dv) c \<and> bc_sync dv c = Some (Ret 0, c') \<and> (\<forall>i \<in> set (slept c). bn (ent c ! i) \<noteq> b) \<longrightarrow>
       er (disk c' b) = v b) \<and>
    (\<forall>k dv L c'. k < length (sleeping c) \<and> sleeping c ! k = TSync dv L \<and> sync_rest dv L (woken k c) = Some (Ret 0, c') \<longrightarrow>
       (\<forall>i \<in> set L. er (disk c' (bn (ent c ! i))) = v (bn (ent c ! i))))"
proof -
  have I: "sys_inv er c" "bc_view er c = v" using bc_reach_view [OF assms] by simp_all
  have "bc_inv True er c" using I(1) by (simp add: sys_inv_def)
  moreover have "\<exists>refused bs. op = Prefetch True refused bs" if "protocol er op c" "bc_exec op c = None" for op
    using bc_exec_refines [OF I(1) that(1)] that(2) by (auto simp: refines_def)
  moreover have "bc_exec (Prefetch True refused (b # bs)) c = None" if "find_block b c = None" "find_empty c \<noteq> None" for refused b bs
    using prefetch_oob_halts [OF that] by simp
  moreover have "er (disk c' b) = v b"
    if "protocol er (Sync dv) c" "bc_sync dv c = Some (Ret 0, c')" "\<forall>i \<in> set (slept c). bn (ent c ! i) \<noteq> b" for dv c' b
    using sync_returns [OF I(1) that] I(2) by simp
  moreover have "er (disk c' (bn (ent c ! i))) = v (bn (ent c ! i))"
    if "k < length (sleeping c)" "sleeping c ! k = TSync dv L" "sync_rest dv L (woken k c) = Some (Ret 0, c')" "i \<in> set L" for k dv L c' i
    using sync_wakes_returns [OF I(1) that] I(2) by simp
  ultimately show ?thesis using I(2) by blast
qed

text \<open>
  A history: block 5 is stored to while a \<^verbatim>\<open>sync\<close> that came meanwhile sleeps on it. The store is not on the
  disk yet when the writer leaves, and it is when the \<^verbatim>\<open>sync\<close> returns.
\<close>

definition entry5 :: "nat \<Rightarrow> estate \<Rightarrow> nat \<Rightarrow> nat bcentry" where
  "entry5 x e w = \<lparr>estate = e, bn = 5, ref = 1, wref = w, buf = Some x, pfstatus = E_AGAIN\<rparr>"

definition hist5 :: "nat \<Rightarrow> estate \<Rightarrow> nat \<Rightarrow> nat list \<Rightarrow> nat task list \<Rightarrow> nat bufcache" where
  "hist5 x e w dl sl = (bc_init (\<lambda>b. b * 7) 9 0)\<lparr>ent := entry5 x e w # replicate 31 entry_init, dirty_list := dl, pages := 8, sleeping := sl\<rparr>"

lemma hist5_init: "ent (bc_init d p j) = entry_init # replicate 31 entry_init"
  by (simp add: bc_init_def ne_def numeral_eq_Suc)

lemma upt_ne: "[0..<ne] = 0 # [Suc 0..<ne]"
  by (simp add: ne_def upt_rec)

lemma hist5_get: "get_disk_entry (\<lambda>i x. x) 5 (bc_init (\<lambda>b. b * 7) 9 (0 :: nat)) = Some (Ret (Some 0), hist5 35 es_clean 0 [] [])"
proof -
  have f: "find_block 5 (bc_init (\<lambda>b. b * 7) 9 (0 :: nat)) = None"
    by (auto simp: find_block_def find_None_iff be_empty_def bc_init_def entry_init_def)
  have e: "find_empty (bc_init (\<lambda>b. b * 7) 9 (0 :: nat)) = Some 0"
    by (simp add: find_empty_def upt_ne be_empty_def hist5_init entry_init_def)
  show ?thesis
    using f e by (subst get_disk_entry.simps)
      (simp add: gde_load_def gde_finish_def be_load_def be_empty_def hist5_init hist5_def entry5_def entry_init_def upd_def Let_def, simp add: bc_init_def)
qed

lemma hist5_steps:
  "bc_exec (Get (\<lambda>i x. x) 5) (bc_init (\<lambda>b. b * 7) 9 0) = Some (hist5 35 es_clean 0 [] [])"
  "bc_exec (GetWrite 0) (hist5 35 es_clean 0 [] []) = Some (hist5 35 es_dirty 1 [0] [])"
  "bc_exec (Modify 0 Suc) (hist5 35 es_dirty 1 [0] []) = Some (hist5 36 es_dirty 1 [0] [])"
  "bc_exec (Sync 0) (hist5 36 es_dirty 1 [0] []) = Some (hist5 36 es_dirty 1 [] [TSync 0 [0]])"
  "bc_exec (PutWrite 0) (hist5 36 es_dirty 1 [] [TSync 0 [0]]) = Some (hist5 36 es_dirty 0 [] [TSync 0 [0]])"
  by (simp_all add: hist5_get) (simp_all add: get_write_def put_write_def be_modify_def bc_sync_def sync_rest_def dlinked_def hist5_def entry5_def upd_def Let_def bc_init_def)

theorem bufcache_transparent_witness:
  "\<exists>c. bc_reach id (\<lambda>b. b * 7) 9 (0 :: nat) c ((\<lambda>b. b * 7)(5 := 36)) \<and> sleeping c = [TSync 0 [0]] \<and> disk c 5 = 35 \<and> bc_view id c 5 = 36 \<and>
     (\<exists>c'. sync_rest 0 [0] (woken 0 c) = Some (Ret 0, c') \<and> disk c' 5 = 36)"
proof -
  let ?R = "bc_reach id (\<lambda>b. b * 7) 9 (0 :: nat)" and ?v = "\<lambda>b. id (b * 7) :: nat"
  let ?c = "hist5 36 es_dirty 0 [] [TSync 0 [0]]"
  note E = hist5_def entry5_def ne_def waited_def slept_def
  have r1: "?R (hist5 35 es_clean 0 [] []) ?v" using bc_reach.step [OF bc_reach.start _ hist5_steps(1), of id] by simp
  have r2: "?R (hist5 35 es_dirty 1 [0] []) ?v" using bc_reach.step [OF r1 _ hist5_steps(2)] by (simp add: E bc_init_def)
  have r3: "?R (hist5 36 es_dirty 1 [0] []) (?v(5 := 36))" using bc_reach.step [OF r2 _ hist5_steps(3)] by (simp add: E)
  have r4: "?R (hist5 36 es_dirty 1 [] [TSync 0 [0]]) (?v(5 := 36))" using bc_reach.step [OF r3 _ hist5_steps(4)] by (simp add: E)
  have r5: "?R ?c (?v(5 := 36))" using bc_reach.step [OF r4 _ hist5_steps(5)] by (simp add: E)
  obtain c' where s: "sync_rest 0 [0] (woken 0 ?c) = Some (Ret 0, c')"
    by (simp add: sync_rest_def get_write_def put_write_def woken_def hist5_def entry5_def Let_def)
  have b: "sleeping ?c = [TSync 0 [0]]" "bn (ent ?c ! 0) = 5" "disk ?c 5 = 35" by (simp_all add: hist5_def entry5_def bc_init_def)
  note V = bufcache_transparent [OF r5, THEN conjunct2, THEN conjunct1]
  note T = bufcache_transparent [OF r5, THEN conjunct2, THEN conjunct2, THEN conjunct2, THEN conjunct2, THEN conjunct2]
  have "bc_view id ?c = ?v(5 := 36)" "\<forall>i \<in> set [0]. id (disk c' (bn (ent ?c ! i))) = (?v(5 := 36)) (bn (ent ?c ! i))"
    using V T [THEN spec [of _ 0], THEN spec [of _ 0], THEN spec [of _ "[0]"], THEN spec [of _ c']] s b(1) by simp_all
  then show ?thesis using r5 b s by (intro exI [of _ ?c]) (simp add: id_def)
qed

text \<open>
  C23. \<^verbatim>\<open>get_disk_entry\<close> always comes to an end or to a wait: the retry after a write-back happens at most once
  before that. The same holds for what is left of the call when it wakes up in its write-back with
  the local list \<open>L\<close>. In each case (\<open>gde_full\<close>) the state it leaves satisfies the invariant, with what
  the sleeping write-back holds counted as pending; no reader sees a difference; entries others hold
  keep their block, contents and writer. When it gives an entry, the entry holds the requested block
  with its current contents and has exactly one more reference. It gives none only when there is no
  memory, or every slot is referenced, is block 0, is a prefetch, or is being written back by
  another task. It sleeps only on a prefetch of the block that is not done, or in a write-back whose
  next entry has a writer. When it wakes up from the wait on a prefetch in slot \<open>i\<close> it gives this slot,
  which is right when the slot still holds the block.
\<close>

theorem get_disk_entry_correct:
  assumes "\<forall>i x. er (cleaner i x) = er x"
  shows "(bc_inv True er c \<longrightarrow> (\<exists>r c'. get_disk_entry cleaner b c = Some (r, c') \<and> gde_full er cleaner c b r c')) \<and>
    (bc_inv True er (c\<lparr>dirty_list := L @ dirty_list c\<rparr>) \<longrightarrow>
       (\<exists>r c'. gde_after_sync cleaner b L c = Some (r, c') \<and> gde_full er cleaner c b r c')) \<and>
    (bc_inv True er c \<and> i < ne \<and> estate (ent c ! i) \<noteq> es_empty \<and> bn (ent c ! i) = b \<longrightarrow>
       (\<exists>r c'. gde_after_wait cleaner b i c = Some (r, c') \<and>
         (if pfstatus (ent c ! i) = E_AGAIN then r = Asleep (TWait cleaner b i) \<and> c' = c
          else r = Ret (Some i) \<and> gde_full er cleaner c b r c')))"
proof (intro conjI impI)
  have cl: "\<And>i x. er (cleaner i x) = er x" using assms by simp
  show "\<exists>r c'. get_disk_entry cleaner b c = Some (r, c') \<and> gde_full er cleaner c b r c'" if "bc_inv True er c"
    by (rule get_disk_entry_spec [of er c cleaner b, OF that cl])
  show "\<exists>r c'. gde_after_sync cleaner b L c = Some (r, c') \<and> gde_full er cleaner c b r c'"
    if "bc_inv True er (c\<lparr>dirty_list := L @ dirty_list c\<rparr>)"
    by (rule gde_after_sync_spec [of er L c cleaner b, OF that cl])
  show "\<exists>r c'. gde_after_wait cleaner b i c = Some (r, c') \<and>
         (if pfstatus (ent c ! i) = E_AGAIN then r = Asleep (TWait cleaner b i) \<and> c' = c
          else r = Ret (Some i) \<and> gde_full er cleaner c b r c')"
    if "bc_inv True er c \<and> i < ne \<and> estate (ent c ! i) \<noteq> es_empty \<and> bn (ent c ! i) = b"
    using gde_after_wait_spec [of er c i b cleaner] that cl by blast
qed

theorem get_disk_entry_correct_witness:
  "get_disk_entry (\<lambda>i x. x) 5 (bc_init (\<lambda>b. b * 7) 9 (0 :: nat)) = Some (Ret (Some 0), hist5 35 es_clean 0 [] []) \<and>
   got id (bc_init (\<lambda>b. b * 7) 9 0) 5 0 (hist5 35 es_clean 0 [] []) \<and> bc_inv True id (hist5 35 es_clean 0 [] [])"
proof -
  let ?c = "bc_init (\<lambda>b. b * 7) 9 (0 :: nat)"
  have n: "\<forall>i x. id ((\<lambda>(i :: nat) x. x) i x) = id (x :: nat)" by simp
  obtain r c' where g: "get_disk_entry (\<lambda>i x. x) 5 ?c = Some (r, c')" "gde_full id (\<lambda>i x. x) ?c 5 r c'"
    using get_disk_entry_correct [of id "\<lambda>i x. x" ?c 5, OF n, THEN conjunct1] conjunct1 [OF bc_init_inv [of id "\<lambda>b. b * 7" 9 0]]
    by blast
  have "get_disk_entry (\<lambda>i x. x) 5 ?c = Some (Ret (Some 0), hist5 35 es_clean 0 [] [])" by (rule hist5_get)
  then show ?thesis using g by (auto simp: gde_full_def keeps_def)
qed

subsection \<open>What goes wrong without the rules\<close>

text \<open>
  After its wait \<^verbatim>\<open>get_disk_entry\<close> does not look at the block number of the slot: when the slot was evicted
  and loaded with another block in between, it gives the entry of the other block.
\<close>

lemma wait_wrong_block:
  assumes "i < length (ent c)" "estate (ent c ! i) = es_clean" "bn (ent c ! i) = b'" "b' \<noteq> b" "pfstatus (ent c ! i) \<noteq> E_AGAIN"
  shows "\<exists>c'. gde_after_wait cleaner b i c = Some (Ret (Some i), c') \<and> bn (ent c' ! i) = b'"
  using assms by (cases "i \<in> set (evictq c)") (simp_all add: gde_after_wait_def gde_claim_def gde_load_def gde_finish_def be_load_def be_empty_def)

text \<open>
  When a writer takes the entry before the sleeping \<^verbatim>\<open>sync\<close> does, the entry is on the dirty list again and
  then marked clean by the \<^verbatim>\<open>sync\<close>. The next writer finds it linked and does not mark it dirty, so that
  its store is on an entry that \<^verbatim>\<open>put\<close> makes evictable.
\<close>

lemma sync_race_clean_store:
  assumes "i < length (ent c)" "i \<in> set (dirty_list c)" "wref (ent c ! i) = 0" "buf (ent c ! i) = Some x" "ref (ent c ! i) = 1" "bn (ent c ! i) \<noteq> 0"
  shows "\<exists>c1 c2 c3. sync_loop 0 [i] c = Some ([], c1) \<and> get_write i True c1 = Some (Done c2) \<and>
     put_write i (be_modify i f c2) = Some c3 \<and> estate (ent c3 ! i) = es_clean \<and> disk c3 (bn (ent c3 ! i)) = x \<and> buf (ent c3 ! i) = Some (f x) \<and>
     (\<exists>c4. be_put i c3 = Some c4 \<and> i \<in> set (evictq c4))"
  using assms by (simp add: get_write_def put_write_def be_modify_def be_put_def dlinked_def Let_def)

text \<open>\<^verbatim>\<open>sync(drop)\<close> with \<^verbatim>\<open>drop > 0\<close> discards an unreferenced entry that became dirty while it slept.\<close>

lemma drop_discards_store:
  assumes "i < length (ent c)" "estate (ent c ! i) = es_dirty" "ref (ent c ! i) = 0" "i \<notin> set (evictq c)" "i \<notin> set (pfq c)"
  shows "\<exists>c'. drop_loop 1 [i] c = Some ([], c') \<and> estate (ent c' ! i) = es_empty \<and> disk c' = disk c"
  using assms by (simp add: be_clear_def)

end
