(* ===== verification/BitsetView.thy ===== *)
theory BitsetView
  imports Prelude
begin

unbundle bit_operations_syntax

text \<open>
  The rounding helpers and \<^verbatim>\<open>struct bitset_view\<close> of \<^verbatim>\<open>lib.hh\<close>, and the free block bitmap routines of
  \<^verbatim>\<open>chkfsstate\<close> in \<^verbatim>\<open>k-chkfs.cc\<close> that are built on them. A view is the list of its 64-bit words and
  its number of bits \<^verbatim>\<open>n_\<close>. Sizes are natural numbers below \<open>2 ^ 64\<close>; the subtraction \<^verbatim>\<open>n_ - i\<close> and
  the sum after it are reduced modulo \<open>2 ^ 64\<close> as \<^verbatim>\<open>size_t\<close> arithmetic is.
\<close>

subsection \<open>Rounding\<close>

definition msb :: "u64 \<Rightarrow> nat" where
  "msb x = (case find (bit x) (rev [0..<64]) of None \<Rightarrow> 0 | Some i \<Rightarrow> Suc i)"

definition lsb :: "u64 \<Rightarrow> nat" where
  "lsb x = (case find (bit x) [0..<64] of None \<Rightarrow> 0 | Some i \<Rightarrow> Suc i)"

definition round_down :: "u64 \<Rightarrow> u64 \<Rightarrow> u64" where
  "round_down x m = x - (x mod m)"

definition round_up :: "u64 \<Rightarrow> u64 \<Rightarrow> u64" where
  "round_up x m = round_down (x + m - 1) m"

definition round_down_pow2 :: "u64 \<Rightarrow> u64" where
  "round_down_pow2 x = (if x \<noteq> 0 then push_bit (msb x - 1) 1 else 0)"

definition round_up_pow2 :: "u64 \<Rightarrow> u64" where
  "round_up_pow2 x = (if x \<noteq> 0 then push_bit (msb (x - 1)) 1 else 0)"

subsection \<open>Bits of a view\<close>

record bitset_view =
  bs_v :: "u64 list"
  bs_n :: nat

definition bit_mask :: "nat \<Rightarrow> u64" where
  "bit_mask i = push_bit (i mod 64) 1"

text \<open>\<^verbatim>\<open>operator[]\<close> read as a \<^verbatim>\<open>bool\<close>, and assigned through the \<^verbatim>\<open>bit\<close> proxy.\<close>

definition bs_get :: "bitset_view \<Rightarrow> nat \<Rightarrow> bool option" where
  "bs_get s i = check (i < bs_n s) (Some (bs_v s ! (i div 64) AND bit_mask i \<noteq> 0))"

definition bs_update :: "(u64 \<Rightarrow> u64) \<Rightarrow> bitset_view \<Rightarrow> nat \<Rightarrow> bitset_view option" where
  "bs_update f s i = check (i < bs_n s) (Some (s\<lparr>bs_v := (bs_v s)[i div 64 := f (bs_v s ! (i div 64))]\<rparr>))"

definition bs_assign :: "bitset_view \<Rightarrow> nat \<Rightarrow> bool \<Rightarrow> bitset_view option" where
  "bs_assign s i x = bs_update (\<lambda>v. if x then v OR bit_mask i else v AND NOT (bit_mask i)) s i"

definition bs_or :: "bitset_view \<Rightarrow> nat \<Rightarrow> bool \<Rightarrow> bitset_view option" where
  "bs_or s i x = bs_update (\<lambda>v. if x then v OR bit_mask i else v) s i"

definition bs_and :: "bitset_view \<Rightarrow> nat \<Rightarrow> bool \<Rightarrow> bitset_view option" where
  "bs_and s i x = bs_update (\<lambda>v. if \<not> x then v AND NOT (bit_mask i) else v) s i"

definition bs_xor :: "bitset_view \<Rightarrow> nat \<Rightarrow> bool \<Rightarrow> bitset_view option" where
  "bs_xor s i x = bs_update (\<lambda>v. if x then v XOR bit_mask i else v) s i"

text \<open>
  The search loop shared by \<^verbatim>\<open>find_lsb\<close> (with \<open>f\<close> the identity) and \<^verbatim>\<open>find_lsz\<close> (with \<open>f\<close> the
  complement): the word index at which it stops and the one-based bit found there, 0 for none.
\<close>

function bs_scan :: "(u64 \<Rightarrow> u64) \<Rightarrow> u64 list \<Rightarrow> nat \<Rightarrow> nat \<Rightarrow> u64 \<Rightarrow> nat \<times> nat" where
  "bs_scan f v n i msk =
     (if i < n then
        (let b = lsb (f (v ! (i div 64)) AND msk) in if b = 0 then bs_scan f v n (i + 64) (- 1) else (i, b))
      else (i, 0))"
  by pat_completeness auto

termination
  by (relation "measure (\<lambda>(f, v, n, i, m). n - i)") auto

declare bs_scan.simps [simp del]

definition bs_find :: "(u64 \<Rightarrow> u64) \<Rightarrow> bitset_view \<Rightarrow> nat \<Rightarrow> nat \<Rightarrow> nat" where
  "bs_find f s i n =
     (let off = i mod 64;
          msk = NOT (if off \<noteq> 0 then push_bit off 1 - 1 else 0);
          n' = (min ((bs_n s + 2 ^ 64 - i) mod 2 ^ 64) n + i) mod 2 ^ 64;
          (i', b) = bs_scan f (bs_v s) n' (i - off) msk
      in if b \<noteq> 0 then min n' (i' + b - 1) else n')"

definition find_lsb :: "bitset_view \<Rightarrow> nat \<Rightarrow> nat \<Rightarrow> nat" where
  "find_lsb s i n = bs_find (\<lambda>x. x) s i n"

definition find_lsz :: "bitset_view \<Rightarrow> nat \<Rightarrow> nat \<Rightarrow> nat" where
  "find_lsz s i n = bs_find (\<lambda>x. NOT x) s i n"

subsection \<open>The free block bitmap\<close>

definition bitsperblock :: nat where [kconst]: "bitsperblock = 4096 * 8"

definition fbb_view :: "u64 list \<Rightarrow> bitset_view" where
  "fbb_view fbb = \<lparr>bs_v = fbb, bs_n = bitsperblock\<rparr>"

definition block_is_free :: "u64 list \<Rightarrow> nat \<Rightarrow> bool option" where
  "block_is_free fbb bn = bs_get (fbb_view fbb) bn"

definition mark_block_free :: "u64 list \<Rightarrow> nat \<Rightarrow> u64 list option" where
  "mark_block_free fbb bn = map_option bs_v (bs_assign (fbb_view fbb) bn True)"

definition mark_block_taken :: "u64 list \<Rightarrow> nat \<Rightarrow> u64 list option" where
  "mark_block_taken fbb bn = map_option bs_v (bs_assign (fbb_view fbb) bn False)"

text \<open>
  The search for \<open>count\<close> adjacent free blocks; the result \<open>2 ^ 32 - 1\<close> is \<^verbatim>\<open>blocknum_t(-1)\<close>.
\<close>

partial_function (option) find_free_range :: "u64 list \<Rightarrow> nat \<Rightarrow> nat \<Rightarrow> nat option" where
  "find_free_range fbb count last_searched =
     (let next_available_block = find_lsb (fbb_view fbb) last_searched (2 ^ 64 - 1)
      in if next_available_block = 2 ^ 64 - 1 \<or> next_available_block = 2 ^ 15 then Some (2 ^ 32 - 1)
         else
           (if block_is_free fbb next_available_block = Some True then
             (let last_searched' = find_lsz (fbb_view fbb) next_available_block count
              in if last_searched' > next_available_block then
                   (if last_searched' - next_available_block = count then Some next_available_block
                    else find_free_range fbb count last_searched')
                 else None)
            else None))"

text \<open>
  The marking loops of \<^verbatim>\<open>free_extent\<close> and \<^verbatim>\<open>allocate_extent\<close>, with the assertion after each bit.
  The block number is a 32-bit integer.
\<close>

fun free_marks :: "u64 list \<Rightarrow> nat \<Rightarrow> nat \<Rightarrow> u64 list option" where
  "free_marks fbb bn 0 = Some fbb"
| "free_marks fbb bn (Suc k) =
     (case mark_block_free fbb bn of
        None \<Rightarrow> None
      | Some fbb' \<Rightarrow>
          check (block_is_free fbb' bn = Some True) (free_marks fbb' ((bn + 1) mod 2 ^ 32) k))"

fun take_marks :: "u64 list \<Rightarrow> nat \<Rightarrow> nat \<Rightarrow> u64 list option" where
  "take_marks fbb bn 0 = Some fbb"
| "take_marks fbb bn (Suc k) =
     (case mark_block_taken fbb bn of
        None \<Rightarrow> None
      | Some fbb' \<Rightarrow>
          check (block_is_free fbb' bn = Some False) (take_marks fbb' ((bn + 1) mod 2 ^ 32) k))"

subsection \<open>Bits as a predicate\<close>

text \<open>The abstract view: bit \<open>k\<close> of the whole array.\<close>

definition bs_bit :: "u64 list \<Rightarrow> nat \<Rightarrow> bool" where
  "bs_bit v k = bit (v ! (k div 64)) (k mod 64)"

lemma bit_bit_mask: "n < 64 \<Longrightarrow> bit (bit_mask i) n \<longleftrightarrow> n = i mod 64"
  by (auto simp: bit_mask_def bit_exp_iff)

lemma bit_mask_nonzero: "w AND bit_mask i \<noteq> 0 \<longleftrightarrow> bit w (i mod 64)"
proof
  assume "w AND bit_mask i \<noteq> 0"
  then obtain n where "bit (w AND bit_mask i) n" by (auto simp: bit_eq_iff)
  then have "n < 64" "bit w n" "bit (bit_mask i) n" using bit_imp_le_length [of w n] by (auto simp: bit_and_iff)
  then show "bit w (i mod 64)" by (simp add: bit_bit_mask)
next
  assume "bit w (i mod 64)"
  then have "bit (w AND bit_mask i) (i mod 64)" by (simp add: bit_and_iff bit_bit_mask)
  then show "w AND bit_mask i \<noteq> 0" by auto
qed

lemma bs_get_bit: "i < bs_n s \<Longrightarrow> bs_get s i = Some (bs_bit (bs_v s) i)"
  by (simp add: bs_get_def bs_bit_def bit_mask_nonzero)

text \<open>What a one-bit update of one word does to the array.\<close>

lemma bs_bit_update:
  assumes "i div 64 < length v" and f: "\<And>w n. n < 64 \<Longrightarrow> bit (f w) n = (if n = i mod 64 then g (bit w n) else bit w n)"
  shows "bs_bit (v[i div 64 := f (v ! (i div 64))]) k = (if k = i then g (bs_bit v k) else bs_bit v k)"
proof (cases "k div 64 = i div 64")
  case True
  then have "k mod 64 = i mod 64 \<longleftrightarrow> k = i" by (metis div_mult_mod_eq)
  then show ?thesis using True assms by (simp add: bs_bit_def)
next
  case False
  then show ?thesis by (auto simp: bs_bit_def)
qed

lemma bs_assign_correct:
  assumes "bs_n s \<le> 64 * length (bs_v s)" and "i < bs_n s"
  shows "\<exists>v. bs_assign s i x = Some (s\<lparr>bs_v := v\<rparr>) \<and> length v = length (bs_v s) \<and>
     (\<forall>k. bs_bit v k = (if k = i then x else bs_bit (bs_v s) k))"
proof -
  have l: "i div 64 < length (bs_v s)" using assms by (simp add: less_mult_imp_div_less mult.commute)
  show ?thesis using assms(2) bs_bit_update [OF l, where g = "\<lambda>_. x" and f = "\<lambda>v. if x then v OR bit_mask i else v AND NOT (bit_mask i)"]
    by (auto simp: bs_assign_def bs_update_def bit_or_iff bit_and_iff bit_not_iff bit_bit_mask)
qed

lemma find_upt_Some: "find P [0..<b] = Some i \<longleftrightarrow> i < b \<and> P i \<and> (\<forall>k < i. \<not> P k)"
  unfolding find_Some_iff by auto

lemma lsb_zero: "lsb x = 0 \<longleftrightarrow> x = 0"
proof -
  have "x = 0 \<longleftrightarrow> find (bit x) [0..<64] = None" by (auto simp: find_None_iff bit_eq_iff)
  then show ?thesis by (cases "find (bit x) [0..<64]") (simp_all add: lsb_def)
qed

lemma lsb_pos: "lsb x \<noteq> 0 \<Longrightarrow> lsb x \<le> 64 \<and> bit x (lsb x - 1) \<and> (\<forall>k < lsb x - 1. \<not> bit x k)"
proof (cases "find (bit x) [0..<64]")
  case (Some i)
  then have "i < 64 \<and> bit x i \<and> (\<forall>k < i. \<not> bit x k)" unfolding find_upt_Some .
  moreover have "lsb x = Suc i" by (simp add: lsb_def Some)
  ultimately show ?thesis by simp
qed (simp add: lsb_def)

lemma aligned_word:
  assumes "i mod 64 = 0" "i \<le> k" "k < i + 64"
  shows "k div 64 = i div 64 \<and> k mod 64 = k - (i :: nat)"
proof -
  obtain q where q: "i = 64 * q" using assms(1) by (auto simp: mod_eq_0_iff_dvd elim: dvdE)
  obtain j where "k = i + j" using assms(2) by (auto simp: le_iff_add)
  then show ?thesis using assms(3) q by simp
qed

text \<open>The search loop finds the first bit at or after \<open>start\<close>.\<close>

lemma bs_scan_correct:
  assumes "i mod 64 = 0" and "start < i + 64" and "\<forall>k < 64. bit msk k \<longleftrightarrow> start \<le> i + k"
    and "\<forall>k. start \<le> k \<and> k < i \<longrightarrow> \<not> bit (f (v ! (k div 64))) (k mod 64)"
    and "bs_scan f v n i msk = (i', b)"
  shows "(b = 0 \<longrightarrow> n \<le> i' \<and> (\<forall>k. start \<le> k \<and> k < i' \<longrightarrow> \<not> bit (f (v ! (k div 64))) (k mod 64))) \<and>
     (b \<noteq> 0 \<longrightarrow> start \<le> i' + b - 1 \<and> bit (f (v ! ((i' + b - 1) div 64))) ((i' + b - 1) mod 64) \<and>
        (\<forall>k. start \<le> k \<and> k < i' + b - 1 \<longrightarrow> \<not> bit (f (v ! (k div 64))) (k mod 64)))"
  using assms
proof (induction f v n i msk rule: bs_scan.induct)
  case (1 f v n i msk)
  let ?w = "f (v ! (i div 64)) AND msk"
  have word: "k div 64 = i div 64 \<and> k mod 64 = k - i" if "i \<le> k" "k < i + 64" for k
    using aligned_word [OF 1(2) that] .
  show ?case
  proof (cases "i < n")
    case False
    then show ?thesis using 1(5,6) by (simp add: bs_scan.simps [of f v n i])
  next
    case True
    show ?thesis
    proof (cases "lsb ?w = 0")
      case z: True
      have w: "\<not> bit ?w k" for k using z by (simp add: lsb_zero)
      have "\<not> bit (f (v ! (k div 64))) (k mod 64)" if "start \<le> k" "k < i + 64" for k
      proof (cases "k < i")
        case True
        then show ?thesis using 1(5) that by simp
      next
        case False
        then show ?thesis using w [of "k - i"] word [of k] 1(4) that by (auto simp: bit_and_iff)
      qed
      moreover have "bs_scan f v n (i + 64) (- 1) = (i', b)" using 1(6) True z by (simp add: bs_scan.simps [of f v n i])
      moreover have "(i + 64) mod 64 = 0" using 1(2) by simp
      ultimately show ?thesis using 1(1) [OF True refl z] 1(3) by simp
    next
      case nz: False
      then have "bs_scan f v n i msk = (i, lsb ?w)" using True by (simp add: bs_scan.simps [of f v n i] Let_def)
      with 1(6) have e: "i' = i" "b = lsb ?w" by auto
      have l: "b \<le> 64" "bit ?w (b - 1)" "\<And>k. k < b - 1 \<Longrightarrow> \<not> bit ?w k" using lsb_pos [OF nz] e by simp_all
      have b: "b \<noteq> 0" using nz e by simp
      have m: "start \<le> i + (b - 1)" using l(2) 1(4) b l(1) by (auto simp: bit_and_iff)
      have "\<not> bit (f (v ! (k div 64))) (k mod 64)" if "start \<le> k" "k < i + (b - 1)" for k
      proof (cases "k < i")
        case True
        then show ?thesis using 1(5) that by simp
      next
        case False
        then show ?thesis using l(1) l(3) [of "k - i"] word [of k] 1(4) that by (auto simp: bit_and_iff)
      qed
      moreover have "bit (f (v ! ((i + (b - 1)) div 64))) ((i + (b - 1)) mod 64)"
        using word [of "i + (b - 1)"] l(1,2) b by (simp add: bit_and_iff)
      moreover have "i' + b - 1 = i + (b - 1)" using e b by simp
      ultimately show ?thesis using m b by simp
    qed
  qed
qed

lemma bs_find_correct:
  assumes "i \<le> bs_n s" "bs_n s < 2 ^ 64" and lim: "lim = min (bs_n s) (i + n)"
  shows "i \<le> bs_find f s i n \<and> bs_find f s i n \<le> lim \<and>
     (\<forall>k. i \<le> k \<and> k < bs_find f s i n \<longrightarrow> \<not> bit (f (bs_v s ! (k div 64))) (k mod 64)) \<and>
     (bs_find f s i n < lim \<longrightarrow>
        bit (f (bs_v s ! (bs_find f s i n div 64))) (bs_find f s i n mod 64))"
proof -
  let ?msk = "NOT (if i mod 64 \<noteq> 0 then push_bit (i mod 64) 1 - 1 else 0) :: u64"
  have "(bs_n s + 2 ^ 64 - i) mod 2 ^ 64 = bs_n s - i" using assms by (simp add: mod_if)
  then have n': "(min ((bs_n s + 2 ^ 64 - i) mod 2 ^ 64) n + i) mod 2 ^ 64 = lim"
    using assms by (auto simp: min_def)
  have msk: "\<forall>k < 64. bit ?msk k \<longleftrightarrow> i \<le> i - i mod 64 + k"
  proof (intro allI impI)
    fix k :: nat assume k: "k < 64"
    have "(push_bit (i mod 64) 1 - 1 :: u64) = mask (i mod 64)" by (simp add: mask_eq_exp_minus_1)
    then have "bit ?msk k \<longleftrightarrow> i mod 64 \<le> k" using k by (auto simp: bit_not_iff bit_mask_iff)
    then show "bit ?msk k \<longleftrightarrow> i \<le> i - i mod 64 + k" using mod_less_eq_dividend [of i 64] by linarith
  qed
  obtain i' b where r: "bs_scan f (bs_v s) lim (i - i mod 64) ?msk = (i', b)" by (cases "bs_scan f (bs_v s) lim (i - i mod 64) ?msk")
  have f: "bs_find f s i n = (if b \<noteq> 0 then min lim (i' + b - 1) else lim)"
    unfolding bs_find_def Let_def n' r by simp
  have "(i - i mod 64) mod 64 = 0" by (simp add: minus_mod_eq_mult_div)
  moreover have "i mod 64 \<le> i" "i mod 64 < 64" by simp_all
  then have "i < i - i mod 64 + 64" by linarith
  ultimately have S: "(b = 0 \<longrightarrow> lim \<le> i' \<and> (\<forall>k. i \<le> k \<and> k < i' \<longrightarrow> \<not> bit (f (bs_v s ! (k div 64))) (k mod 64))) \<and>
     (b \<noteq> 0 \<longrightarrow> i \<le> i' + b - 1 \<and> bit (f (bs_v s ! ((i' + b - 1) div 64))) ((i' + b - 1) mod 64) \<and>
        (\<forall>k. i \<le> k \<and> k < i' + b - 1 \<longrightarrow> \<not> bit (f (bs_v s ! (k div 64))) (k mod 64)))"
    by (intro bs_scan_correct [OF _ _ msk _ r]) auto
  have "i \<le> lim" using assms by simp
  then show ?thesis using S unfolding f by (cases "b = 0") (auto simp: min_def)
qed

lemmas find_lsb_correct = bs_find_correct [where f = "\<lambda>x. x", folded find_lsb_def]
lemmas find_lsz_correct = bs_find_correct [where f = "\<lambda>x. NOT x", folded find_lsz_def]

subsection \<open>Searching and marking the free block bitmap\<close>

definition free_run :: "u64 list \<Rightarrow> nat \<Rightarrow> nat \<Rightarrow> bool" where
  "free_run fbb count x \<longleftrightarrow> x + count \<le> bitsperblock \<and> (\<forall>k. x \<le> k \<and> k < x + count \<longrightarrow> bs_bit fbb k)"

lemma fbb_view_simps [simp]: "bs_v (fbb_view fbb) = fbb" "bs_n (fbb_view fbb) = 2 ^ 15"
  by (simp_all add: fbb_view_def bitsperblock_def)

lemma block_is_free_bit: "bn < 2 ^ 15 \<Longrightarrow> block_is_free fbb bn = Some (bs_bit fbb bn)"
  by (simp add: block_is_free_def bs_get_bit)

lemma next_free:
  assumes "start \<le> 2 ^ 15" and "nx = find_lsb (fbb_view fbb) start (2 ^ 64 - 1)"
  shows "start \<le> nx \<and> nx \<le> 2 ^ 15 \<and> (\<forall>k. start \<le> k \<and> k < nx \<longrightarrow> \<not> bs_bit fbb k) \<and> (nx < 2 ^ 15 \<longrightarrow> bs_bit fbb nx)"
proof -
  have "(2 :: nat) ^ 15 = min (bs_n (fbb_view fbb)) (start + (2 ^ 64 - 1))" by (simp add: min_def)
  from find_lsb_correct [OF _ _ this] assms show ?thesis by (simp add: bs_bit_def)
qed

lemma next_taken:
  assumes "nx < 2 ^ 15" "bs_bit fbb nx" "0 < count" and "ls = find_lsz (fbb_view fbb) nx count"
  shows "nx < ls \<and> ls \<le> 2 ^ 15 \<and> ls \<le> nx + count \<and> (\<forall>k. nx \<le> k \<and> k < ls \<longrightarrow> bs_bit fbb k) \<and>
     (ls < 2 ^ 15 \<and> ls < nx + count \<longrightarrow> \<not> bs_bit fbb ls)"
proof -
  have inv: "bit (NOT w) (k mod 64) \<longleftrightarrow> \<not> bit w (k mod 64)" for w :: u64 and k by (simp add: bit_not_iff)
  have l: "min (2 ^ 15) (nx + count) = min (bs_n (fbb_view fbb)) (nx + count)" by simp
  have S: "nx \<le> ls \<and> ls \<le> min (2 ^ 15) (nx + count) \<and> (\<forall>k. nx \<le> k \<and> k < ls \<longrightarrow> bs_bit fbb k) \<and>
     (ls < min (2 ^ 15) (nx + count) \<longrightarrow> \<not> bs_bit fbb ls)"
    using find_lsz_correct [OF _ _ l] assms(1,4) by (simp add: bs_bit_def inv)
  moreover have "nx \<noteq> ls" using S assms(1-3) by auto
  ultimately show ?thesis by auto
qed

lemma find_free_range_correct:
  assumes "0 < count" "start \<le> 2 ^ 15"
  shows "\<exists>r. find_free_range fbb count start = Some r \<and>
     (if r = 2 ^ 32 - 1 then \<forall>x \<ge> start. \<not> free_run fbb count x
      else start \<le> r \<and> free_run fbb count r \<and> (\<forall>x. start \<le> x \<and> x < r \<longrightarrow> \<not> free_run fbb count x))"
  using assms(2)
proof (induction "2 ^ 15 - start" arbitrary: start rule: less_induct)
  case less
  define nx where "nx = find_lsb (fbb_view fbb) start (2 ^ 64 - 1)"
  define ls where "ls = find_lsz (fbb_view fbb) nx count"
  have unf: "find_free_range fbb count start =
     (if nx = 2 ^ 64 - 1 \<or> nx = 2 ^ 15 then Some (2 ^ 32 - 1)
      else if block_is_free fbb nx = Some True then
        (if ls > nx then (if ls - nx = count then Some nx else find_free_range fbb count ls) else None)
      else None)"
    unfolding nx_def ls_def by (subst find_free_range.simps) (simp only: Let_def)
  note N = next_free [OF less.prems nx_def]
  show ?case
  proof (cases "nx = 2 ^ 15")
    case True
    have "\<not> free_run fbb count x" if "start \<le> x" for x
    proof
      assume "free_run fbb count x"
      then have "x + count \<le> 2 ^ 15" "bs_bit fbb x" using assms(1) by (auto simp: free_run_def bitsperblock_def)
      moreover have "x < nx" using True \<open>x + count \<le> 2 ^ 15\<close> assms(1) by simp
      ultimately show False using N that by blast
    qed
    then show ?thesis using True unf by simp
  next
    case False
    have n: "nx < 2 ^ 15" "bs_bit fbb nx" using N False by auto
    note L = next_taken [OF n assms(1) ls_def]
    have b: "block_is_free fbb nx = Some True" using n by (simp add: block_is_free_bit)
    have nm: "nx \<noteq> 2 ^ 64 - 1" using n by simp
    have step: "find_free_range fbb count start = (if ls - nx = count then Some nx else find_free_range fbb count ls)"
      using b nm False L unf by simp
    have early: "\<not> free_run fbb count x" if "start \<le> x" "x < nx" for x
      using N that assms(1) by (auto simp: free_run_def)
    show ?thesis
    proof (cases "ls - nx = count")
      case True
      moreover have "nx < ls" using L by (rule conjunct1)
      ultimately have "ls = nx + count" by simp
      then have "free_run fbb count nx" using L by (simp add: free_run_def bitsperblock_def)
      then show ?thesis using step True N early n(1) by simp
    next
      case False
      have none: "\<not> free_run fbb count x" if "start \<le> x" "x < ls" for x
      proof (cases "x < nx")
        case True
        then show ?thesis using early that by simp
      next
        case nlt: False
        have "ls < nx + count" using L False by linarith
        then have "ls < x + count" using nlt by simp
        then show ?thesis using L that \<open>ls < nx + count\<close> by (auto simp: free_run_def bitsperblock_def)
      qed
      have "2 ^ 15 - ls < 2 ^ 15 - start" using L N n by linarith
      from less.hyps [OF this] L obtain r where r: "find_free_range fbb count ls = Some r"
        "if r = 2 ^ 32 - 1 then \<forall>x \<ge> ls. \<not> free_run fbb count x
         else ls \<le> r \<and> free_run fbb count r \<and> (\<forall>x. ls \<le> x \<and> x < r \<longrightarrow> \<not> free_run fbb count x)" by auto
      have sl: "start \<le> ls" using N L by simp
      have e: "find_free_range fbb count start = Some r" using step False r(1) by simp
      show ?thesis
      proof (cases "r = 2 ^ 32 - 1")
        case True
        then have "\<not> free_run fbb count x" if "start \<le> x" for x using r(2) none [OF that] by (cases "x < ls") auto
        then show ?thesis using e True by auto
      next
        case False
        then have R: "ls \<le> r" "free_run fbb count r" "\<And>x. ls \<le> x \<Longrightarrow> x < r \<Longrightarrow> \<not> free_run fbb count x" using r(2) by auto
        have "\<not> free_run fbb count x" if "start \<le> x" "x < r" for x using R(3) that none [OF that(1)] by (cases "x < ls") auto
        then show ?thesis using e False R sl by auto
      qed
    qed
  qed
qed

lemma marks_correct:
  assumes "length fbb = 512" "bn + count \<le> 2 ^ 15"
  shows "\<exists>v. free_marks fbb bn count = Some v \<and> length v = 512 \<and> (\<forall>k. bs_bit v k = (if bn \<le> k \<and> k < bn + count then True else bs_bit fbb k))"
    and "\<exists>v. take_marks fbb bn count = Some v \<and> length v = 512 \<and> (\<forall>k. bs_bit v k = (if bn \<le> k \<and> k < bn + count then False else bs_bit fbb k))"
  using assms
proof (induction count arbitrary: fbb bn)
  case (Suc c)
  {
    case 1
    have w: "(bn + 1) mod 2 ^ 32 = bn + 1" using 1 by simp
    obtain v where v: "bs_assign (fbb_view fbb) bn True = Some ((fbb_view fbb)\<lparr>bs_v := v\<rparr>)" "length v = 512"
      "\<forall>k. bs_bit v k = (if k = bn then True else bs_bit fbb k)"
      using bs_assign_correct [of "fbb_view fbb" bn True] 1 by auto
    then have "mark_block_free fbb bn = Some v" by (simp add: mark_block_free_def)
    moreover have "block_is_free v bn = Some True" using 1 v(3) by (simp add: block_is_free_bit)
    ultimately have "free_marks fbb bn (Suc c) = free_marks v (bn + 1) c" using w by simp
    then show ?case using Suc.IH(1) [of v "bn + 1"] 1 v by (auto simp: le_Suc_eq) 
  next
    case 2
    have w: "(bn + 1) mod 2 ^ 32 = bn + 1" using 2 by simp
    obtain v where v: "bs_assign (fbb_view fbb) bn False = Some ((fbb_view fbb)\<lparr>bs_v := v\<rparr>)" "length v = 512"
      "\<forall>k. bs_bit v k = (if k = bn then False else bs_bit fbb k)"
      using bs_assign_correct [of "fbb_view fbb" bn False] 2 by auto
    then have "mark_block_taken fbb bn = Some v" by (simp add: mark_block_taken_def)
    moreover have "block_is_free v bn = Some False" using 2 v(3) by (simp add: block_is_free_bit)
    ultimately have "take_marks fbb bn (Suc c) = take_marks v (bn + 1) c" using w by simp
    then show ?case using Suc.IH(2) [of v "bn + 1"] 2 v by (auto simp: le_Suc_eq)
  }
qed auto

subsection \<open>Rounding to powers of two\<close>

lemma find_downto_Some: "find P (rev [0..<n]) = Some i \<longleftrightarrow> i < n \<and> P i \<and> (\<forall>k. i < k \<and> k < n \<longrightarrow> \<not> P k)"
proof (induction n)
  case (Suc n)
  have "rev [0..<Suc n] = n # rev [0..<n]" by simp
  then show ?case using Suc by (auto simp: less_Suc_eq)
qed simp

lemma msb_zero: "msb x = 0 \<longleftrightarrow> x = 0"
proof -
  have "x = 0 \<longleftrightarrow> find (bit x) (rev [0..<64]) = None" by (auto simp: find_None_iff bit_eq_iff)
  then show ?thesis by (cases "find (bit x) (rev [0..<64])") (simp_all add: msb_def)
qed

lemma msb_bounds:
  assumes "x \<noteq> 0"
  shows "0 < msb x \<and> msb x \<le> 64 \<and> 2 ^ (msb x - 1) \<le> unat x \<and> unat x < 2 ^ msb x"
proof -
  obtain i where i: "find (bit x) (rev [0..<64]) = Some i"
    using msb_zero [of x] assms by (cases "find (bit x) (rev [0..<64])") (auto simp: msb_def)
  then have b: "i < 64" "bit x i" "\<And>k. i < k \<Longrightarrow> k < 64 \<Longrightarrow> \<not> bit x k" unfolding find_downto_Some by auto
  have m: "msb x = Suc i" using i by (simp add: msb_def)
  have "take_bit (Suc i) x = x"
  proof (rule bit_word_eqI)
    fix n assume "n < LENGTH(64)"
    then show "bit (take_bit (Suc i) x) n = bit x n" using b(3) [of n] by (cases "i < n") (auto simp: bit_take_bit_iff not_less)
  qed
  then have "unat x = take_bit (Suc i) (unat x)" by (metis unsigned_take_bit_eq)
  then have u: "unat x < 2 ^ Suc i" by (metis take_bit_nat_less_exp)
  have "bit (unat x) i" using b(2) by (simp add: bit_unsigned_iff)
  then have "2 ^ i \<le> unat x" by (metis bit_iff_odd div_less even_zero not_le)
  then show ?thesis using u m b(1) by simp
qed

lemma unat_pow2: "n < 64 \<Longrightarrow> unat (push_bit n 1 :: u64) = 2 ^ n"
proof -
  assume "n < 64"
  then have "(2 :: nat) ^ n < 2 ^ 64" by (intro power_strict_increasing) simp_all
  then have t: "take_bit 64 ((2 :: nat) ^ n) = 2 ^ n" by (simp only: take_bit_nat_eq_self)
  have "(push_bit n 1 :: u64) = of_nat (2 ^ n)" by simp
  then show ?thesis using t by (simp only: unsigned_of_nat) simp
qed

lemma round_down_pow2_spec: "x \<noteq> 0 \<Longrightarrow> \<exists>n. unat (round_down_pow2 x) = 2 ^ n \<and> 2 ^ n \<le> unat x \<and> unat x < 2 ^ Suc n"
proof -
  assume x: "x \<noteq> 0"
  note B = msb_bounds [OF x]
  have "msb x - 1 < 64" using B by linarith
  then have "unat (round_down_pow2 x) = 2 ^ (msb x - 1)" using x unat_pow2 by (simp add: round_down_pow2_def del: push_bit_of_1)
  moreover have "Suc (msb x - 1) = msb x" using B by simp
  ultimately show ?thesis using B by (intro exI [of _ "msb x - 1"]) (simp only:)
qed

lemma round_up_pow2_spec:
  assumes "x \<noteq> 0" "unat x \<le> 2 ^ 63"
  shows "\<exists>n. unat (round_up_pow2 x) = 2 ^ n \<and> unat x \<le> 2 ^ n \<and> 2 ^ n < 2 * unat x"
proof -
  have u: "unat (x - 1) = unat x - 1" using unat_minus_one [OF assms(1)] .
  have p: "0 < unat x" using assms(1) by (simp add: unat_gt_0)
  show ?thesis
  proof (cases "x = 1")
    case True
    then show ?thesis by (intro exI [of _ 0]) (simp add: round_up_pow2_def msb_zero [THEN iffD2])
  next
    case False
    then have n: "x - 1 \<noteq> 0" by simp
    let ?m = "msb (x - 1)"
    note B = msb_bounds [OF n]
    have "(2 :: nat) ^ (?m - 1) < 2 ^ 63" using B u assms(2) p by linarith
    then have "?m - 1 < 63" by (rule power_less_imp_less_exp [rotated]) simp
    then have r: "unat (round_up_pow2 x) = 2 ^ ?m" using unat_pow2 [of ?m] B assms(1) by (simp add: round_up_pow2_def del: push_bit_of_1)
    have d: "(2 :: nat) ^ ?m = 2 * 2 ^ (?m - 1)" using B by (cases ?m) simp_all
    have "unat x \<le> 2 ^ ?m" "2 ^ ?m < 2 * unat x" using B u p d by linarith+
    then show ?thesis using r by blast
  qed
qed

lemma round_down_spec: "0 < m \<Longrightarrow> unat (round_down x m) = unat m * (unat x div unat m)"
proof -
  have "unat (x - x mod m) = unat x - unat (x mod m)" by (rule unat_sub) (simp add: word_le_nat_alt unat_mod)
  then show ?thesis by (simp add: round_down_def unat_mod minus_mod_eq_mult_div)
qed

lemma round_up_spec:
  assumes "0 < m" "unat x + unat m - 1 < 2 ^ 64"
  shows "unat m dvd unat (round_up x m) \<and> unat x \<le> unat (round_up x m) \<and> unat (round_up x m) < unat x + unat m"
proof -
  have m: "0 < unat m" using assms(1) by (simp add: word_less_nat_alt)
  have "x + m - 1 = of_nat (unat x + unat m - 1)" using m by (simp add: of_nat_diff)
  moreover have "take_bit 64 (unat x + unat m - 1) = unat x + unat m - 1" using assms(2) by (intro take_bit_nat_eq_self) simp
  ultimately have u: "unat (x + m - 1) = unat x + unat m - 1" by (simp only: unsigned_of_nat) simp
  have r: "unat (round_up x m) = unat m * ((unat x + unat m - 1) div unat m)" using round_down_spec [OF assms(1)] u by (simp add: round_up_def)
  have "unat m * ((unat x + unat m - 1) div unat m) + (unat x + unat m - 1) mod unat m = unat x + unat m - 1" by (rule mult_div_mod_eq)
  moreover have "(unat x + unat m - 1) mod unat m \<le> unat m - 1" using mod_less_divisor [OF m, of "unat x + unat m - 1"] by linarith
  ultimately have "unat x \<le> unat (round_up x m)" "unat (round_up x m) < unat x + unat m" using m r by linarith+
  then show ?thesis using r by simp
qed

text \<open>
  C31. The rounding helpers. \<^verbatim>\<open>round_down\<close> and \<^verbatim>\<open>round_up\<close> give the nearest multiple on their side,
  \<^verbatim>\<open>round_down_pow2\<close> the largest power of two that is not larger and \<^verbatim>\<open>round_up_pow2\<close> the smallest that is
  not smaller, for every argument for which that value fits in 64 bits.
\<close>

theorem rounding_correct:
  "(0 < m \<and> unat x + unat m - 1 < 2 ^ 64 \<longrightarrow>
      unat m dvd unat (round_up x m) \<and> unat x \<le> unat (round_up x m) \<and> unat (round_up x m) < unat x + unat m) \<and>
   (0 < m \<longrightarrow> unat m dvd unat (round_down x m) \<and> unat (round_down x m) \<le> unat x \<and> unat x < unat (round_down x m) + unat m) \<and>
   (x \<noteq> 0 \<longrightarrow> (\<exists>n. unat (round_down_pow2 x) = 2 ^ n \<and> 2 ^ n \<le> unat x \<and> unat x < 2 ^ Suc n)) \<and>
   (x \<noteq> 0 \<and> unat x \<le> 2 ^ 63 \<longrightarrow> (\<exists>n. unat (round_up_pow2 x) = 2 ^ n \<and> unat x \<le> 2 ^ n \<and> 2 ^ n < 2 * unat x))"
proof -
  have "unat m dvd unat (round_down x m) \<and> unat (round_down x m) \<le> unat x \<and> unat x < unat (round_down x m) + unat m" if "0 < m"
  proof -
    have "0 < unat m" using that by (simp add: word_less_nat_alt)
    then have "unat x < unat m * (unat x div unat m) + unat m"
      using mult_div_mod_eq [of "unat m" "unat x"] mod_less_divisor [of "unat m" "unat x"] by linarith
    then show ?thesis using round_down_spec [OF that, of x] by simp
  qed
  then show ?thesis using round_up_spec [of m x] round_down_pow2_spec [of x] round_up_pow2_spec [of x] by blast
qed

theorem rounding_correct_witness:
  "4096 dvd unat (round_up 5000 4096) \<and> (\<exists>n. unat (round_up_pow2 5000) = 2 ^ n)"
  using rounding_correct [of 4096 5000] by auto

end
