(* ===== verification/FileIter.thy ===== *)
theory FileIter
  imports BitsetView
begin

text \<open>
  Files of the disk file system: extent allocation (\<^verbatim>\<open>chkfsstate::allocate_extent\<close> and
  \<^verbatim>\<open>free_extent\<close> of \<^verbatim>\<open>k-chkfs.cc\<close>) and the file iterator of \<^verbatim>\<open>k-chkfsiter.hh\<close> and \<^verbatim>\<open>k-chkfsiter.cc\<close>.

  An extent is the pair of its first block and its block count. The state is the part of the file
  system the iterator works on: the extents of one inode, the blocks read as arrays of extents, and
  the free block bitmap. \<open>avail b\<close> says that \<^verbatim>\<open>bufcache::get_disk_entry(b)\<close> gives an entry; the
  contents are the current ones, as theory \<open>BufCache\<close> shows. The extent pointer \<^verbatim>\<open>eptr_\<close> always
  points at extent \<^verbatim>\<open>eidx_\<close>, in the inode or in the held indirect block, so the iterator keeps
  whether it is null and the number of the held block.
\<close>

type_synonym extent = "nat \<times> nat"

definition blocksize :: nat where [kconst]: "blocksize = 4096"
definition ndirect :: nat where [kconst]: "ndirect = 4"
definition extentsperblock :: nat where [kconst]: "extentsperblock = 4096 div 8"

record fsfile =
  direct :: "extent list"
  indirect :: extent
  blk :: "nat \<Rightarrow> extent list"
  fbb :: "u64 list"

subsection \<open>Allocating and freeing extents\<close>

text \<open>An error code as a block number.\<close>

definition errbn :: "int \<Rightarrow> nat" where
  "errbn e = nat (e mod 2 ^ 32)"

definition allocate_extent :: "(nat \<Rightarrow> bool) \<Rightarrow> nat \<Rightarrow> nat \<Rightarrow> u64 list \<Rightarrow> (nat \<times> u64 list) option" where
  "allocate_extent avail fbb_bn count v =
     (if count > 2 ^ 15 then Some (errbn E_FBIG, v)
      else
        check (avail 0)
         (if \<not> avail fbb_bn then Some (errbn E_NOSPC, v)
          else
            (case find_free_range v count 0 of
               None \<Rightarrow> None
             | Some first \<Rightarrow>
                 if first = 2 ^ 32 - 1 then Some (errbn E_NOSPC, v)
                 else map_option (Pair first) (take_marks v first count))))"

definition free_extent :: "(nat \<Rightarrow> bool) \<Rightarrow> nat \<Rightarrow> nat \<Rightarrow> nat \<Rightarrow> u64 list \<Rightarrow> u64 list option" where
  "free_extent avail fbb_bn first count v =
     check (avail 0) (check (avail fbb_bn) (free_marks v first count))"

subsection \<open>The iterator\<close>

record fileiter =
  off :: nat
  eoff :: nat
  eidx :: nat
  live :: bool
  ind :: "nat option"

definition fi_new :: fileiter where
  "fi_new = \<lparr>off = 0, eoff = 0, eidx = 0, live = True, ind = None\<rparr>"

text \<open>\<^verbatim>\<open>*eptr_\<close> for extent index \<open>k\<close>.\<close>

definition ext_at :: "fsfile \<Rightarrow> nat option \<Rightarrow> nat \<Rightarrow> extent" where
  "ext_at f ib k = (if k < ndirect then direct f ! k else blk f (the ib) ! ((k - ndirect) mod extentsperblock))"

abbreviation eptr :: "fsfile \<Rightarrow> fileiter \<Rightarrow> extent" where
  "eptr f it \<equiv> ext_at f (ind it) (eidx it)"

definition fi_active :: "fsfile \<Rightarrow> fileiter \<Rightarrow> bool" where
  "fi_active f it \<longleftrightarrow> live it \<and> snd (eptr f it) \<noteq> 0"

definition fi_empty :: "fsfile \<Rightarrow> fileiter \<Rightarrow> bool" where
  "fi_empty f it \<longleftrightarrow> \<not> live it \<or> fst (eptr f it) = 0"

definition fi_blocknum :: "fsfile \<Rightarrow> fileiter \<Rightarrow> nat" where
  "fi_blocknum f it =
     (if \<not> fi_empty f it then (fst (eptr f it) + (off it - eoff it) div blocksize) mod 2 ^ 32 else 0)"

definition fi_block_relative_offset :: "fileiter \<Rightarrow> nat" where
  "fi_block_relative_offset it = off it mod blocksize"

text \<open>The loop of \<^verbatim>\<open>find\<close>.\<close>

partial_function (option) fi_walk :: "(nat \<Rightarrow> bool) \<Rightarrow> fsfile \<Rightarrow> fileiter \<Rightarrow> fileiter option" where
  "fi_walk avail f it =
     (if off it \<ge> eoff it + snd (eptr f it) * blocksize then
        (if snd (eptr f it) = 0 then Some (it\<lparr>live := False\<rparr>)
         else
           (let it' = it\<lparr>eoff := eoff it + snd (eptr f it) * blocksize, eidx := eidx it + 1\<rparr>
            in if eidx it' < ndirect then fi_walk avail f it'
               else if (eidx it' - ndirect) mod extentsperblock = 0 then
                 (let ibi = (eidx it' - ndirect) div extentsperblock; b = fst (indirect f) + ibi
                  in if snd (indirect f) \<le> ibi \<or> \<not> avail b then Some (it'\<lparr>ind := None, live := False\<rparr>)
                     else fi_walk avail f (it'\<lparr>ind := Some b\<rparr>))
               else fi_walk avail f it'))
      else Some it)"

definition fi_find :: "(nat \<Rightarrow> bool) \<Rightarrow> fsfile \<Rightarrow> fileiter \<Rightarrow> nat \<Rightarrow> fileiter option" where
  "fi_find avail f it offs =
     (let it = it\<lparr>off := offs\<rparr>;
          it = (if \<not> live it \<or> off it < eoff it then it\<lparr>eoff := 0, eidx := 0, live := True, ind := None\<rparr> else it)
      in fi_walk avail f it)"

partial_function (option) fi_next_loop :: "(nat \<Rightarrow> bool) \<Rightarrow> fsfile \<Rightarrow> fileiter \<Rightarrow> fileiter option" where
  "fi_next_loop avail f it =
     (case fi_find avail f it ((off it + 1 + blocksize - 1) div blocksize * blocksize) of
        None \<Rightarrow> None
      | Some it' \<Rightarrow>
          if live it' \<and> fst (eptr f it') = 0 \<and> snd (eptr f it') \<noteq> 0 then fi_next_loop avail f it' else Some it')"

definition fi_next :: "(nat \<Rightarrow> bool) \<Rightarrow> fsfile \<Rightarrow> fileiter \<Rightarrow> fileiter option" where
  "fi_next avail f it = (if fi_active f it then fi_next_loop avail f it else Some it)"

subsection \<open>Adding an extent\<close>

text \<open>The first half of \<^verbatim>\<open>insert\<close> after its assertions: an indirect block where one is needed.\<close>

definition fi_indirect :: "(nat \<Rightarrow> bool) \<Rightarrow> nat \<Rightarrow> fsfile \<Rightarrow> fileiter \<Rightarrow> (int \<times> fsfile \<times> fileiter) option" where
  "fi_indirect avail fbb_bn f it =
     (if eidx it = ndirect \<and> snd (indirect f) = 0 then
        check (ind it = None)
         (case allocate_extent avail fbb_bn 1 (fbb f) of
            None \<Rightarrow> None
          | Some (b, v) \<Rightarrow>
              if b \<ge> errbn E_MINERROR then Some (int b - 2 ^ 32, f\<lparr>fbb := v\<rparr>, it)
              else if \<not> avail b then Some (E_NOMEM, f\<lparr>fbb := v\<rparr>, it)
              else Some (0, f\<lparr>fbb := v, blk := (blk f)(b := replicate extentsperblock (0, 0)), indirect := (b, 1)\<rparr>,
                     it\<lparr>ind := Some b\<rparr>))
      else Some (0, f, it))"

definition set_ext :: "fsfile \<Rightarrow> nat option \<Rightarrow> nat \<Rightarrow> extent \<Rightarrow> fsfile" where
  "set_ext f ib k e =
     (if k < ndirect then f\<lparr>direct := (direct f)[k := e]\<rparr>
      else f\<lparr>blk := (blk f)(the ib := (blk f (the ib))[(k - ndirect) mod extentsperblock := e])\<rparr>)"

definition fi_add :: "nat \<Rightarrow> nat \<Rightarrow> fsfile \<Rightarrow> fileiter \<Rightarrow> fsfile \<times> fileiter" where
  "fi_add first count f it =
     (let k = eidx it; p = ext_at f (ind it) (k - 1)
      in if k \<ge> ndirect \<and> (k - ndirect) mod extentsperblock \<noteq> 0 \<and> (fst p + snd p) mod 2 ^ 32 = first then
           (set_ext f (ind it) (k - 1) (fst p, (snd p + count) mod 2 ^ 32),
            it\<lparr>live := True, eidx := k - 1, eoff := eoff it - snd p * blocksize\<rparr>)
         else (set_ext f (ind it) k (first, count), it\<lparr>live := True\<rparr>))"

definition fi_insert :: "(nat \<Rightarrow> bool) \<Rightarrow> nat \<Rightarrow> bool \<Rightarrow> nat \<Rightarrow> nat \<Rightarrow> fsfile \<Rightarrow> fileiter \<Rightarrow> (int \<times> fsfile \<times> fileiter) option" where
  "fi_insert avail fbb_bn has_write_lock first count f it =
     check has_write_lock
      (check (count \<noteq> 0)
        (check (\<not> live it \<or> snd (eptr f it) = 0)
          (check (eoff it mod blocksize = 0)
            (let p = direct f ! (eidx it - 1)
             in if eidx it > 0 \<and> eidx it \<le> ndirect \<and> (fst p + snd p) mod 2 ^ 32 = first then
                  Some (0, f\<lparr>direct := (direct f)[eidx it - 1 := (fst p, (snd p + count) mod 2 ^ 32)]\<rparr>,
                    it\<lparr>live := True, eidx := eidx it - 1, eoff := eoff it - snd p * blocksize\<rparr>)
                else
                  (case fi_indirect avail fbb_bn f it of
                     None \<Rightarrow> None
                   | Some (r, f', it') \<Rightarrow>
                       if r \<noteq> 0 then Some (r, f', it')
                       else if eidx it' \<ge> ndirect \<and> ind it' = None then Some (E_FBIG, f', it')
                       else (case fi_add first count f' it' of (f'', it'') \<Rightarrow> Some (0, f'', it'')))))))"

subsection \<open>A file as the sequence of its blocks\<close>

definition all_ext :: "fsfile \<Rightarrow> extent list" where
  "all_ext f = direct f @ concat (map (\<lambda>k. blk f (fst (indirect f) + k)) [0..<snd (indirect f)])"

definition exts_of :: "extent list \<Rightarrow> extent list" where
  "exts_of = takeWhile (\<lambda>e. snd e \<noteq> 0)"

definition ext_blocks :: "extent \<Rightarrow> nat list" where
  "ext_blocks e = (if fst e = 0 then replicate (snd e) 0 else [fst e ..< fst e + snd e])"

definition blocks_of :: "extent list \<Rightarrow> nat list" where
  "blocks_of es = concat (map ext_blocks (exts_of es))"

definition file_blocks :: "fsfile \<Rightarrow> nat list" where
  "file_blocks f = blocks_of (all_ext f)"

definition wf_file :: "fsfile \<Rightarrow> bool" where
  "wf_file f \<longleftrightarrow> length (direct f) = ndirect \<and>
     (\<forall>k < snd (indirect f). length (blk f (fst (indirect f) + k)) = extentsperblock)"

definition ind_at :: "fsfile \<Rightarrow> nat \<Rightarrow> nat option" where
  "ind_at f k = (if k < ndirect then None else Some (fst (indirect f) + (k - ndirect) div extentsperblock))"

lemma length_ext_blocks [simp]: "length (ext_blocks e) = snd e"
  by (simp add: ext_blocks_def)

lemma length_concat_equal: "(\<And>j. j < m \<Longrightarrow> length (g j) = n) \<Longrightarrow> length (concat (map g [0..<m])) = n * m"
  by (induction m) simp_all

lemma nth_concat_equal:
  "(\<And>j. j < m \<Longrightarrow> length (g j) = n) \<Longrightarrow> k < n * m \<Longrightarrow> concat (map g [0..<m]) ! k = g (k div n) ! (k mod n)"
proof (induction m)
  case (Suc m)
  have l: "length (concat (map g [0..<m])) = n * m"
    by (rule length_concat_equal) (simp add: Suc.prems(1))
  show ?case
  proof (cases "k < n * m")
    case True
    then show ?thesis using Suc l by (simp add: nth_append)
  next
    case False
    have n: "0 < n" using Suc.prems(2) by (cases n) auto
    have "k = n * m + (k - n * m)" "k - n * m < n" using False Suc.prems(2) by auto
    then have "k div n = m" "k mod n = k - n * m" using n by (metis div_mult_self4 add.commute div_less add_0 less_numeral_extra(3) mult.commute, metis mod_mult_self4 mod_less add.commute)
    then show ?thesis using False l by (simp add: nth_append)
  qed
qed simp

lemma length_all_ext: "wf_file f \<Longrightarrow> length (all_ext f) = ndirect + extentsperblock * snd (indirect f)"
  using length_concat_equal [of "snd (indirect f)" "\<lambda>k. blk f (fst (indirect f) + k)"] by (simp add: all_ext_def wf_file_def)

lemma all_ext_nth: "wf_file f \<Longrightarrow> k < length (all_ext f) \<Longrightarrow> all_ext f ! k = ext_at f (ind_at f k) k"
  using nth_concat_equal [of "snd (indirect f)" "\<lambda>k. blk f (fst (indirect f) + k)" extentsperblock "k - ndirect"]
    length_all_ext [of f]
  by (auto simp: all_ext_def ext_at_def ind_at_def wf_file_def nth_append)

lemma exts_nth: "k < length (exts_of es) \<Longrightarrow> exts_of es ! k = es ! k \<and> snd (es ! k) \<noteq> 0 \<and> k < length es"
  unfolding exts_of_def using takeWhile_nth [of k "\<lambda>e. snd e \<noteq> 0" es] nth_length_takeWhile length_takeWhile_le [of "\<lambda>e. snd e \<noteq> 0" es]
    set_takeWhileD [OF nth_mem [of k "takeWhile (\<lambda>e. snd e \<noteq> 0) es"]] by auto

lemma exts_end: "length (exts_of es) < length es \<Longrightarrow> snd (es ! length (exts_of es)) = 0"
  unfolding exts_of_def using nth_length_takeWhile [of "\<lambda>e. snd e \<noteq> 0" es] by simp

text \<open>The file offset at which extent \<open>k\<close> starts, in blocks, and the block at an offset.\<close>

definition ext_start :: "extent list \<Rightarrow> nat \<Rightarrow> nat" where
  "ext_start es k = sum_list (map snd (take k (exts_of es)))"

lemma ext_start_Suc: "k < length (exts_of es) \<Longrightarrow> ext_start es (Suc k) = ext_start es k + snd (es ! k)"
  using exts_nth [of k es] by (simp add: ext_start_def take_Suc_conv_app_nth)

lemma length_blocks: "length (blocks_of es) = ext_start es (length (exts_of es))"
  by (simp add: blocks_of_def ext_start_def length_concat comp_def)

lemma concat_nth_start:
  "k < length xs \<Longrightarrow> j < length (xs ! k) \<Longrightarrow> concat xs ! (sum_list (map length (take k xs)) + j) = xs ! k ! j"
proof (induction xs arbitrary: k)
  case (Cons x xs)
  then show ?case by (cases k) (auto simp: nth_append)
qed simp

lemma blocks_nth:
  assumes "k < length (exts_of es)" "j < snd (es ! k)"
  shows "blocks_of es ! (ext_start es k + j) = (if fst (es ! k) = 0 then 0 else fst (es ! k) + j)"
proof -
  have "sum_list (map length (take k (map ext_blocks (exts_of es)))) = ext_start es k"
    by (simp add: ext_start_def take_map comp_def)
  then show ?thesis using concat_nth_start [of k "map ext_blocks (exts_of es)" j] assms exts_nth [OF assms(1)]
    by (simp add: blocks_of_def ext_blocks_def)
qed

lemma ext_start_mono: "ext_start es k \<le> ext_start es (length (exts_of es))"
proof -
  have "sum_list (map snd (exts_of es)) = sum_list (map snd (take k (exts_of es))) + sum_list (map snd (drop k (exts_of es)))"
    by (metis append_take_drop_id map_append sum_list_append)
  then show ?thesis by (simp add: ext_start_def)
qed

subsection \<open>Finding an offset\<close>

text \<open>A live iterator stands at an extent of the file or at the entry after the last.\<close>

definition fi_ok :: "fsfile \<Rightarrow> fileiter \<Rightarrow> bool" where
  "fi_ok f it \<longleftrightarrow> (live it \<longrightarrow>
     eidx it \<le> length (exts_of (all_ext f)) \<and> eidx it < length (all_ext f) \<and>
     eoff it = blocksize * ext_start (all_ext f) (eidx it) \<and> (eidx it \<ge> ndirect \<longrightarrow> ind it = ind_at f (eidx it)))"

text \<open>The iterator after a search past the last block.\<close>

definition at_end :: "fsfile \<Rightarrow> fileiter \<Rightarrow> bool" where
  "at_end f it \<longleftrightarrow> \<not> live it \<and> eidx it = length (exts_of (all_ext f)) \<and>
     eoff it = blocksize * length (file_blocks f) \<and>
     (eidx it \<ge> ndirect \<longrightarrow> ind it = (if eidx it < length (all_ext f) then ind_at f (eidx it) else None))"

definition at_block :: "fsfile \<Rightarrow> fileiter \<Rightarrow> bool" where
  "at_block f it \<longleftrightarrow> live it \<and> eidx it < length (exts_of (all_ext f)) \<and>
     eoff it \<le> off it \<and> off it < eoff it + snd (all_ext f ! eidx it) * blocksize"

abbreviation all_avail :: "(nat \<Rightarrow> bool) \<Rightarrow> fsfile \<Rightarrow> bool" where
  "all_avail avail f \<equiv> (\<forall>k < snd (indirect f). avail (fst (indirect f) + k))"

lemma fi_walk_spec:
  assumes "wf_file f" "all_avail avail f" "live it" "fi_ok f it" "eoff it \<le> off it"
  shows "\<exists>it'. fi_walk avail f it = Some it' \<and> off it' = off it \<and> fi_ok f it' \<and>
     (if off it < blocksize * length (file_blocks f) then at_block f it' else at_end f it')"
  using assms(3-5)
proof (induction "length (all_ext f) - eidx it" arbitrary: it rule: less_induct)
  case less
  let ?E = "all_ext f" and ?k = "eidx it"
  have I: "?k \<le> length (exts_of ?E)" "?k < length ?E" "eoff it = blocksize * ext_start ?E ?k" "?k \<ge> ndirect \<longrightarrow> ind it = ind_at f ?k"
    using less.prems by (auto simp: fi_ok_def)
  have p: "eptr f it = ?E ! ?k" using all_ext_nth [OF assms(1) I(2)] I(4) by (auto simp: ext_at_def)
  have tot: "length (file_blocks f) = ext_start ?E (length (exts_of ?E))" by (simp add: file_blocks_def length_blocks)
  show ?case
  proof (cases "?k = length (exts_of ?E)")
    case True
    have z: "snd (?E ! ?k) = 0" using exts_end [of ?E] True I(2) by simp
    have "fi_walk avail f it = Some (it\<lparr>live := False\<rparr>)"
      using less.prems(3) by (subst fi_walk.simps) (simp add: p z)
    moreover have "\<not> off it < blocksize * length (file_blocks f)" using less.prems(3) I(3) tot True by simp
    ultimately show ?thesis using True I tot by (auto simp: fi_ok_def at_end_def)
  next
    case False
    then have k: "?k < length (exts_of ?E)" using I(1) by simp
    have nz: "snd (?E ! ?k) \<noteq> 0" using exts_nth [OF k] by simp
    have s: "ext_start ?E (Suc ?k) = ext_start ?E ?k + snd (?E ! ?k)" by (rule ext_start_Suc [OF k])
    have b: "eoff it + snd (?E ! ?k) * blocksize = blocksize * ext_start ?E (Suc ?k)" using I(3) s by (simp add: algebra_simps)
    show ?thesis
    proof (cases "off it \<ge> eoff it + snd (?E ! ?k) * blocksize")
      case no: False
      have "off it < blocksize * ext_start ?E (Suc ?k)" using no b by simp
      also have "\<dots> \<le> blocksize * length (file_blocks f)" using ext_start_mono [of ?E "Suc ?k"] tot by simp
      finally have "off it < blocksize * length (file_blocks f)" .
      moreover have "fi_walk avail f it = Some it" using no by (subst fi_walk.simps) (simp add: p)
      ultimately show ?thesis using less.prems no k by (auto simp: at_block_def)
    next
      case yes: True
      define it1 where "it1 = it\<lparr>eoff := eoff it + snd (?E ! ?k) * blocksize, eidx := ?k + 1\<rparr>"
      have rec: "\<exists>it'. fi_walk avail f it2 = Some it' \<and> off it' = off it \<and> fi_ok f it' \<and>
          (if off it < blocksize * length (file_blocks f) then at_block f it' else at_end f it')"
        if "it2 = it1\<lparr>ind := x\<rparr>" "?k + 1 < length ?E" "?k + 1 \<ge> ndirect \<longrightarrow> x = ind_at f (?k + 1)" for it2 x
      proof -
        have "live it2" "eoff it2 \<le> off it2" "off it2 = off it" "eidx it2 = ?k + 1"
          using that less.prems yes by (simp_all add: it1_def)
        moreover have "fi_ok f it2" using that k b by (simp add: fi_ok_def it1_def)
        ultimately show ?thesis using less.hyps [of it2] I(2) by simp
      qed
      have W: "fi_walk avail f it =
         (if ?k + 1 < ndirect then fi_walk avail f it1
          else if (?k + 1 - ndirect) mod extentsperblock = 0 then
            (if snd (indirect f) \<le> (?k + 1 - ndirect) div extentsperblock \<or> \<not> avail (fst (indirect f) + (?k + 1 - ndirect) div extentsperblock)
             then Some (it1\<lparr>ind := None, live := False\<rparr>)
             else fi_walk avail f (it1\<lparr>ind := Some (fst (indirect f) + (?k + 1 - ndirect) div extentsperblock)\<rparr>))
          else fi_walk avail f it1)"
        using yes nz by (subst fi_walk.simps) (simp add: p it1_def Let_def)
      have len: "length ?E = ndirect + extentsperblock * snd (indirect f)" by (rule length_all_ext [OF assms(1)])
      have i1: "?k \<ge> ndirect \<longrightarrow> ind it1 = ind_at f ?k" by (simp add: it1_def I(4))
      have r1: "it1 = it1\<lparr>ind := ind it1\<rparr>" by simp
      show ?thesis
      proof (cases "?k + 1 < ndirect")
        case True
        then show ?thesis using rec [OF r1] W len by simp
      next
        case d: False
        have m: "?k + 1 - ndirect = Suc (?k - ndirect) \<or> ?k + 1 = ndirect" using d by linarith
        show ?thesis
        proof (cases "(?k + 1 - ndirect) mod extentsperblock = 0")
          case z: True
          define q where "q = (?k + 1 - ndirect) div extentsperblock"
          have kq: "?k + 1 = ndirect + extentsperblock * q" using z d div_mult_mod_eq [of "?k + 1 - ndirect" extentsperblock]
            by (simp add: q_def mult.commute)
          have P: "0 < extentsperblock" by (simp add: kconst)
          show ?thesis
          proof (cases "snd (indirect f) \<le> q")
            case True
            then have "length ?E \<le> ?k + 1" using kq len by simp
            then have ke: "?k + 1 = length ?E" using I(2) by simp
            then have xe: "length (exts_of ?E) = ?k + 1" using k length_takeWhile_le [of "\<lambda>e. snd e \<noteq> 0" ?E] by (simp add: exts_of_def)
            have ee: "eoff it1 = blocksize * length (file_blocks f)" using b xe tot by (simp add: it1_def)
            have "fi_walk avail f it = Some (it1\<lparr>ind := None, live := False\<rparr>)" using W d z True by (simp add: q_def)
            moreover have "\<not> off it < blocksize * length (file_blocks f)" using yes ee by (simp add: it1_def)
            moreover have "at_end f (it1\<lparr>ind := None, live := False\<rparr>)" using ee xe ke by (simp add: at_end_def it1_def)
            ultimately show ?thesis by (simp add: fi_ok_def it1_def)
          next
            case False
            then have "?k + 1 < length ?E" using kq len P by simp
            moreover have "Some (fst (indirect f) + q) = ind_at f (?k + 1)" using d by (simp add: ind_at_def q_def)
            moreover have "avail (fst (indirect f) + q)" using False assms(2) by simp
            ultimately show ?thesis using rec [OF refl, of "Some (fst (indirect f) + q)"] W d z False by (simp add: q_def)
          qed
        next
          case nz': False
          then have mk: "?k + 1 - ndirect = Suc (?k - ndirect)" and dk: "\<not> ?k < ndirect" using m d by (auto split: if_splits)
          then have "ind_at f (?k + 1) = ind_at f ?k" using nz' d by (simp add: ind_at_def div_Suc)
          then have "ind it1 = ind_at f (?k + 1)" using i1 dk by simp
          moreover have "?k + 1 \<noteq> length ?E" using nz' len by auto
          ultimately show ?thesis using rec [OF r1] W d nz' I(2) by simp
        qed
      qed
    qed
  qed
qed

lemma fi_find_spec:
  assumes "wf_file f" "all_avail avail f" "fi_ok f it"
  shows "\<exists>it'. fi_find avail f it offs = Some it' \<and> off it' = offs \<and> fi_ok f it' \<and>
     (if offs < blocksize * length (file_blocks f) then at_block f it' else at_end f it')"
proof -
  define it1 where "it1 = (if \<not> live it \<or> offs < eoff it then it\<lparr>off := offs, eoff := 0, eidx := 0, live := True, ind := None\<rparr> else it\<lparr>off := offs\<rparr>)"
  have F: "fi_find avail f it offs = fi_walk avail f it1" by (simp add: fi_find_def it1_def Let_def)
  have "0 < length (all_ext f)" using length_all_ext [OF assms(1)] by (simp add: kconst)
  then have "live it1" "fi_ok f it1" "eoff it1 \<le> off it1" "off it1 = offs"
    using assms(3) by (auto simp: it1_def fi_ok_def ext_start_def ind_at_def ndirect_def)
  then show ?thesis using fi_walk_spec [OF assms(1,2), of it1] F by simp
qed

lemma at_block_blocknum:
  assumes "wf_file f" "fi_ok f it" "at_block f it"
  shows "fi_blocknum f it = (file_blocks f ! (off it div blocksize)) mod 2 ^ 32 \<and> fi_active f it"
proof -
  let ?E = "all_ext f" and ?k = "eidx it"
  have k: "?k < length (exts_of ?E)" and o: "eoff it \<le> off it" "off it < eoff it + snd (?E ! ?k) * blocksize" and l: "live it"
    using assms(3) by (auto simp: at_block_def)
  have e: "eoff it = blocksize * ext_start ?E ?k" "?k < length ?E" "?k \<ge> ndirect \<longrightarrow> ind it = ind_at f ?k" using assms(2) l by (auto simp: fi_ok_def)
  have p: "eptr f it = ?E ! ?k" using all_ext_nth [OF assms(1) e(2)] e(3) by (auto simp: ext_at_def)
  have B: "0 < blocksize" by (simp add: kconst)
  define j where "j = (off it - eoff it) div blocksize"
  have "off it - eoff it < snd (?E ! ?k) * blocksize" using o by linarith
  then have j: "j < snd (?E ! ?k)" unfolding j_def by (rule less_mult_imp_div_less)
  have "off it = blocksize * ext_start ?E ?k + (off it - eoff it)" using o e(1) by simp
  then have "off it div blocksize = ext_start ?E ?k + j" unfolding j_def using B by (metis div_mult_self4 mult.commute add.commute not_less0)
  then have "file_blocks f ! (off it div blocksize) = (if fst (?E ! ?k) = 0 then 0 else fst (?E ! ?k) + j)"
    using blocks_nth [OF k j] by (simp add: file_blocks_def)
  then show ?thesis using l p exts_nth [OF k] by (simp add: fi_blocknum_def fi_empty_def fi_active_def j_def)
qed

lemma at_end_blocknum: "at_end f it \<Longrightarrow> fi_blocknum f it = 0 \<and> \<not> fi_active f it"
  by (simp add: at_end_def fi_blocknum_def fi_empty_def fi_active_def)

subsection \<open>Appending blocks\<close>

text \<open>Nothing is stored after the end marker, so that overwriting the marker exposes no old extent.\<close>

definition clean_tail :: "extent list \<Rightarrow> bool" where
  "clean_tail es \<longleftrightarrow> (\<forall>e \<in> set (drop (length (exts_of es)) es). snd e = 0)"

lemma exts_split: "es = exts_of es @ drop (length (exts_of es)) es"
  unfolding exts_of_def by (metis append_take_drop_id takeWhile_eq_take)

lemma exts_all: "e \<in> set (exts_of es) \<Longrightarrow> snd e \<noteq> 0"
  unfolding exts_of_def by (auto dest: set_takeWhileD)

lemma exts_of_append: "(\<And>e. e \<in> set xs \<Longrightarrow> snd e \<noteq> 0) \<Longrightarrow> (\<And>e. e \<in> set ys \<Longrightarrow> snd e = 0) \<Longrightarrow> exts_of (xs @ ys) = xs"
  unfolding exts_of_def by (cases ys) (simp_all add: takeWhile_append2)

lemma exts_append:
  assumes "clean_tail es" "length (exts_of es) < length es" "snd e \<noteq> 0"
  shows "exts_of (es[length (exts_of es) := e]) = exts_of es @ [e]" "clean_tail (es[length (exts_of es) := e])"
proof -
  let ?n = "length (exts_of es)" and ?ys = "drop (length (exts_of es)) es"
  have "(exts_of es @ ?ys)[?n := e] = exts_of es @ ?ys[0 := e]" by (simp add: list_update_append)
  then have "es[?n := e] = exts_of es @ ?ys[0 := e]" by (simp only: exts_split [symmetric])
  moreover have "?ys[0 := e] = e # tl ?ys" using assms(2) by (cases ?ys) auto
  ultimately have E: "es[?n := e] = (exts_of es @ [e]) @ tl ?ys" by simp
  have "\<And>x. x \<in> set (tl ?ys) \<Longrightarrow> snd x = 0" using assms(1) by (metis clean_tail_def list.set_sel(2) tl_Nil empty_iff list.set(1))
  then show X: "exts_of (es[?n := e]) = exts_of es @ [e]" unfolding E using assms(3) exts_all by (intro exts_of_append) auto
  show "clean_tail (es[?n := e])" unfolding clean_tail_def X unfolding E
    using \<open>\<And>x. x \<in> set (tl ?ys) \<Longrightarrow> snd x = 0\<close> by auto
qed

lemma exts_grow:
  assumes "clean_tail es" "0 < length (exts_of es)" "snd e \<noteq> 0"
  shows "exts_of (es[length (exts_of es) - 1 := e]) = butlast (exts_of es) @ [e]" "clean_tail (es[length (exts_of es) - 1 := e])"
proof -
  let ?n = "length (exts_of es)" and ?ys = "drop (length (exts_of es)) es"
  have "es[?n - 1 := e] = (exts_of es)[?n - 1 := e] @ ?ys" using exts_split [of es] assms(2) by (metis list_update_append1 diff_less zero_less_one)
  also have "(exts_of es)[?n - 1 := e] = butlast (exts_of es) @ [e]" using assms(2) by (metis length_greater_0_conv list_update_length append_butlast_last_id length_butlast)
  finally have E: "es[?n - 1 := e] = (butlast (exts_of es) @ [e]) @ ?ys" .
  show X: "exts_of (es[?n - 1 := e]) = butlast (exts_of es) @ [e]" unfolding E
    using assms exts_all by (intro exts_of_append) (auto simp: clean_tail_def dest: in_set_butlastD)
  have D: "drop (length (xs @ [e])) ((xs @ [e]) @ ys) = ys" for xs ys by simp
  show "clean_tail (es[?n - 1 := e])" unfolding clean_tail_def X unfolding E D using assms(1) by (simp only: clean_tail_def)
qed

lemma blocks_append:
  assumes "clean_tail es" "length (exts_of es) < length es" "c \<noteq> 0" "a \<noteq> 0"
  shows "blocks_of (es[length (exts_of es) := (a, c)]) = blocks_of es @ [a..<a + c]"
  using exts_append(1) [of es "(a, c)"] assms by (simp add: blocks_of_def ext_blocks_def)

lemma blocks_grow:
  assumes "clean_tail es" "0 < length (exts_of es)" and l: "es ! (length (exts_of es) - 1) = (b, d)" "b \<noteq> 0" "a = b + d" "c \<noteq> 0"
  shows "blocks_of (es[length (exts_of es) - 1 := (b, d + c)]) = blocks_of es @ [a..<a + c]"
proof -
  have n: "exts_of es \<noteq> []" using assms(2) by auto
  have "last (exts_of es) = (b, d)" using l(1) n exts_nth [of "length (exts_of es) - 1" es] by (simp add: last_conv_nth)
  then obtain xs where xs: "exts_of es = xs @ [(b, d)]" using n by (metis append_butlast_last_id)
  then have "blocks_of es = concat (map ext_blocks xs) @ [b..<b + d]" using l(2) by (simp add: blocks_of_def ext_blocks_def)
  moreover have "blocks_of (es[length (exts_of es) - 1 := (b, d + c)]) = concat (map ext_blocks xs) @ [b..<b + (d + c)]"
    using exts_grow(1) [OF assms(1,2), of "(b, d + c)"] l xs by (simp add: blocks_of_def ext_blocks_def)
  moreover have "[b..<b + (d + c)] = [b..<b + d] @ [a..<a + c]" using l(3) upt_add_eq_append [of b "b + d" c] by (simp add: add.assoc)
  ultimately show ?thesis by simp
qed

lemma direct_all_ext:
  assumes "wf_file f" "k < ndirect"
  shows "wf_file (f\<lparr>direct := (direct f)[k := e]\<rparr>) \<and> all_ext (f\<lparr>direct := (direct f)[k := e]\<rparr>) = (all_ext f)[k := e]"
  using assms by (simp add: wf_file_def all_ext_def list_update_append)

lemma set_ext_all_ext:
  assumes "wf_file f" "k < length (all_ext f)"
  shows "wf_file (set_ext f (ind_at f k) k e) \<and> all_ext (set_ext f (ind_at f k) k e) = (all_ext f)[k := e]"
proof (cases "k < ndirect")
  case True
  then show ?thesis using direct_all_ext [OF assms(1) True] by (simp add: set_ext_def)
next
  case False
  let ?f = "set_ext f (ind_at f k) k e"
  have P: "0 < extentsperblock" by (simp add: kconst)
  have wf: "wf_file ?f" using assms(1) False by (auto simp: wf_file_def set_ext_def dest!: sym [of _ "the (ind_at f k)"])
  have i: "indirect ?f = indirect f" "direct ?f = direct f" using False by (simp_all add: set_ext_def)
  have len: "length (all_ext ?f) = length (all_ext f)" using length_all_ext [OF wf] length_all_ext [OF assms(1)] i by simp
  have kk: "(k - ndirect) div extentsperblock < snd (indirect f)"
    using assms(2) False length_all_ext [OF assms(1)] P by (simp add: less_mult_imp_div_less mult.commute)
  have "all_ext ?f ! j = (all_ext f)[k := e] ! j" if j: "j < length (all_ext f)" for j
  proof -
    have a: "all_ext ?f ! j = ext_at ?f (ind_at f j) j" using all_ext_nth [OF wf, of j] len j i by (simp add: ind_at_def)
    have b: "all_ext f ! j = ext_at f (ind_at f j) j" by (rule all_ext_nth [OF assms(1) j])
    show ?thesis
    proof (cases "j < ndirect")
      case True
      then show ?thesis using a b False i by (simp add: ext_at_def nth_list_update)
    next
      case jd: False
      show ?thesis
      proof (cases "(j - ndirect) div extentsperblock = (k - ndirect) div extentsperblock")
        case same: True
        have l: "length (blk f (fst (indirect f) + (k - ndirect) div extentsperblock)) = extentsperblock"
          using assms(1) kk by (simp add: wf_file_def)
        have "j = k \<longleftrightarrow> (j - ndirect) mod extentsperblock = (k - ndirect) mod extentsperblock"
          using same jd False by (metis div_mult_mod_eq le_add_diff_inverse not_less)
        then show ?thesis using a b jd False same l P assms(2)
          by (auto simp: ext_at_def ind_at_def set_ext_def nth_list_update)
      next
        case diff: False
        then have "j \<noteq> k" by auto
        then show ?thesis using a b jd False diff by (simp add: ext_at_def ind_at_def set_ext_def)
      qed
    qed
  qed
  then show ?thesis using wf len by (simp add: list_eq_iff_nth_eq)
qed

lemma errbn_simps: "errbn E_FBIG = 2 ^ 32 - 27" "errbn E_NOSPC = 2 ^ 32 - 28" "errbn E_MINERROR = 2 ^ 32 - 100"
  by (simp_all add: errbn_def errno)

lemma allocate_extent_spec:
  assumes "length v = 512" "avail 0" "avail fbb_bn" "0 < count" "count \<le> 2 ^ 15"
  shows "\<exists>r v'. allocate_extent avail fbb_bn count v = Some (r, v') \<and> length v' = 512 \<and>
     (if r \<ge> errbn E_MINERROR then r = errbn E_NOSPC \<and> v' = v \<and> (\<forall>x. \<not> free_run v count x)
      else free_run v count r \<and> (\<forall>x < r. \<not> free_run v count x) \<and>
        (\<forall>k. bs_bit v' k = (if r \<le> k \<and> k < r + count then False else bs_bit v k)))"
proof -
  obtain r where r: "find_free_range v count 0 = Some r"
    "if r = 2 ^ 32 - 1 then \<forall>x \<ge> 0. \<not> free_run v count x
     else 0 \<le> r \<and> free_run v count r \<and> (\<forall>x. 0 \<le> x \<and> x < r \<longrightarrow> \<not> free_run v count x)"
    using find_free_range_correct [OF assms(4), of 0 v] by auto
  show ?thesis
  proof (cases "r = 2 ^ 32 - 1")
    case True
    then have "allocate_extent avail fbb_bn count v = Some (errbn E_NOSPC, v)" using assms r(1) by (simp add: allocate_extent_def)
    then show ?thesis using r(2) True assms(1) by (simp add: errbn_simps)
  next
    case False
    then have f: "free_run v count r" "\<And>x. x < r \<Longrightarrow> \<not> free_run v count x" using r(2) by auto
    then have b: "r + count \<le> 2 ^ 15" by (simp add: free_run_def bitsperblock_def)
    obtain v' where "take_marks v r count = Some v'" "length v' = 512"
      "\<forall>k. bs_bit v' k = (if r \<le> k \<and> k < r + count then False else bs_bit v k)" using marks_correct(2) [OF assms(1) b] by blast
    then show ?thesis using False f assms r(1) b by (simp add: allocate_extent_def errbn_simps)
  qed
qed

lemma bits_eqI:
  assumes "length v = 512" "length w = 512" "\<And>k. k < 2 ^ 15 \<Longrightarrow> bs_bit v k = bs_bit w k"
  shows "v = w"
proof (rule nth_equalityI)
  fix i assume i: "i < length v"
  show "v ! i = w ! i"
  proof (rule bit_word_eqI)
    fix n assume n: "n < LENGTH(64)"
    have "64 * i + n < 2 ^ 15" using i n assms(1) by simp
    from assms(3) [OF this] n show "bit (v ! i) n = bit (w ! i) n" by (simp add: bs_bit_def)
  qed
qed (simp add: assms)

definition small_ext :: "extent \<Rightarrow> bool" where
  "small_ext e \<longleftrightarrow> fst e \<noteq> 0 \<and> fst e + snd e < 2 ^ 32"

text \<open>The result of adding an extent at the end of a file.\<close>

definition appended :: "fsfile \<Rightarrow> nat \<Rightarrow> nat \<Rightarrow> int \<Rightarrow> fsfile \<Rightarrow> bool" where
  "appended f first count r f' \<longleftrightarrow> wf_file f' \<and> clean_tail (all_ext f') \<and> (\<forall>e \<in> set (exts_of (all_ext f')). small_ext e) \<and>
     (if r = 0 then file_blocks f' = file_blocks f @ [first..<first + count]
      else (r = E_NOSPC \<or> r = E_NOMEM \<or> r = E_FBIG) \<and> file_blocks f' = file_blocks f)"

lemma fi_ok_append:
  assumes "clean_tail es" "k = length (exts_of es)" "k < length es" "snd e \<noteq> 0"
    and "all_ext f' = es[k := e]" "eoff it = blocksize * length (blocks_of es)" "eidx it = k" "k \<ge> ndirect \<longrightarrow> ind it = ind_at f' k"
  shows "fi_ok f' it"
proof -
  have "ext_start (es[k := e]) k = ext_start es k" using exts_append(1) [of es e] assms(1-4) by (simp add: ext_start_def)
  then show ?thesis using assms exts_append(1) [of es e] by (simp add: fi_ok_def length_blocks)
qed

lemma fi_ok_grow:
  assumes "clean_tail es" "k = length (exts_of es)" "0 < k" "snd e \<noteq> 0"
    and "all_ext f' = es[k - 1 := e]" "eoff it = blocksize * length (blocks_of es) - snd (es ! (k - 1)) * blocksize"
    and "eidx it = k - 1" "k - 1 \<ge> ndirect \<longrightarrow> ind it = ind_at f' (k - 1)"
  shows "fi_ok f' it"
proof -
  have n: "k - 1 < length (exts_of es)" using assms(2,3) by simp
  have g: "exts_of (es[k - 1 := e]) = butlast (exts_of es) @ [e]" using exts_grow(1) [of es e] assms(1-4) by simp
  have "take (k - 1) (butlast (exts_of es) @ [e]) = take (k - 1) (exts_of es)" using assms(2) by (simp add: butlast_conv_take)
  then have a: "ext_start (es[k - 1 := e]) (k - 1) = ext_start es (k - 1)" unfolding ext_start_def g by (simp only:)
  have "length (blocks_of es) = ext_start es (k - 1) + snd (es ! (k - 1))"
    using ext_start_Suc [OF n] assms(2,3) by (simp add: length_blocks)
  then have "eoff it = blocksize * ext_start es (k - 1)" using assms(6) by (simp add: algebra_simps)
  then show ?thesis using assms(2,5,7,8) a g exts_nth [OF n] n by (simp add: fi_ok_def)
qed

lemma fi_add_spec:
  assumes "wf_file f" "clean_tail (all_ext f)" "\<forall>e \<in> set (exts_of (all_ext f)). small_ext e"
    and n: "eidx it = length (exts_of (all_ext f))" "eidx it < length (all_ext f)" "eidx it \<ge> ndirect \<longrightarrow> ind it = ind_at f (eidx it)"
    and o: "eoff it = blocksize * length (file_blocks f)" and c: "first \<noteq> 0" "count \<noteq> 0" "first + count < 2 ^ 32"
  shows "\<exists>f' it'. fi_add first count f it = (f', it') \<and> appended f first count 0 f' \<and> fi_ok f' it'"
proof -
  let ?E = "all_ext f" and ?k = "eidx it"
  let ?p = "ext_at f (ind it) (?k - 1)"
  show ?thesis
  proof (cases "?k \<ge> ndirect \<and> (?k - ndirect) mod extentsperblock \<noteq> 0 \<and> (fst ?p + snd ?p) mod 2 ^ 32 = first")
    case True
    then have "?k - ndirect \<noteq> 0" by (metis mod_0)
    then have k: "?k - ndirect = Suc (?k - 1 - ndirect)" "\<not> ?k - 1 < ndirect" "0 < ?k" by linarith+
    have i: "ind it = ind_at f (?k - 1)" using n(3) k True by (simp add: ind_at_def div_Suc)
    have p: "?p = ?E ! (?k - 1)" using all_ext_nth [OF assms(1), of "?k - 1"] i n(2) by simp
    have "?E ! (?k - 1) \<in> set (exts_of ?E)" using exts_nth [of "?k - 1" ?E] n(1) k(3) by (metis diff_less nth_mem zero_less_one)
    then have sm: "fst ?p \<noteq> 0" "fst ?p + snd ?p < 2 ^ 32" using assms(3) p by (auto simp: small_ext_def)
    then have fp: "first = fst ?p + snd ?p" "(snd ?p + count) mod 2 ^ 32 = snd ?p + count" using True c(3) by simp_all
    let ?f = "set_ext f (ind_at f (?k - 1)) (?k - 1) (fst ?p, snd ?p + count)"
    let ?it = "it\<lparr>live := True, eidx := ?k - 1, eoff := eoff it - snd ?p * blocksize\<rparr>"
    have A: "fi_add first count f it = (?f, ?it)" using True fp(2) i by (simp add: fi_add_def Let_def)
    have S: "wf_file (set_ext f (ind_at f (?k - 1)) (?k - 1) (fst ?p, snd ?p + count))"
      "all_ext (set_ext f (ind_at f (?k - 1)) (?k - 1) (fst ?p, snd ?p + count)) = ?E[?k - 1 := (fst ?p, snd ?p + count)]"
      using set_ext_all_ext [OF assms(1), of "?k - 1"] n(2) by auto
    have "ind_at ?f = ind_at f" by (rule ext) (simp add: ind_at_def set_ext_def)
    then have "fi_ok ?f ?it"
      by (intro fi_ok_grow [OF assms(2) n(1) k(3) _ S(2)]) (use o c p i in \<open>simp_all add: file_blocks_def\<close>)
    moreover have "appended f first count 0 ?f" unfolding appended_def file_blocks_def S(2)
      using S(1) blocks_grow [of ?E "fst ?p" "snd ?p" first count] exts_grow [of ?E "(fst ?p, snd ?p + count)"]
        assms(2,3) n(1) k(3) p sm fp c by (auto simp: small_ext_def dest: in_set_butlastD)
    ultimately show ?thesis using A by blast
  next
    case False
    let ?f = "set_ext f (ind_at f ?k) ?k (first, count)"
    have "set_ext f (ind it) ?k (first, count) = ?f" using n(3) by (auto simp: set_ext_def)
    then have A: "fi_add first count f it = (?f, it\<lparr>live := True\<rparr>)" using False by (auto simp: fi_add_def Let_def)
    have S: "wf_file (set_ext f (ind_at f ?k) ?k (first, count))" "all_ext (set_ext f (ind_at f ?k) ?k (first, count)) = ?E[?k := (first, count)]"
      using set_ext_all_ext [OF assms(1) n(2)] by auto
    have "ind_at ?f = ind_at f" by (rule ext) (simp add: ind_at_def set_ext_def)
    then have "fi_ok ?f (it\<lparr>live := True\<rparr>)"
      by (intro fi_ok_append [OF assms(2) n(1,2) _ S(2)]) (use o c n(3) in \<open>simp_all add: file_blocks_def\<close>)
    moreover have "appended f first count 0 ?f" unfolding appended_def file_blocks_def S(2)
      using S(1) blocks_append [of ?E count first] exts_append [of ?E "(first, count)"] assms(2,3) n(1,2) c by (auto simp: small_ext_def)
    ultimately show ?thesis using A by blast
  qed
qed

text \<open>The iterator stands after the last block: past the extents, or at the end marker.\<close>

definition end_pos :: "fsfile \<Rightarrow> fileiter \<Rightarrow> bool" where
  "end_pos f it \<longleftrightarrow> (live it \<longrightarrow> eidx it < length (all_ext f)) \<and> eidx it = length (exts_of (all_ext f)) \<and>
     eoff it = blocksize * length (file_blocks f) \<and>
     (eidx it \<ge> ndirect \<longrightarrow> ind it = (if eidx it < length (all_ext f) then ind_at f (eidx it) else None))"

lemma at_end_pos: "at_end f it \<Longrightarrow> end_pos f it"
  by (simp add: at_end_def end_pos_def)

lemma end_pos_ok: "end_pos f it \<Longrightarrow> fi_ok f it"
  by (auto simp: end_pos_def fi_ok_def file_blocks_def length_blocks)

lemma end_pos_eptr: "wf_file f \<Longrightarrow> end_pos f it \<Longrightarrow> \<not> live it \<or> snd (eptr f it) = 0"
  using all_ext_nth [of f "eidx it"] exts_end [of "all_ext f"] by (auto simp: end_pos_def ext_at_def)

lemma fi_insert_spec:
  assumes wf: "wf_file f" "clean_tail (all_ext f)" "\<forall>e \<in> set (exts_of (all_ext f)). small_ext e"
    and it: "end_pos f it" and v: "length (fbb f) = 512" "avail 0" "avail fbb_bn"
    and c: "first \<noteq> 0" "count \<noteq> 0" "first + count < 2 ^ 32"
  shows "\<exists>r f' it'. fi_insert avail fbb_bn True first count f it = Some (r, f', it') \<and> appended f first count r f' \<and> fi_ok f' it'"
proof -
  let ?E = "all_ext f" and ?k = "eidx it" and ?p = "direct f ! (eidx it - 1)"
  have E: "\<not> live it \<or> snd (eptr f it) = 0" "?k = length (exts_of ?E)" "eoff it = blocksize * length (file_blocks f)"
    "?k \<ge> ndirect \<longrightarrow> ind it = (if ?k < length ?E then ind_at f ?k else None)"
    using it end_pos_eptr [OF wf(1) it] by (auto simp: end_pos_def)
  have ok: "fi_ok f it" by (rule end_pos_ok [OF it])
  have m: "eoff it mod blocksize = 0" by (simp add: E(3))
  have len: "length ?E = ndirect + extentsperblock * snd (indirect f)" by (rule length_all_ext [OF wf(1)])
  show ?thesis
  proof (cases "?k > 0 \<and> ?k \<le> ndirect \<and> (fst ?p + snd ?p) mod 2 ^ 32 = first")
    case True
    let ?f = "f\<lparr>direct := (direct f)[?k - 1 := (fst ?p, snd ?p + count)]\<rparr>"
    let ?it = "it\<lparr>live := True, eidx := ?k - 1, eoff := eoff it - snd ?p * blocksize\<rparr>"
    have k: "?k - 1 < ndirect" "0 < ?k" using True by auto
    have ld: "length (direct f) = ndirect" using wf(1) by (simp add: wf_file_def)
    have p: "?p = ?E ! (?k - 1)" using k ld by (simp add: all_ext_def nth_append)
    have "?E ! (?k - 1) \<in> set (exts_of ?E)" using exts_nth [of "?k - 1" ?E] E(2) k(2) by (metis diff_less nth_mem zero_less_one)
    then have sm: "fst ?p \<noteq> 0" "fst ?p + snd ?p < 2 ^ 32" using wf(3) p by (auto simp: small_ext_def)
    then have fp: "first = fst ?p + snd ?p" "(snd ?p + count) mod 2 ^ 32 = snd ?p + count" using True c(3) by simp_all
    have A: "fi_insert avail fbb_bn True first count f it = Some (0, ?f, ?it)"
      using True E(1) m c(2) fp(2) by (simp add: fi_insert_def Let_def)
    have S: "wf_file ?f" "all_ext ?f = ?E[?k - 1 := (fst ?p, snd ?p + count)]" using direct_all_ext [OF wf(1) k(1)] by auto
    have "fi_ok ?f ?it"
      by (intro fi_ok_grow [OF wf(2) E(2) k(2) _ S(2)]) (use E(3) c p k(1) in \<open>simp_all add: file_blocks_def\<close>)
    moreover have "appended f first count 0 ?f" unfolding appended_def file_blocks_def S(2)
      using S(1) blocks_grow [of ?E "fst ?p" "snd ?p" first count] exts_grow [of ?E "(fst ?p, snd ?p + count)"]
        wf(2,3) E(2) k(2) p sm fp c by (auto simp: small_ext_def dest: in_set_butlastD)
    ultimately show ?thesis using A by blast
  next
    case False
    then have I: "fi_insert avail fbb_bn True first count f it =
       (case fi_indirect avail fbb_bn f it of
          None \<Rightarrow> None
        | Some (r, f', it') \<Rightarrow>
            if r \<noteq> 0 then Some (r, f', it')
            else if eidx it' \<ge> ndirect \<and> ind it' = None then Some (E_FBIG, f', it')
            else (case fi_add first count f' it' of (f'', it'') \<Rightarrow> Some (0, f'', it'')))"
      using E(1) m c(2) by (auto simp: fi_insert_def Let_def)
    show ?thesis
    proof (cases "?k = ndirect \<and> snd (indirect f) = 0")
      case fresh: True
      have "ind it = None" using E(4) fresh len by simp
      moreover obtain b w where bw: "allocate_extent avail fbb_bn 1 (fbb f) = Some (b, w)"
        "b \<ge> errbn E_MINERROR \<Longrightarrow> b = errbn E_NOSPC" using allocate_extent_spec [OF v, of 1] by (auto split: if_splits)
      ultimately have F: "fi_indirect avail fbb_bn f it =
         (if b \<ge> errbn E_MINERROR then Some (int b - 2 ^ 32, f\<lparr>fbb := w\<rparr>, it)
          else if \<not> avail b then Some (E_NOMEM, f\<lparr>fbb := w\<rparr>, it)
          else Some (0, f\<lparr>fbb := w, blk := (blk f)(b := replicate extentsperblock (0, 0)), indirect := (b, 1)\<rparr>, it\<lparr>ind := Some b\<rparr>))"
        using fresh by (simp add: fi_indirect_def)
      have same: "wf_file (f\<lparr>fbb := w\<rparr>)" "all_ext (f\<lparr>fbb := w\<rparr>) = ?E" using wf(1) by (simp_all add: wf_file_def all_ext_def)
      then have err: "appended f first count r (f\<lparr>fbb := w\<rparr>) \<and> fi_ok (f\<lparr>fbb := w\<rparr>) it" if "r = E_NOSPC \<or> r = E_NOMEM" for r
        using that wf(2,3) ok by (auto simp: appended_def file_blocks_def fi_ok_def ind_at_def errno)
      show ?thesis
      proof (cases "b \<ge> errbn E_MINERROR")
        case True
        then have "b = 2 ^ 32 - 28" using bw(2) by (simp only: errbn_simps)
        then have "int b - 2 ^ 32 = E_NOSPC" by (simp add: errno)
        then show ?thesis using I F True err [of E_NOSPC] by (simp add: errno)
      next
        case nb: False
        show ?thesis
        proof (cases "avail b")
          case False
          then show ?thesis using I F nb err [of E_NOMEM] by (simp add: errno)
        next
          case True
          let ?f = "f\<lparr>fbb := w, blk := (blk f)(b := replicate extentsperblock (0, 0)), indirect := (b, 1)\<rparr>"
          let ?it = "it\<lparr>ind := Some b\<rparr>"
          have wf': "wf_file ?f" using wf(1) by (simp add: wf_file_def)
          have X: "all_ext ?f = ?E @ replicate extentsperblock (0, 0)" using fresh by (simp add: all_ext_def)
          have xe: "exts_of (all_ext ?f) = exts_of ?E" unfolding X
            using E(2) fresh len exts_split [of ?E] exts_all [of _ ?E]
            by (intro trans [OF arg_cong [of _ _ exts_of] exts_of_append [of "exts_of ?E" "replicate extentsperblock (0, 0)"]]) auto
          have "length (exts_of ?E) = length ?E" using E(2) fresh len by simp
          then have ct: "clean_tail (all_ext ?f)" unfolding clean_tail_def xe unfolding X by (simp del: replicate.simps)
          have fb: "file_blocks ?f = file_blocks f" unfolding file_blocks_def blocks_of_def xe ..
          obtain f' it' where A: "fi_add first count ?f ?it = (f', it')" "appended ?f first count 0 f'" "fi_ok f' it'"
            using fi_add_spec [OF wf' ct, of ?it first count] wf(3) xe E(2,3) fresh len c fb X by (auto simp: ind_at_def kconst)
          then have "fi_insert avail fbb_bn True first count f it = Some (0, f', it')" using I F nb True fresh by simp
          moreover have "appended f first count 0 f'" using A(2) fb by (simp add: appended_def)
          ultimately show ?thesis using A(3) by blast
        qed
      qed
    next
      case old: False
      then have F: "fi_indirect avail fbb_bn f it = Some (0, f, it)" by (auto simp: fi_indirect_def)
      show ?thesis
      proof (cases "?k < length ?E")
        case True
        obtain f' it' where A: "fi_add first count f it = (f', it')" "appended f first count 0 f'" "fi_ok f' it'"
          using fi_add_spec [OF wf E(2) True _ E(3) c] E(4) True by auto
        moreover have "\<not> (?k \<ge> ndirect \<and> ind it = None)" using E(4) True by (auto simp: ind_at_def)
        ultimately show ?thesis using I F by auto
      next
        case False
        then have "?k \<ge> ndirect" "ind it = None" using len E(4) by auto
        then have "fi_insert avail fbb_bn True first count f it = Some (E_FBIG, f, it)" using I F by simp
        moreover have "appended f first count E_FBIG f" using wf by (simp add: appended_def errno)
        ultimately show ?thesis using ok by blast
      qed
    qed
  qed
qed

text \<open>An insertion only takes blocks.\<close>

lemma fi_add_fbb: "fbb (fst (fi_add first count f it)) = fbb f"
  by (simp add: fi_add_def Let_def set_ext_def)

lemma fi_insert_fbb:
  assumes v: "length (fbb f) = 512" "avail 0" "avail fbb_bn" and i: "fi_insert avail fbb_bn True first count f it = Some (r, f', it')"
  shows "length (fbb f') = 512 \<and> (\<forall>k. bs_bit (fbb f') k \<longrightarrow> bs_bit (fbb f) k)"
proof -
  have I: "length (fbb g) = 512 \<and> (\<forall>k. bs_bit (fbb g) k \<longrightarrow> bs_bit (fbb f) k)"
    if "fi_indirect avail fbb_bn f it = Some (q, g, h)" for q g h
  proof (cases "eidx it = ndirect \<and> snd (indirect f) = 0")
    case True
    obtain b w where bw: "allocate_extent avail fbb_bn 1 (fbb f) = Some (b, w)" "length w = 512"
      "\<forall>k. bs_bit w k \<longrightarrow> bs_bit (fbb f) k" using allocate_extent_spec [OF v, of 1] by (auto split: if_splits)
    then have "fbb g = w" using that True by (auto simp: fi_indirect_def split: if_splits)
    then show ?thesis using bw by simp
  next
    case False
    then show ?thesis using that v by (auto simp: fi_indirect_def)
  qed
  show ?thesis
  proof (cases "eidx it > 0 \<and> eidx it \<le> ndirect \<and> (fst (direct f ! (eidx it - 1)) + snd (direct f ! (eidx it - 1))) mod 2 ^ 32 = first")
    case True
    then show ?thesis using i v by (auto simp: fi_insert_def Let_def split: if_splits)
  next
    case False
    then obtain q g h where q: "fi_indirect avail fbb_bn f it = Some (q, g, h)" using i
      by (cases "fi_indirect avail fbb_bn f it") (auto simp: fi_insert_def Let_def split: if_splits)
    then have "fbb f' = fbb g" using i False fi_add_fbb [of first count g h]
      by (auto simp: fi_insert_def Let_def split: if_splits prod.splits)
    then show ?thesis using I [OF q] by simp
  qed
qed

subsection \<open>Properties\<close>

text \<open>
  C24. Extent allocation. For a request of 1 to 32768 blocks \<^verbatim>\<open>allocate_extent\<close> terminates without failing
  an assertion; it gives the lowest run of that many free blocks and marks exactly these taken, or
  \<^verbatim>\<open>E_NOSPC\<close> with the bitmap unchanged when there is no such run. Freeing the extent again gives
  back the same bitmap. A larger request gives \<^verbatim>\<open>E_FBIG\<close>.
\<close>

theorem extent_allocation_correct:
  assumes "length v = 512" "avail 0" "avail fbb_bn" "0 < count"
  shows "\<exists>r v'. allocate_extent avail fbb_bn count v = Some (r, v') \<and>
     (if count > 2 ^ 15 then r = errbn E_FBIG \<and> v' = v
      else if r \<ge> errbn E_MINERROR then r = errbn E_NOSPC \<and> v' = v \<and> (\<forall>x. \<not> free_run v count x)
      else free_run v count r \<and> (\<forall>x < r. \<not> free_run v count x) \<and>
        (\<forall>k. bs_bit v' k \<longleftrightarrow> bs_bit v k \<and> \<not> (r \<le> k \<and> k < r + count)) \<and>
        free_extent avail fbb_bn r count v' = Some v)"
proof (cases "count > 2 ^ 15")
  case True
  then show ?thesis by (simp add: allocate_extent_def)
next
  case False
  then obtain r v' where A: "allocate_extent avail fbb_bn count v = Some (r, v')" "length v' = 512"
    "if r \<ge> errbn E_MINERROR then r = errbn E_NOSPC \<and> v' = v \<and> (\<forall>x. \<not> free_run v count x)
      else free_run v count r \<and> (\<forall>x < r. \<not> free_run v count x) \<and>
        (\<forall>k. bs_bit v' k = (if r \<le> k \<and> k < r + count then False else bs_bit v k))"
    using allocate_extent_spec [of v avail fbb_bn count] assms by auto
  show ?thesis
  proof (cases "r \<ge> errbn E_MINERROR")
    case True
    then show ?thesis using A False by auto
  next
    case ok: False
    then have f: "free_run v count r" and b: "\<And>k. bs_bit v' k = (if r \<le> k \<and> k < r + count then False else bs_bit v k)" using A(3) by auto
    have "r + count \<le> 2 ^ 15" using f by (simp add: free_run_def bitsperblock_def)
    then obtain w where w: "free_marks v' r count = Some w" "length w = 512"
      "\<And>k. bs_bit w k = (if r \<le> k \<and> k < r + count then True else bs_bit v' k)" using marks_correct(1) [OF A(2)] by blast
    have "w = v" by (rule bits_eqI [OF w(2) assms(1)]) (use w(3) b f in \<open>auto simp: free_run_def\<close>)
    then have "free_extent avail fbb_bn r count v' = Some v" using w(1) assms by (simp add: free_extent_def)
    then show ?thesis using A ok False b by auto
  qed
qed

theorem extent_allocation_correct_witness:
  "\<exists>r v'. allocate_extent (\<lambda>b. True) 2 3 (replicate 512 (- 1)) = Some (r, v')"
  using extent_allocation_correct [of "replicate 512 (- 1)" "\<lambda>b. True" 2 3] by auto

text \<open>
  C25. Positioning. From any state the iterator can be in, \<^verbatim>\<open>find(off)\<close> terminates; the iterator is active
  exactly when \<open>off\<close> lies in the extents of the file, and \<^verbatim>\<open>blocknum()\<close> is the block that holds byte
  \<open>off\<close> in the sequence of the file's blocks, or 0 past the end. This holds for direct and indirect
  extents and for moves in both directions; it needs the indirect blocks to be available.
\<close>

theorem fileiter_find_correct:
  assumes "wf_file f" "\<forall>k < snd (indirect f). avail (fst (indirect f) + k)" "fi_ok f it"
  shows "\<exists>it'. fi_find avail f it offs = Some it' \<and> off it' = offs \<and> fi_ok f it' \<and>
     (fi_active f it' \<longleftrightarrow> offs < blocksize * length (file_blocks f)) \<and>
     fi_blocknum f it' = (if offs < blocksize * length (file_blocks f) then file_blocks f ! (offs div blocksize) mod 2 ^ 32 else 0)"
proof -
  obtain it' where "fi_find avail f it offs = Some it'" "off it' = offs" "fi_ok f it'"
    "if offs < blocksize * length (file_blocks f) then at_block f it' else at_end f it'"
    using fi_find_spec [OF assms] by blast
  then show ?thesis using at_block_blocknum [OF assms(1), of it'] at_end_blocknum [of f it']
    by (cases "offs < blocksize * length (file_blocks f)") auto
qed

definition demo_file :: fsfile where
  "demo_file = \<lparr>direct = [(10, 2), (20, 1), (0, 0), (0, 0)], indirect = (0, 0), blk = (\<lambda>b. []), fbb = replicate 512 (- 1)\<rparr>"

theorem fileiter_find_correct_witness:
  "\<exists>it'. fi_find (\<lambda>b. True) demo_file fi_new 8192 = Some it' \<and> fi_blocknum demo_file it' = 20"
  using fileiter_find_correct [of demo_file "\<lambda>b. True" fi_new 8192]
  by (auto simp: demo_file_def wf_file_def fi_ok_def fi_new_def ndirect_def all_ext_def file_blocks_def blocks_of_def
      exts_of_def ext_blocks_def ext_start_def blocksize_def upt_rec)

text \<open>
  C26. Growing a file. When the iterator stands past the last block, \<^verbatim>\<open>insert(first, count)\<close> either returns 0
  and the file's blocks are the old ones followed by \<open>first, ..., first + count - 1\<close>, or returns
  \<^verbatim>\<open>E_NOSPC\<close>, \<^verbatim>\<open>E_NOMEM\<close> or \<^verbatim>\<open>E_FBIG\<close> and the file's blocks are the old ones: growing the last extent,
  using a new direct or indirect extent, and allocating the indirect block all amount to this. The
  layout invariant is kept and the iterator can be used on. It holds for files with no hole extents
  whose block numbers fit in 32 bits.
\<close>

theorem fileiter_insert_appends:
  assumes "wf_file f" "clean_tail (all_ext f)" "\<forall>e \<in> set (exts_of (all_ext f)). small_ext e"
    and "\<forall>k < snd (indirect f). avail (fst (indirect f) + k)" "fi_ok f it" "offs \<ge> blocksize * length (file_blocks f)"
    and "length (fbb f) = 512" "avail 0" "avail fbb_bn" "0 < first" "0 < count" "first + count < 2 ^ 32"
  shows "\<exists>it1 r f' it'. fi_find avail f it offs = Some it1 \<and>
     fi_insert avail fbb_bn True first count f it1 = Some (r, f', it') \<and>
     (if r = 0 then file_blocks f' = file_blocks f @ [first..<first + count]
      else (r = E_NOSPC \<or> r = E_NOMEM \<or> r = E_FBIG) \<and> file_blocks f' = file_blocks f) \<and>
     wf_file f' \<and> clean_tail (all_ext f') \<and> fi_ok f' it'"
proof -
  obtain it1 where i: "fi_find avail f it offs = Some it1" "at_end f it1" using fi_find_spec [OF assms(1,4,5), of offs] assms(6) by auto
  obtain r f' it' where "fi_insert avail fbb_bn True first count f it1 = Some (r, f', it')" "appended f first count r f'" "fi_ok f' it'"
    using fi_insert_spec [OF assms(1-3) at_end_pos [OF i(2)] assms(7-9), of first count] assms(10-) by auto
  then show ?thesis using i(1) by (intro exI [of _ it1] exI [of _ r] exI [of _ f'] exI [of _ it']) (simp add: appended_def)
qed

theorem fileiter_insert_appends_witness:
  "\<exists>it1 r f' it'. fi_find (\<lambda>b. True) demo_file fi_new 12288 = Some it1 \<and>
     fi_insert (\<lambda>b. True) 2 True 21 1 demo_file it1 = Some (r, f', it') \<and>
     (if r = 0 then file_blocks f' = file_blocks demo_file @ [21] else file_blocks f' = file_blocks demo_file)"
proof -
  have "wf_file demo_file" "fi_ok demo_file fi_new" "length (fbb demo_file) = 512" "snd (indirect demo_file) = 0"
    by (simp_all add: demo_file_def wf_file_def fi_ok_def fi_new_def ndirect_def all_ext_def ext_start_def exts_of_def)
  moreover have "all_ext demo_file = [(10, 2), (20, 1), (0, 0), (0, 0)]" by (simp add: demo_file_def all_ext_def)
  ultimately show ?thesis using fileiter_insert_appends [of demo_file "\<lambda>b. True" fi_new 12288 2 21 1]
    by (auto simp: clean_tail_def exts_of_def small_ext_def file_blocks_def blocks_of_def ext_blocks_def blocksize_def split: if_splits)
qed

end
