(* ===== verification/RWLock.thy ===== *)
theory RWLock
  imports Prelude
begin

text \<open>
  The read/write spinlock of inodes (\<^verbatim>\<open>chkfs::inode::lock_read\<close> and its companions) and its copy
  \<^verbatim>\<open>struct rwlock\<close>, both in \<^verbatim>\<open>k-chkfs.cc\<close>. The lock is one byte: 0 free, 255 held by a writer, any other
  value the number of readers. Threads interleave at the atomic operations: each load, each
  \<^verbatim>\<open>compare_exchange_weak\<close> (which may fail for no reason) and each store is one step. The program
  counter of a thread says where in the four functions it is and what value \<^verbatim>\<open>v\<close> it has loaded.
  The inode version of \<^verbatim>\<open>lock_write\<close> asserts first that no writer holds the lock; the copy does not.
  A failed assertion is \<open>None\<close>.
\<close>

datatype rw_pc = Idle | ReadTry u8 | WriteTry | Reading | Writing | ReadUndo u8

record rwlock =
  mlock :: u8
  pcs :: "rw_pc list"

datatype rw_action = CallRead | CallWrite | Step bool | CallUnlock

abbreviation set_pc :: "nat \<Rightarrow> rw_pc \<Rightarrow> rwlock \<Rightarrow> rwlock" where
  "set_pc t p s \<equiv> s\<lparr>pcs := (pcs s)[t := p]\<rparr>"

definition has_write_lock :: "rwlock \<Rightarrow> bool" where
  "has_write_lock s \<longleftrightarrow> mlock s = - 1"

text \<open>One step inside \<^verbatim>\<open>lock_read\<close>, after \<^verbatim>\<open>v\<close> was loaded.\<close>

definition lock_read_step :: "nat \<Rightarrow> u8 \<Rightarrow> bool \<Rightarrow> rwlock \<Rightarrow> rwlock" where
  "lock_read_step t v spurious s =
     (if v \<ge> - 2 then set_pc t (ReadTry (mlock s)) s
      else if mlock s = v \<and> \<not> spurious then set_pc t Reading (s\<lparr>mlock := v + 1\<rparr>)
      else set_pc t (ReadTry (mlock s)) s)"

definition lock_write_step :: "nat \<Rightarrow> bool \<Rightarrow> rwlock \<Rightarrow> rwlock" where
  "lock_write_step t spurious s =
     (if mlock s = 0 \<and> \<not> spurious then set_pc t Writing (s\<lparr>mlock := - 1\<rparr>) else s)"

definition unlock_read_step :: "nat \<Rightarrow> u8 \<Rightarrow> bool \<Rightarrow> rwlock \<Rightarrow> rwlock" where
  "unlock_read_step t v spurious s =
     (if mlock s = v \<and> \<not> spurious then set_pc t Idle (s\<lparr>mlock := v - 1\<rparr>)
      else set_pc t (ReadUndo (mlock s)) s)"

definition unlock_read_call :: "nat \<Rightarrow> rwlock \<Rightarrow> rwlock option" where
  "unlock_read_call t s = check (mlock s \<noteq> 0 \<and> mlock s \<noteq> - 1) (Some (set_pc t (ReadUndo (mlock s)) s))"

definition unlock_write :: "nat \<Rightarrow> rwlock \<Rightarrow> rwlock option" where
  "unlock_write t s = check (has_write_lock s) (Some (set_pc t Idle (s\<lparr>mlock := 0\<rparr>)))"

text \<open>
  Thread \<open>t\<close> acts. \<open>asserting\<close> distinguishes the inode lock from the copy. An action that does not
  fit where the thread is leaves the state alone.
\<close>

fun rw_exec :: "bool \<Rightarrow> nat \<Rightarrow> rw_action \<Rightarrow> rwlock \<Rightarrow> rwlock option" where
  "rw_exec asserting t a s =
     (case (pcs s ! t, a) of
        (Idle, CallRead) \<Rightarrow> Some (set_pc t (ReadTry (mlock s)) s)
      | (Idle, CallWrite) \<Rightarrow> check (\<not> (asserting \<and> has_write_lock s)) (Some (set_pc t WriteTry s))
      | (ReadTry v, Step spurious) \<Rightarrow> Some (lock_read_step t v spurious s)
      | (WriteTry, Step spurious) \<Rightarrow> Some (lock_write_step t spurious s)
      | (ReadUndo v, Step spurious) \<Rightarrow> Some (unlock_read_step t v spurious s)
      | (Reading, CallUnlock) \<Rightarrow> unlock_read_call t s
      | (Writing, CallUnlock) \<Rightarrow> unlock_write t s
      | _ \<Rightarrow> Some s)"

inductive rw_reach :: "bool \<Rightarrow> nat \<Rightarrow> rwlock \<Rightarrow> bool" for asserting n where
  rw_start: "rw_reach asserting n \<lparr>mlock = 0, pcs = replicate n Idle\<rparr>"
| rw_act: "rw_reach asserting n s \<Longrightarrow> t < n \<Longrightarrow> rw_exec asserting t a s = Some s' \<Longrightarrow> rw_reach asserting n s'"

subsection \<open>The invariant\<close>

text \<open>A reader holds the lock until the exchange in \<^verbatim>\<open>unlock_read\<close> succeeds.\<close>

fun reader :: "rw_pc \<Rightarrow> bool" where
  "reader Reading = True" | "reader (ReadUndo v) = True" | "reader _ = False"

definition readers :: "rwlock \<Rightarrow> nat" where
  "readers s = length (filter reader (pcs s))"

definition writers :: "rwlock \<Rightarrow> nat" where
  "writers s = length (filter (\<lambda>p. p = Writing) (pcs s))"

definition rw_inv :: "rwlock \<Rightarrow> bool" where
  "rw_inv s \<longleftrightarrow> (if mlock s = - 1 then writers s = 1 \<and> readers s = 0 else writers s = 0 \<and> readers s = unat (mlock s))"

lemma counts_update:
  "t < length (pcs s) \<Longrightarrow> readers (set_pc t p s) + (if reader (pcs s ! t) then 1 else 0) = readers s + (if reader p then 1 else 0)"
  "t < length (pcs s) \<Longrightarrow> writers (set_pc t p s) + (if pcs s ! t = Writing then 1 else 0) = writers s + (if p = Writing then 1 else 0)"
  using length_filter_update [of t "pcs s" reader p] length_filter_update [of t "pcs s" "\<lambda>p. p = Writing" p]
  by (auto simp: readers_def writers_def)

lemma u8_max: "unat (- 1 :: u8) = 255"
  by (simp add: unsigned_minus_1_eq_mask mask_eq_exp_minus_1)

lemma u8_succ: "\<not> v \<ge> (- 2 :: u8) \<Longrightarrow> unat (v + 1) = unat v + 1 \<and> v + 1 \<noteq> - 1"
proof -
  assume "\<not> v \<ge> - 2"
  then have l: "unat v < 254" by (simp add: word_le_nat_alt)
  then have u: "unat (v + 1) = unat v + 1" using unat_add_lem [of v 1] by simp
  moreover have "v + 1 \<noteq> - 1"
  proof
    assume "v + 1 = - 1"
    then have "unat (v + 1) = 255" by (simp only: u8_max)
    then show False using u l by simp
  qed
  ultimately show ?thesis by simp
qed

lemma u8_pred: "v \<noteq> (0 :: u8) \<Longrightarrow> v \<noteq> - 1 \<Longrightarrow> unat (v - 1) = unat v - 1 \<and> v - 1 \<noteq> - 1"
  using unat_minus_one [of v] by (metis add.commute diff_add_cancel add.right_inverse)

lemma counts_pos: "t < length (pcs s) \<Longrightarrow> reader (pcs s ! t) \<Longrightarrow> 0 < readers s"
  "t < length (pcs s) \<Longrightarrow> pcs s ! t = Writing \<Longrightarrow> 0 < writers s"
  using nth_mem [of t "pcs s"] unfolding readers_def writers_def by (auto simp: filter_empty_conv)

text \<open>A reader keeps the byte strictly between free and held by a writer.\<close>

lemma reader_byte: "rw_inv s \<Longrightarrow> t < length (pcs s) \<Longrightarrow> reader (pcs s ! t) \<Longrightarrow> mlock s \<noteq> 0 \<and> mlock s \<noteq> - 1"
  using counts_pos(1) [of t s] by (auto simp: rw_inv_def split: if_splits)

lemma writer_byte: "rw_inv s \<Longrightarrow> t < length (pcs s) \<Longrightarrow> pcs s ! t = Writing \<Longrightarrow> mlock s = - 1"
  using counts_pos(2) [of t s] by (auto simp: rw_inv_def split: if_splits)

text \<open>Changing the program counter of a thread that holds nothing to one that holds nothing, or from reader to reader.\<close>

lemma inv_same_holding:
  assumes "rw_inv s" "t < length (pcs s)" "reader p \<longleftrightarrow> reader (pcs s ! t)" "p \<noteq> Writing" "pcs s ! t \<noteq> Writing"
  shows "rw_inv (set_pc t p s)"
  using assms counts_update [OF assms(2), of p] by (simp add: rw_inv_def split: if_splits)

lemma counts_mlock [simp]: "readers (s\<lparr>mlock := v\<rparr>) = readers s" "writers (s\<lparr>mlock := v\<rparr>) = writers s"
  by (simp_all add: readers_def writers_def)

lemma lock_read_inv:
  assumes "rw_inv s" "t < length (pcs s)" "pcs s ! t = ReadTry v"
  shows "rw_inv (lock_read_step t v spurious s)"
proof -
  have r: "rw_inv (set_pc t (ReadTry (mlock s)) s)" by (rule inv_same_holding) (use assms in simp_all)
  have "rw_inv (set_pc t Reading (s\<lparr>mlock := v + 1\<rparr>))" if "\<not> v \<ge> - 2" "mlock s = v"
  proof -
    have "mlock s \<noteq> - 1" using that by auto
    then show ?thesis using u8_succ [OF that(1)] assms that counts_update [of t "s\<lparr>mlock := v + 1\<rparr>" Reading] by (simp add: rw_inv_def)
  qed
  then show ?thesis using r by (simp add: lock_read_step_def)
qed

lemma lock_write_inv:
  assumes "rw_inv s" "t < length (pcs s)" "pcs s ! t = WriteTry"
  shows "rw_inv (lock_write_step t spurious s)"
  using assms counts_update [of t "s\<lparr>mlock := - 1\<rparr>" Writing] by (simp add: rw_inv_def lock_write_step_def)

lemma unlock_read_inv:
  assumes "rw_inv s" "t < length (pcs s)" "pcs s ! t = ReadUndo v"
  shows "rw_inv (unlock_read_step t v spurious s)"
proof -
  have r: "rw_inv (set_pc t (ReadUndo (mlock s)) s)" by (rule inv_same_holding) (use assms in simp_all)
  have "rw_inv (set_pc t Idle (s\<lparr>mlock := v - 1\<rparr>))" if "mlock s = v"
  proof -
    have b: "v \<noteq> 0" "v \<noteq> - 1" using reader_byte [OF assms(1,2)] assms(3) that by auto
    then have "0 < unat v" by (simp add: unat_gt_0)
    then show ?thesis using u8_pred [OF b] assms that b counts_update [of t "s\<lparr>mlock := v - 1\<rparr>" Idle] by (simp add: rw_inv_def)
  qed
  then show ?thesis using r by (simp add: unlock_read_step_def)
qed

lemma unlock_write_inv:
  assumes "rw_inv s" "t < length (pcs s)" "pcs s ! t = Writing"
  shows "\<exists>s'. unlock_write t s = Some s' \<and> rw_inv s' \<and> length (pcs s') = length (pcs s)"
proof -
  have "mlock s = - 1" by (rule writer_byte [OF assms])
  then show ?thesis using assms counts_update [of t "s\<lparr>mlock := 0\<rparr>" Idle] by (simp add: rw_inv_def unlock_write_def has_write_lock_def)
qed

lemma rw_exec_inv:
  assumes "rw_inv s" "t < length (pcs s)" "\<not> (asserting \<and> a = CallWrite \<and> mlock s = - 1)"
  shows "\<exists>s'. rw_exec asserting t a s = Some s' \<and> rw_inv s' \<and> length (pcs s') = length (pcs s)"
proof (cases "pcs s ! t")
  case Idle
  then show ?thesis using assms by (cases a) (auto simp: has_write_lock_def intro: inv_same_holding)
next
  case (ReadTry v)
  then show ?thesis using lock_read_inv [OF assms(1,2) ReadTry] assms(1) by (cases a) (auto simp: lock_read_step_def)
next
  case WriteTry
  then show ?thesis using lock_write_inv [OF assms(1,2) WriteTry] assms(1) by (cases a) (auto simp: lock_write_step_def)
next
  case Reading
  then show ?thesis using reader_byte [OF assms(1,2)] assms
    by (cases a) (auto simp: unlock_read_call_def intro: inv_same_holding)
next
  case Writing
  then show ?thesis using unlock_write_inv [OF assms(1,2) Writing] assms(1) by (cases a) auto
next
  case (ReadUndo v)
  then show ?thesis using unlock_read_inv [OF assms(1,2) ReadUndo] assms(1) by (cases a) (auto simp: unlock_read_step_def)
qed

lemma rw_reach_inv: "rw_reach asserting n s \<Longrightarrow> rw_inv s \<and> length (pcs s) = n"
proof (induction rule: rw_reach.induct)
  case rw_start
  have "filter reader (replicate n Idle) = []" "filter (\<lambda>p. p = Writing) (replicate n Idle) = []" by (auto simp: filter_empty_conv)
  then show ?case by (simp add: rw_inv_def readers_def writers_def)
next
  case (rw_act s t a s')
  show ?case
  proof (cases "asserting \<and> a = CallWrite \<and> mlock s = - 1")
    case True
    then have "s' = s" using rw_act.hyps by (auto simp: has_write_lock_def split: rw_pc.splits if_splits)
    then show ?thesis using rw_act.IH by simp
  next
    case False
    then show ?thesis using rw_exec_inv [of s t asserting a] rw_act by auto
  qed
qed

lemma one_writer: "t < length (pcs s) \<Longrightarrow> u < length (pcs s) \<Longrightarrow> pcs s ! t = Writing \<Longrightarrow> pcs s ! u = Writing \<Longrightarrow> writers s \<le> 1 \<Longrightarrow> t = u"
proof (rule ccontr)
  assume a: "t < length (pcs s)" "u < length (pcs s)" "pcs s ! t = Writing" "pcs s ! u = Writing" "writers s \<le> 1" "t \<noteq> u"
  have "0 < writers (set_pc t Idle s)" using counts_pos(2) [of u "set_pc t Idle s"] a by simp
  then show False using counts_update(2) [OF a(1), of Idle] a by simp
qed

text \<open>
  C27. Mutual exclusion. In every interleaving of the atomic operations of any number of threads, with
  spurious failures of the exchanges: a writer excludes every other writer and every reader, the byte is
  the number of readers or 255 for a writer (so the reader count never runs into the writer's mark),
  and the assertions of \<^verbatim>\<open>unlock_read\<close> and \<^verbatim>\<open>unlock_write\<close> hold. The copy \<^verbatim>\<open>rwlock\<close> never fails an
  assertion; the inode lock fails one exactly when a thread calls \<^verbatim>\<open>lock_write\<close> while another holds
  the write lock, which its own waiting loop is there for.
\<close>

theorem rwlock_mutual_exclusion:
  assumes "rw_reach asserting n s" "t < n" "u < n"
  shows "(pcs s ! t = Writing \<and> (pcs s ! u = Writing \<or> reader (pcs s ! u)) \<longrightarrow> t = u) \<and>
    mlock s = (if writers s = 1 then - 1 else of_nat (readers s)) \<and> readers s \<le> 254 \<and>
    (rw_exec asserting t a s = None \<longleftrightarrow> asserting \<and> a = CallWrite \<and> pcs s ! t = Idle \<and> mlock s = - 1)"
proof -
  have I: "rw_inv s" "length (pcs s) = n" using rw_reach_inv [OF assms(1)] by auto
  have "t = u" if "pcs s ! t = Writing" "pcs s ! u = Writing \<or> reader (pcs s ! u)"
  proof -
    have m: "mlock s = - 1" using writer_byte [OF I(1), of t] assms I(2) that by simp
    then have "\<not> reader (pcs s ! u)" using reader_byte [OF I(1), of u] assms I(2) by auto
    then show ?thesis using one_writer [of t s u] that assms I m by (simp add: rw_inv_def)
  qed
  moreover have "mlock s = (if writers s = 1 then - 1 else of_nat (readers s))" using I(1) by (auto simp: rw_inv_def split: if_splits)
  moreover have "readers s \<le> 254"
  proof (cases "mlock s = - 1")
    case False
    have "unat (mlock s) \<noteq> 255"
    proof
      assume "unat (mlock s) = 255"
      then have "unat (mlock s) = unat (- 1 :: u8)" by (simp only: u8_max)
      then show False using False by (simp only: word_unat_eq_iff [symmetric])
    qed
    moreover have "unat (mlock s) < 256" using unsigned_less [of "mlock s", where 'a = nat] by simp
    ultimately show ?thesis using I(1) False by (simp add: rw_inv_def)
  qed (use I(1) in \<open>simp add: rw_inv_def\<close>)
  moreover have "rw_exec asserting t a s = None \<longleftrightarrow> asserting \<and> a = CallWrite \<and> pcs s ! t = Idle \<and> mlock s = - 1"
  proof (cases "asserting \<and> a = CallWrite \<and> mlock s = - 1")
    case True
    then show ?thesis by (auto simp: has_write_lock_def split: rw_pc.splits)
  next
    case False
    then obtain s' where "rw_exec asserting t a s = Some s'" using rw_exec_inv [of s t asserting a] I assms by blast
    then show ?thesis using False by (simp del: rw_exec.simps)
  qed
  ultimately show ?thesis by blast
qed

theorem rwlock_mutual_exclusion_witness:
  "rw_exec True 0 CallWrite \<lparr>mlock = 0, pcs = replicate 2 Idle\<rparr> \<noteq> None"
  using rwlock_mutual_exclusion [OF rw_start, of 0 2 1 True CallWrite] by simp

text \<open>
  C28. Progress. When no thread holds the lock, a thread waiting in \<^verbatim>\<open>lock_write\<close> obtains it with its next
  exchange that does not fail spuriously; when no writer holds it and there are fewer than 254
  readers, a thread waiting in \<^verbatim>\<open>lock_read\<close> obtains it with at most two such steps of its own (one to
  reload the byte), whatever stale value it has loaded, if no other thread acts in between.
\<close>

theorem rwlock_progress:
  assumes "rw_reach asserting n s" "t < n"
  shows "(pcs s ! t = WriteTry \<and> readers s = 0 \<and> writers s = 0 \<longrightarrow>
      (\<exists>s'. rw_exec asserting t (Step False) s = Some s' \<and> pcs s' ! t = Writing)) \<and>
    (\<forall>v. pcs s ! t = ReadTry v \<and> readers s < 254 \<and> writers s = 0 \<longrightarrow>
      (\<exists>s'. rw_exec asserting t (Step False) s = Some s' \<and>
         (pcs s' ! t = Reading \<or> (\<exists>s''. rw_exec asserting t (Step False) s' = Some s'' \<and> pcs s'' ! t = Reading))))"
proof -
  have I: "rw_inv s" "length (pcs s) = n" using rw_reach_inv [OF assms(1)] by auto
  have m: "unat (mlock s) = readers s" if "writers s = 0" using I(1) that by (auto simp: rw_inv_def split: if_splits)
  have "mlock s = 0" if "readers s = 0" "writers s = 0" using m that by (simp add: unat_eq_0)
  moreover have "\<not> mlock s \<ge> - 2" if "readers s < 254" "writers s = 0" using m that by (simp add: word_le_nat_alt)
  ultimately show ?thesis using I(2) assms(2) by (auto simp: lock_write_step_def lock_read_step_def)
qed

theorem rwlock_progress_witness:
  "\<exists>s'. rw_exec False 0 (Step False) \<lparr>mlock = 0, pcs = [WriteTry, Idle]\<rparr> = Some s' \<and> pcs s' ! 0 = Writing"
proof -
  have "rw_reach False 2 \<lparr>mlock = 0, pcs = [WriteTry, Idle]\<rparr>"
    using rw_act [OF rw_start [of False 2], of 0 CallWrite "\<lparr>mlock = 0, pcs = [WriteTry, Idle]\<rparr>"] by (simp add: numeral_2_eq_2)
  from rwlock_progress [OF this, of 0] show ?thesis by (simp add: readers_def writers_def)
qed

end
