(* ===== verification/Keyboard.thy ===== *)
theory Keyboard
  imports Prelude
begin

unbundle bit_operations_syntax

text \<open>
  Keyboard input: the scan code decoder, the line buffer of \<^verbatim>\<open>struct keyboardstate\<close> in \<^verbatim>\<open>k-devices.cc\<close>
  and the reading end in \<^verbatim>\<open>kb_c_vnode::read\<close> of \<^verbatim>\<open>k-vfs.cc\<close>. The bytes the controller has ready are a
  list. Echoing to the console is a trace of what is printed. The wait queue \<^verbatim>\<open>wq_\<close> is the list of the
  tasks that sleep in a read; \<open>kready\<close> are those woken so far, which run their read again. \<open>None\<close> is a
  machine that is powered off or halted.
\<close>

subsection \<open>Scan codes\<close>

definition KEY_SHIFT :: nat where [kconst]: "KEY_SHIFT = 0xFA"
definition KEY_CAPSLOCK :: nat where [kconst]: "KEY_CAPSLOCK = 0xFD"

definition keymap :: "nat list" where
  "keymap =
    [0, 27, 128, 129, 130, 131, 132, 133, 134, 135, 136, 137, 138, 139, 8, 9,
     113, 119, 101, 114, 116, 121, 117, 105, 111, 112, 140, 141, 142, 251, 97, 115,
     100, 102, 103, 104, 106, 107, 108, 143, 144, 145, 250, 146, 122, 120, 99, 118,
     98, 110, 109, 147, 148, 149, 250, 42, 252, 32, 253, 0, 0, 0, 0, 0,
     0, 0, 0, 0, 0, 254, 255, 55, 56, 57, 45, 52, 53, 54, 43, 49,
     50, 51, 48, 46, 0, 0, 0, 0, 0, 0, 0, 0, 0, 0, 0, 0,
     0, 0, 0, 0, 0, 0, 0, 0, 0, 0, 0, 0, 0, 0, 0, 0,
     0, 0, 0, 0, 0, 0, 0, 0, 0, 0, 0, 0, 0, 0, 0, 0,
     0, 0, 0, 0, 0, 0, 0, 0, 0, 0, 0, 0, 0, 0, 0, 0,
     0, 0, 0, 0, 0, 0, 0, 0, 0, 0, 0, 0, 142, 251, 0, 0,
     0, 0, 0, 0, 0, 0, 0, 0, 0, 0, 0, 0, 0, 0, 0, 0,
     0, 0, 0, 0, 0, 47, 0, 0, 252, 0, 0, 0, 0, 0, 0, 0,
     0, 0, 0, 0, 0, 0, 0, 196, 192, 198, 0, 195, 0, 193, 0, 197,
     194, 199, 200, 201, 0, 0, 0, 0, 0, 0, 0, 0, 0, 0, 0, 0,
     0, 0, 0, 0, 0, 0, 0, 0, 0, 0, 0, 0, 0, 0, 0, 0,
     0, 0, 0, 0, 0, 0, 0, 0, 0, 0, 0, 0, 0, 0, 0, 0]"

definition complex_keymap :: "nat list list" where
  "complex_keymap =
    [[49, 33, 0, 0],
     [50, 64, 0, 0],
     [51, 35, 0, 0],
     [52, 36, 0, 0],
     [53, 37, 0, 0],
     [54, 94, 0, 30],
     [55, 38, 0, 0],
     [56, 42, 0, 0],
     [57, 40, 0, 0],
     [48, 41, 0, 0],
     [45, 95, 0, 31],
     [61, 43, 0, 0],
     [91, 123, 27, 0],
     [93, 125, 29, 0],
     [10, 10, 13, 13],
     [59, 58, 0, 0],
     [39, 34, 0, 0],
     [96, 126, 0, 0],
     [92, 124, 28, 0],
     [44, 60, 0, 0],
     [46, 62, 0, 0],
     [47, 63, 0, 0]]"

record kmod =
  modifiers :: u8
  last_escape :: u8

text \<open>\<^verbatim>\<open>keyboard_readc\<close> for the data byte \<open>data\<close>.\<close>

definition readc_release :: "u8 \<Rightarrow> u8 \<Rightarrow> kmod \<Rightarrow> kmod" where
  "readc_release data escape m =
     (let ch = keymap ! unat ((data AND 0x7F) OR escape)
      in if KEY_SHIFT \<le> ch \<and> ch < KEY_CAPSLOCK
         then m\<lparr>modifiers := modifiers m AND NOT (push_bit (ch - KEY_SHIFT) 1)\<rparr> else m)"

definition readc_press :: "u8 \<Rightarrow> u8 \<Rightarrow> kmod \<Rightarrow> nat \<times> kmod" where
  "readc_press data escape m =
     (let ch = keymap ! unat (data OR escape); ctl = modifiers m AND 2 \<noteq> 0
      in if 97 \<le> ch \<and> ch \<le> 122 then
           ((if ctl then ch - 0x60
             else if (modifiers m AND 1 = 0) \<noteq> (modifiers m AND 8 = 0) then ch - 0x20 else ch), m)
         else if KEY_CAPSLOCK \<le> ch then (0, m\<lparr>modifiers := modifiers m XOR push_bit (ch - KEY_SHIFT) 1\<rparr>)
         else if KEY_SHIFT \<le> ch then (0, m\<lparr>modifiers := modifiers m OR push_bit (ch - KEY_SHIFT) 1\<rparr>)
         else if 0x80 \<le> ch \<and> ch \<le> 0x80 + 21 then
           (complex_keymap ! (ch - 0x80) ! unat (modifiers m AND 3), m)
         else if ch < 0x80 \<and> ctl then (0, m)
         else (ch, m))"

definition keyboard_readc :: "u8 \<Rightarrow> kmod \<Rightarrow> nat \<times> kmod" where
  "keyboard_readc data m =
     (let escape = last_escape m; m' = m\<lparr>last_escape := 0\<rparr>
      in if data = 0xE0 then (0, m'\<lparr>last_escape := 0x80\<rparr>)
         else if data AND 0x80 \<noteq> 0 then (0, readc_release data escape m')
         else readc_press data escape m')"

subsection \<open>The line buffer\<close>

datatype kstate = kboot | kinput | kfail

datatype echo = Erase | Show nat

record keyboardstate =
  kbuf :: "nat list"
  kpos :: nat
  klen :: nat
  keol :: nat
  kstate :: kstate
  kmod :: kmod
  screen :: "echo list"
  kwq :: "nat list"
  kready :: "nat list"

definition KBUF :: nat where [kconst]: "KBUF = 256"

definition check_invariants :: "keyboardstate \<Rightarrow> bool" where
  "check_invariants k \<longleftrightarrow> kpos k < KBUF \<and> klen k \<le> KBUF \<and> keol k \<le> klen k"

definition maybe_echo :: "nat \<Rightarrow> keyboardstate \<Rightarrow> keyboardstate" where
  "maybe_echo ch k =
     (if kstate k = kinput then
        (if ch = 0x08 then k\<lparr>screen := screen k @ [Erase]\<rparr>
         else if ch \<noteq> 0x04 then k\<lparr>screen := screen k @ [Show ch]\<rparr>
         else k)
      else k)"

definition normal_char :: "nat \<Rightarrow> bool \<Rightarrow> keyboardstate \<Rightarrow> keyboardstate" where
  "normal_char ch want_eol k =
     (if klen k < KBUF then
        (let k1 = k\<lparr>kbuf := (kbuf k)[(kpos k + klen k) mod KBUF := ch], klen := klen k + 1\<rparr>;
             k2 = (if want_eol then k1\<lparr>keol := klen k1\<rparr> else k1)
         in maybe_echo ch k2)
      else k)"

definition handle_char :: "nat \<Rightarrow> keyboardstate \<Rightarrow> keyboardstate option" where
  "handle_char ch k =
     (if ch = 0 then Some k
      else if ch = 0x08 then Some (if keol k < klen k then maybe_echo ch (k\<lparr>klen := klen k - 1\<rparr>) else k)
      else if ch = 0x11 then None
      else if ch = 0x03 \<or> ch = 113 then (if kstate k \<noteq> kinput then None else Some (normal_char ch False k))
      else if ch = 13 then Some (normal_char 10 True k)
      else if ch = 0x04 \<or> ch = 10 then Some (normal_char ch True k)
      else Some (normal_char ch False k))"

fun readc_loop :: "u8 list \<Rightarrow> keyboardstate \<Rightarrow> keyboardstate option" where
  "readc_loop [] k = Some k"
| "readc_loop (d # ds) k =
     (case keyboard_readc d (kmod k) of (ch, m) \<Rightarrow>
        (case handle_char ch (k\<lparr>kmod := m\<rparr>) of None \<Rightarrow> None | Some k' \<Rightarrow> readc_loop ds k'))"

definition wake_readers :: "keyboardstate \<Rightarrow> keyboardstate" where
  "wake_readers k = k\<lparr>kwq := [], kready := kready k @ kwq k\<rparr>"

definition handle_interrupt :: "u8 list \<Rightarrow> keyboardstate \<Rightarrow> keyboardstate option" where
  "handle_interrupt ds k = map_option wake_readers (readc_loop ds k)"

definition consume :: "nat \<Rightarrow> keyboardstate \<Rightarrow> keyboardstate option" where
  "consume n k = check (n \<le> klen k)
     (Some (k\<lparr>kpos := (kpos k + n) mod KBUF, klen := klen k - n, keol := (keol k + 2 ^ 32 - n) mod 2 ^ 32\<rparr>))"

text \<open>The copying loop of \<^verbatim>\<open>kb_c_vnode::read\<close>, with the bytes read so far.\<close>

function kb_read_loop :: "nat \<Rightarrow> nat list \<Rightarrow> keyboardstate \<Rightarrow> (nat list \<times> keyboardstate) option" where
  "kb_read_loop sz acc k =
     (if keol k \<noteq> 0 \<and> length acc < sz then
        (if kbuf k ! kpos k = 0x04 then
           (if acc = [] then map_option (Pair acc) (consume 1 k) else Some (acc, k))
         else
           (case consume 1 k of
              None \<Rightarrow> None
            | Some k' \<Rightarrow> kb_read_loop sz (acc @ [kbuf k ! kpos k]) k'))
      else Some (acc, k))"
  by pat_completeness auto

termination
  by (relation "measure (\<lambda>(sz, acc, k). sz - length acc)") auto

declare kb_read_loop.simps [simp del]

datatype kb_result = KBlocked | KDone "nat list"

text \<open>\<^verbatim>\<open>kb_c_vnode::read\<close> by the task \<open>t\<close>.\<close>

definition kb_read :: "nat \<Rightarrow> nat \<Rightarrow> keyboardstate \<Rightarrow> (kb_result \<times> keyboardstate) option" where
  "kb_read t sz k =
     (let k' = (if kstate k = kboot then k\<lparr>kstate := kinput\<rparr> else k)
      in if sz \<noteq> 0 \<and> keol k' = 0 then Some (KBlocked, k'\<lparr>kwq := kwq k' @ [t]\<rparr>)
         else map_option (\<lambda>(bs, k''). (KDone bs, k'')) (kb_read_loop sz [] k'))"

subsection \<open>The buffer as two queues\<close>

text \<open>
  The abstract buffer: the lines that are complete, and the line being typed.
\<close>

definition kq :: "keyboardstate \<Rightarrow> nat list" where
  "kq k = map (\<lambda>i. kbuf k ! ((kpos k + i) mod KBUF)) [0..<klen k]"

definition committed :: "keyboardstate \<Rightarrow> nat list" where
  "committed k = take (keol k) (kq k)"

definition pending :: "keyboardstate \<Rightarrow> nat list" where
  "pending k = drop (keol k) (kq k)"

definition kb_inv :: "keyboardstate \<Rightarrow> bool" where
  "kb_inv k \<longleftrightarrow> check_invariants k \<and> length (kbuf k) = KBUF"

lemma length_kq [simp]: "length (kq k) = klen k"
  by (simp add: kq_def)

lemma kq_split: "keol k \<le> klen k \<Longrightarrow> kq k = committed k @ pending k \<and> length (committed k) = keol k"
  by (simp add: committed_def pending_def)

lemma ring_distinct:
  assumes "i < j" "j < i + n" "(p + i) mod n = (p + j) mod (n :: nat)"
  shows False
proof -
  have "(p + j) mod n = (p + i) mod n" using assms(3) by simp
  then have "n dvd (p + j) - (p + i)" using assms(1) mod_eq_dvd_iff_nat [of "p + i" "p + j" n] by simp
  then have "n dvd j - i" by simp
  then show False using assms(1,2) dvd_imp_le [of n "j - i"] by linarith
qed

lemma kq_push:
  assumes "kb_inv k" "klen k < KBUF"
  shows "kq (k\<lparr>kbuf := (kbuf k)[(kpos k + klen k) mod KBUF := ch], klen := klen k + 1\<rparr>) = kq k @ [ch]"
proof -
  have l: "length (kbuf k) = KBUF" "0 < KBUF" using assms by (simp_all add: kb_inv_def kconst)
  have "(kbuf k)[(kpos k + klen k) mod KBUF := ch] ! ((kpos k + i) mod KBUF) = kbuf k ! ((kpos k + i) mod KBUF)" if "i < klen k" for i
    using ring_distinct [of i "klen k" KBUF "kpos k"] assms(2) that by (metis nth_list_update_neq trans_less_add2)
  then show ?thesis using l by (simp add: kq_def)
qed

lemma kq_pop: "klen k \<noteq> 0 \<Longrightarrow> kq (k\<lparr>kpos := (kpos k + 1) mod KBUF, klen := klen k - 1, keol := e\<rparr>) = tl (kq k)"
proof -
  assume "klen k \<noteq> 0"
  then obtain n where n: "klen k = Suc n" by (cases "klen k") auto
  have "[0..<Suc n] = 0 # map Suc [0..<n]" by (simp add: upt_conv_Cons map_Suc_upt del: upt_Suc)
  then show ?thesis by (simp add: kq_def n comp_def mod_simps del: upt_Suc)
qed

lemma maybe_echo_sel [simp]:
  "kbuf (maybe_echo ch k) = kbuf k" "kpos (maybe_echo ch k) = kpos k" "klen (maybe_echo ch k) = klen k"
  "keol (maybe_echo ch k) = keol k" "kstate (maybe_echo ch k) = kstate k" "kwq (maybe_echo ch k) = kwq k" "kready (maybe_echo ch k) = kready k"
  by (simp_all add: maybe_echo_def)

lemma kq_echo [simp]: "kq (maybe_echo ch k) = kq k" "committed (maybe_echo ch k) = committed k"
  "pending (maybe_echo ch k) = pending k" "kb_inv (maybe_echo ch k) = kb_inv k"
  by (simp_all add: kq_def committed_def pending_def kb_inv_def check_invariants_def)

lemma normal_char_spec:
  assumes "kb_inv k"
  shows "kb_inv (normal_char ch e k) \<and>
     (if klen k < KBUF then
        (if e then committed (normal_char ch e k) = committed k @ pending k @ [ch] \<and> pending (normal_char ch e k) = []
         else committed (normal_char ch e k) = committed k \<and> pending (normal_char ch e k) = pending k @ [ch])
      else normal_char ch e k = k)"
proof (cases "klen k < KBUF")
  case True
  let ?k = "k\<lparr>kbuf := (kbuf k)[(kpos k + klen k) mod KBUF := ch], klen := klen k + 1\<rparr>"
  have q: "kq ?k = kq k @ [ch]" by (rule kq_push [OF assms True])
  have qe: "kq (?k\<lparr>keol := x\<rparr>) = kq k @ [ch]" for x using q by (simp add: kq_def)
  have le: "keol k \<le> klen k" using assms by (simp add: kb_inv_def check_invariants_def)
  have N: "normal_char ch e k = maybe_echo ch (if e then ?k\<lparr>keol := klen k + 1\<rparr> else ?k)"
    using True by (simp add: normal_char_def)
  have i: "kb_inv ?k" "kb_inv (?k\<lparr>keol := klen k + 1\<rparr>)" using assms True le by (simp_all add: kb_inv_def check_invariants_def)
  have "committed ?k = committed k \<and> pending ?k = pending k @ [ch]" unfolding committed_def pending_def q using le by simp
  moreover have "committed (?k\<lparr>keol := klen k + 1\<rparr>) = kq k @ [ch] \<and> pending (?k\<lparr>keol := klen k + 1\<rparr>) = []"
    unfolding committed_def pending_def qe by simp
  ultimately show ?thesis unfolding N using True i kq_split [OF le] by simp
qed (simp add: normal_char_def assms)

lemma consume_spec:
  assumes "kb_inv k" "keol k \<noteq> 0" "klen k < 2 ^ 32"
  shows "\<exists>k'. consume 1 k = Some k' \<and> kb_inv k' \<and> committed k \<noteq> [] \<and> hd (committed k) = kbuf k ! kpos k \<and>
     committed k' = tl (committed k) \<and> pending k' = pending k \<and> keol k' = keol k - 1 \<and> klen k' < 2 ^ 32"
proof -
  have I: "kpos k < KBUF" "klen k \<le> KBUF" "keol k \<le> klen k" "length (kbuf k) = KBUF"
    using assms(1) by (simp_all add: kb_inv_def check_invariants_def)
  have e: "(keol k + 2 ^ 32 - 1) mod 2 ^ 32 = keol k - 1" using assms(2,3) I(3) by (cases "keol k") simp_all
  let ?k = "k\<lparr>kpos := (kpos k + 1) mod KBUF, klen := klen k - 1, keol := keol k - 1\<rparr>"
  have c: "consume 1 k = Some ?k" using I assms(2) e by (simp add: consume_def)
  have n: "klen k \<noteq> 0" using assms(2) I(3) by simp
  have q: "kq ?k = tl (kq k)" by (rule kq_pop [OF n])
  have h: "kq k \<noteq> []" "hd (kq k) = kbuf k ! kpos k" using n I(1) by (simp_all add: kq_def upt_conv_Cons)
  have t: "committed ?k = tl (committed k)" "pending ?k = pending k"
    using q assms(2) by (cases "kq k"; cases "keol k"; simp add: committed_def pending_def)+
  moreover have "committed k \<noteq> []" "hd (committed k) = kbuf k ! kpos k" using h assms(2) by (cases "kq k"; simp add: committed_def)+
  moreover have "klen k - 1 \<le> KBUF" "keol k - 1 \<le> klen k - 1" using I(2,3) by linarith+
  then have "kb_inv ?k" using I(4) by (simp add: kb_inv_def check_invariants_def KBUF_def)
  ultimately show ?thesis using c assms(3) by auto
qed

lemma kb_inv_len: "kb_inv k \<Longrightarrow> klen k < 2 ^ 32"
  by (simp add: kb_inv_def check_invariants_def kconst)

lemma committed_Nil: "kb_inv k \<Longrightarrow> committed k = [] \<longleftrightarrow> keol k = 0"
  using length_kq [of k] by (auto simp: committed_def kb_inv_def check_invariants_def simp del: length_kq)

lemma kb_read_loop_spec:
  assumes "kb_inv k" "acc \<noteq> []" "length acc \<le> sz"
  shows "\<exists>k' n. kb_read_loop sz acc k = Some (acc @ take n (committed k), k') \<and> kb_inv k' \<and>
     n = min (sz - length acc) (length (takeWhile ((\<noteq>) 4) (committed k))) \<and>
     committed k' = drop n (committed k) \<and> pending k' = pending k"
  using assms
proof (induction sz acc k rule: kb_read_loop.induct)
  case (1 sz acc k)
  show ?case
  proof (cases "keol k \<noteq> 0 \<and> length acc < sz")
    case False
    then have "kb_read_loop sz acc k = Some (acc, k)" by (subst kb_read_loop.simps) auto
    moreover have "min (sz - length acc) (length (takeWhile ((\<noteq>) 4) (committed k))) = 0"
      using False committed_Nil [OF 1(2)] by auto
    ultimately show ?thesis using 1(2) by simp
  next
    case True
    obtain k1 where C: "consume 1 k = Some k1" "kb_inv k1" "committed k \<noteq> []" "hd (committed k) = kbuf k ! kpos k"
      "committed k1 = tl (committed k)" "pending k1 = pending k" using consume_spec [OF 1(2) _ kb_inv_len [OF 1(2)]] True by auto
    obtain x xs where x: "committed k = x # xs" using C(3) by (cases "committed k") auto
    then have xk: "kbuf k ! kpos k = x" "committed k1 = xs" using C(4,5) by auto
    show ?thesis
    proof (cases "x = 4")
      case eof: True
      then have "kb_read_loop sz acc k = Some (acc, k)" using True xk 1(3) by (subst kb_read_loop.simps) auto
      then show ?thesis using 1(2) x eof by simp
    next
      case no: False
      have E: "kb_read_loop sz acc k = kb_read_loop sz (acc @ [x]) k1" using True xk no C(1) by (subst kb_read_loop.simps) simp
      obtain k' n where "kb_read_loop sz (acc @ [x]) k1 = Some ((acc @ [x]) @ take n xs, k')" "kb_inv k'"
        "n = min (sz - length (acc @ [x])) (length (takeWhile ((\<noteq>) 4) xs))" "committed k' = drop n xs" "pending k' = pending k"
        using 1(1) [of k1] True xk no C by auto
      moreover have "min (sz - length acc) (length (takeWhile ((\<noteq>) 4) (x # xs))) = Suc (min (sz - length (acc @ [x])) (length (takeWhile ((\<noteq>) 4) xs)))"
        using no True by (simp, linarith)
      ultimately show ?thesis using E x by (intro exI [of _ k'] exI [of _ "Suc n"]) simp
    qed
  qed
qed

subsection \<open>Line discipline\<close>

definition kb_abs :: "nat \<Rightarrow> nat list \<times> nat list \<Rightarrow> nat list \<times> nat list" where
  "kb_abs ch = (\<lambda>(c, p).
     if ch = 0 then (c, p)
     else if ch = 8 then (c, butlast p)
     else if length c + length p = KBUF then (c, p)
     else if ch = 13 \<or> ch = 10 \<or> ch = 4 then (c @ p @ [if ch = 13 then 10 else ch], [])
     else (c, p @ [ch]))"

lemma handle_char_spec:
  assumes "kb_inv k" "handle_char ch k = Some k'"
  shows "kb_inv k' \<and> (committed k', pending k') = kb_abs ch (committed k, pending k)"
proof -
  have le: "keol k \<le> klen k" "klen k \<le> KBUF" using assms(1) by (simp_all add: kb_inv_def check_invariants_def)
  have n: "length (committed k) + length (pending k) = klen k" using le(1) by (simp add: committed_def pending_def)
  have N: "kb_inv (normal_char c e k)" "committed (normal_char c True k) = (if klen k = KBUF then committed k else committed k @ pending k @ [c])"
    "pending (normal_char c True k) = (if klen k = KBUF then pending k else [])"
    "committed (normal_char c False k) = committed k" "pending (normal_char c False k) = (if klen k = KBUF then pending k else pending k @ [c])" for c e
    using normal_char_spec [OF assms(1), of c e] normal_char_spec [OF assms(1), of c True] normal_char_spec [OF assms(1), of c False] le(2)
    by (cases "klen k < KBUF"; simp)+
  show ?thesis
  proof (cases "ch = 8")
    case True
    let ?k = "k\<lparr>klen := klen k - 1\<rparr>"
    have q: "kq ?k = butlast (kq k)" by (cases "klen k") (simp_all add: kq_def)
    show ?thesis
    proof (cases "keol k < klen k")
      case lt: True
      have "committed ?k = committed k" "pending ?k = butlast (pending k)"
        using q lt by (simp_all add: committed_def pending_def take_butlast butlast_drop)
      moreover have "klen k - 1 \<le> KBUF" "keol k \<le> klen k - 1" using lt le(2) by linarith+
      then have "kb_inv ?k" using assms(1) by (simp add: kb_inv_def check_invariants_def)
      ultimately show ?thesis using assms(2) True lt by (auto simp: handle_char_def kb_abs_def)
    next
      case False
      then have "pending k = []" by (simp add: pending_def)
      then show ?thesis using assms False True by (simp add: handle_char_def kb_abs_def)
    qed
  next
    case False
    then show ?thesis using assms n by (auto simp: handle_char_def kb_abs_def N split: if_splits)
  qed
qed

lemma kmod_irrelevant [simp]: "kb_inv (k\<lparr>kmod := m\<rparr>) = kb_inv k" "committed (k\<lparr>kmod := m\<rparr>) = committed k" "pending (k\<lparr>kmod := m\<rparr>) = pending k"
  by (simp_all add: kb_inv_def check_invariants_def committed_def pending_def kq_def)

lemma queues_irrelevant [simp]: "kb_inv (k\<lparr>kwq := q\<rparr>) = kb_inv k" "committed (k\<lparr>kwq := q\<rparr>) = committed k" "pending (k\<lparr>kwq := q\<rparr>) = pending k"
  "kb_inv (k\<lparr>kready := q\<rparr>) = kb_inv k"
  by (simp_all add: kb_inv_def check_invariants_def committed_def pending_def kq_def)

lemma handle_char_queues: "handle_char ch k = Some k' \<Longrightarrow> kwq k' = kwq k \<and> kready k' = kready k"
  by (auto simp: handle_char_def normal_char_def split: if_splits)

lemma readc_loop_inv: "kb_inv k \<Longrightarrow> readc_loop ds k = Some k' \<Longrightarrow> kb_inv k' \<and> kwq k' = kwq k \<and> kready k' = kready k"
proof (induction ds arbitrary: k)
  case (Cons d ds)
  obtain ch m where r: "keyboard_readc d (kmod k) = (ch, m)" by (cases "keyboard_readc d (kmod k)")
  then obtain k1 where k1: "handle_char ch (k\<lparr>kmod := m\<rparr>) = Some k1" using Cons.prems(2) by (auto split: option.splits)
  then have "kb_inv k1" using handle_char_spec [of "k\<lparr>kmod := m\<rparr>"] Cons.prems(1) by simp
  then show ?case using Cons.IH [of k1] Cons.prems(2) r k1 handle_char_queues [OF k1] by simp
qed simp

lemma handle_interrupt_inv:
  "kb_inv k \<Longrightarrow> handle_interrupt ds k = Some k' \<Longrightarrow> kb_inv k' \<and> kwq k' = [] \<and> kready k' = kready k @ kwq k"
  using readc_loop_inv [of k ds] by (auto simp: handle_interrupt_def wake_readers_def)

lemma kb_read_spec:
  assumes "kb_inv k"
  shows "\<exists>r k'. kb_read t sz k = Some (r, k') \<and> kb_inv k' \<and> pending k' = pending k \<and> kstate k' \<noteq> kboot \<and> kready k' = kready k \<and>
     kwq k' = (if r = KBlocked then kwq k @ [t] else kwq k) \<and>
     (if sz \<noteq> 0 \<and> committed k = [] then r = KBlocked \<and> committed k' = []
      else if sz \<noteq> 0 \<and> hd (committed k) = 4 then r = KDone [] \<and> committed k' = tl (committed k)
      else (let n = min sz (length (takeWhile ((\<noteq>) 4) (committed k)))
            in r = KDone (take n (committed k)) \<and> committed k' = drop n (committed k)))"
proof -
  define k0 where "k0 = (if kstate k = kboot then k\<lparr>kstate := kinput\<rparr> else k)"
  have K: "kb_inv k0" "committed k0 = committed k" "pending k0 = pending k" "kstate k0 \<noteq> kboot" "kwq k0 = kwq k" "kready k0 = kready k"
    using assms by (simp_all add: k0_def kb_inv_def check_invariants_def committed_def pending_def kq_def)
  have st: "consume n x = Some y \<Longrightarrow> kstate y = kstate x \<and> kwq y = kwq x \<and> kready y = kready x" for n x y by (auto simp: consume_def split: if_splits)
  have stl: "kb_read_loop sz acc x = Some (bs, y) \<Longrightarrow> kstate y = kstate x \<and> kwq y = kwq x \<and> kready y = kready x" for acc x bs y
  proof (induction sz acc x rule: kb_read_loop.induct)
    case (1 sz acc k)
    then show ?case using st by (subst (asm) (2) kb_read_loop.simps) (auto split: if_splits option.splits)
  qed
  have R: "kb_read t sz k = (if sz \<noteq> 0 \<and> keol k0 = 0 then Some (KBlocked, k0\<lparr>kwq := kwq k @ [t]\<rparr>)
      else map_option (\<lambda>(bs, k''). (KDone bs, k'')) (kb_read_loop sz [] k0))" by (simp add: kb_read_def k0_def Let_def)
  have cn: "committed k = [] \<longleftrightarrow> keol k0 = 0" using committed_Nil [OF K(1)] K(2) by simp
  show ?thesis
  proof (cases "sz = 0 \<or> keol k0 = 0")
    case True
    have "kb_read_loop sz [] k0 = Some ([], k0)" if "sz = 0" using that by (subst kb_read_loop.simps) simp
    then show ?thesis using True R K cn by (cases "sz = 0") auto
  next
    case False
    obtain k1 where C: "consume 1 k0 = Some k1" "kb_inv k1" "committed k0 \<noteq> []" "hd (committed k0) = kbuf k0 ! kpos k0"
      "committed k1 = tl (committed k0)" "pending k1 = pending k0" using consume_spec [OF K(1) _ kb_inv_len [OF K(1)]] False by auto
    obtain x xs where x: "committed k = x # xs" using C(3) K(2) by (cases "committed k") auto
    then have xk: "kbuf k0 ! kpos k0 = x" "committed k1 = xs" using C(4,5) K(2) by auto
    show ?thesis
    proof (cases "x = 4")
      case True
      then have "kb_read_loop sz [] k0 = Some ([], k1)" using False xk C(1) by (subst kb_read_loop.simps) simp
      then show ?thesis using R False x True xk C K st [OF C(1)] by simp
    next
      case no: False
      have E: "kb_read_loop sz [] k0 = kb_read_loop sz [x] k1" using False xk no C(1) by (subst kb_read_loop.simps) simp
      obtain k' n where L: "kb_read_loop sz [x] k1 = Some ([x] @ take n xs, k')" "kb_inv k'"
        "n = min (sz - 1) (length (takeWhile ((\<noteq>) 4) xs))" "committed k' = drop n xs" "pending k' = pending k1"
        using kb_read_loop_spec [OF C(2), of "[x]" sz] False xk by auto
      moreover have "min sz (length (takeWhile ((\<noteq>) 4) (x # xs))) = Suc n" using no False L(3) by (simp, linarith)
      moreover have "kstate k' \<noteq> kboot" "kwq k' = kwq k" "kready k' = kready k" using stl [OF L(1)] st [OF C(1)] K(4-6) by simp_all
      ultimately show ?thesis using R E False x no C(6) K(3) by (simp add: Let_def)
    qed
  qed
qed

text \<open>
  C29. The keyboard line discipline. With the buffer seen as the complete lines followed by the line being
  typed: a character that is not dropped is appended to the line, a newline, carriage return or Ctrl-D
  completes it, Ctrl-H removes the last character of the line being typed and never of a complete one, and
  characters that arrive when 256 are waiting are dropped. A read sleeps exactly when no line is complete
  and it asks for at least one byte; otherwise it delivers the longest prefix of the complete lines that
  fits and contains no Ctrl-D, or consumes a leading Ctrl-D and delivers nothing (end of file). The
  checked invariants of the buffer hold throughout, and no assertion fails. A read that sleeps joins the
  wait queue; an interrupt wakes every task on it, so that no task sleeps while a line is complete.
\<close>

theorem keyboard_line_discipline:
  assumes "kb_inv k"
  shows "(handle_char ch k = None \<longleftrightarrow> ch = 0x11 \<or> (ch = 3 \<or> ch = 113) \<and> kstate k \<noteq> kinput) \<and>
    (\<forall>k'. handle_char ch k = Some k' \<longrightarrow> kb_inv k' \<and> (committed k', pending k') = kb_abs ch (committed k, pending k)) \<and>
    (\<forall>ds k'. handle_interrupt ds k = Some k' \<longrightarrow> kb_inv k' \<and> kwq k' = [] \<and> kready k' = kready k @ kwq k) \<and>
    (\<exists>r k'. kb_read t sz k = Some (r, k') \<and> kb_inv k' \<and> pending k' = pending k \<and>
     kwq k' = (if r = KBlocked then kwq k @ [t] else kwq k) \<and>
     ((kwq k \<noteq> [] \<longrightarrow> committed k = []) \<longrightarrow> (kwq k' \<noteq> [] \<longrightarrow> committed k' = [])) \<and>
     (if sz \<noteq> 0 \<and> committed k = [] then r = KBlocked \<and> committed k' = []
      else if sz \<noteq> 0 \<and> hd (committed k) = 4 then r = KDone [] \<and> committed k' = tl (committed k)
      else (let n = min sz (length (takeWhile ((\<noteq>) 4) (committed k)))
            in r = KDone (take n (committed k)) \<and> committed k' = drop n (committed k))))"
proof (intro conjI)
  show "handle_char ch k = None \<longleftrightarrow> ch = 0x11 \<or> (ch = 3 \<or> ch = 113) \<and> kstate k \<noteq> kinput" by (auto simp: handle_char_def)
  show "\<forall>k'. handle_char ch k = Some k' \<longrightarrow> kb_inv k' \<and> (committed k', pending k') = kb_abs ch (committed k, pending k)"
    using handle_char_spec [OF assms] by blast
  show "\<forall>ds k'. handle_interrupt ds k = Some k' \<longrightarrow> kb_inv k' \<and> kwq k' = [] \<and> kready k' = kready k @ kwq k"
    using handle_interrupt_inv [OF assms] by blast
  obtain r k' where R: "kb_read t sz k = Some (r, k')" "kb_inv k'" "pending k' = pending k" "kwq k' = (if r = KBlocked then kwq k @ [t] else kwq k)"
     "if sz \<noteq> 0 \<and> committed k = [] then r = KBlocked \<and> committed k' = []
      else if sz \<noteq> 0 \<and> hd (committed k) = 4 then r = KDone [] \<and> committed k' = tl (committed k)
      else (let n = min sz (length (takeWhile ((\<noteq>) 4) (committed k)))
            in r = KDone (take n (committed k)) \<and> committed k' = drop n (committed k))"
    using kb_read_spec [OF assms, of t sz] by blast
  then have "(kwq k \<noteq> [] \<longrightarrow> committed k = []) \<longrightarrow> (kwq k' \<noteq> [] \<longrightarrow> committed k' = [])" by (auto simp: Let_def split: if_splits)
  then show "\<exists>r k'. kb_read t sz k = Some (r, k') \<and> kb_inv k' \<and> pending k' = pending k \<and>
     kwq k' = (if r = KBlocked then kwq k @ [t] else kwq k) \<and>
     ((kwq k \<noteq> [] \<longrightarrow> committed k = []) \<longrightarrow> (kwq k' \<noteq> [] \<longrightarrow> committed k' = [])) \<and>
     (if sz \<noteq> 0 \<and> committed k = [] then r = KBlocked \<and> committed k' = []
      else if sz \<noteq> 0 \<and> hd (committed k) = 4 then r = KDone [] \<and> committed k' = tl (committed k)
      else (let n = min sz (length (takeWhile ((\<noteq>) 4) (committed k)))
            in r = KDone (take n (committed k)) \<and> committed k' = drop n (committed k)))"
    using R by blast
qed

definition kb_boot :: keyboardstate where
  "kb_boot = \<lparr>kbuf = replicate KBUF 0, kpos = 0, klen = 0, keol = 0, kstate = kboot, kmod = \<lparr>modifiers = 0, last_escape = 0\<rparr>, screen = [], kwq = [], kready = []\<rparr>"

theorem keyboard_line_discipline_witness:
  "kb_inv kb_boot \<and> (\<exists>r k'. kb_read 3 5 kb_boot = Some (r, k') \<and> r = KBlocked \<and> kwq k' = [3])"
proof -
  have i: "kb_inv kb_boot" by (simp add: kb_inv_def check_invariants_def kb_boot_def KBUF_def)
  have "committed kb_boot = []" by (simp add: committed_def kq_def kb_boot_def)
  then show ?thesis using keyboard_line_discipline [OF i, of 0 3 5] i by (auto simp: kb_boot_def)
qed

text \<open>
  A full buffer with no complete line stays as it is whatever is typed, except for Ctrl-H: a reader waiting
  for a line waits on.
\<close>

lemma full_line_stuck:
  assumes "kb_inv k" "klen k = KBUF" "keol k = 0" "ch \<noteq> 8" "handle_char ch k = Some k'"
  shows "k' = k"
  using assms by (auto simp: handle_char_def normal_char_def split: if_splits)

end
