(* ===== verification/Vnode.thy ===== *)
theory Vnode
  imports Pipe CFormat BitsetView
begin

text \<open>
  Files as system calls see them, \<^verbatim>\<open>struct vnode\<close> of \<^verbatim>\<open>kernel.hh\<close> and its kinds in \<^verbatim>\<open>k-vfs.cc\<close>: the common
  part, in-memory files (with \<^verbatim>\<open>struct memfile\<close> of \<^verbatim>\<open>k-devices.cc\<close>), pipe ends over the bounded
  buffer of theory \<open>Pipe\<close>, and the special files. Disk files are in theory \<open>DiskFile\<close>, the keyboard in
  theory \<open>Keyboard\<close>. Buffers of the caller are byte lists; a result is the C return value, with the bytes
  stored for reads.
\<close>

unbundle bit_operations_syntax

definition OF_READ :: u32 where "OF_READ = 1"
definition OF_WRITE :: u32 where "OF_WRITE = 2"

record vnode =
  vmode :: u32
  voffset :: nat
  vrefcount :: int

definition vnode_new :: "u32 \<Rightarrow> vnode option" where
  "vnode_new m = check (m \<ge> OF_READ \<and> m \<le> OF_READ OR OF_WRITE) (Some \<lparr>vmode = m, voffset = 0, vrefcount = 1\<rparr>)"

definition readable :: "vnode \<Rightarrow> bool" where "readable v \<longleftrightarrow> vmode v AND OF_READ \<noteq> 0"
definition writeable :: "vnode \<Rightarrow> bool" where "writeable v \<longleftrightarrow> vmode v AND OF_WRITE \<noteq> 0"

definition vnode_close :: "vnode \<Rightarrow> (int \<times> vnode) option" where
  "vnode_close v = check (vrefcount v > 0) (Some (vrefcount v - 1, v\<lparr>vrefcount := vrefcount v - 1\<rparr>))"

definition vnode_lseek :: "int \<Rightarrow> int \<Rightarrow> vnode \<Rightarrow> int" where "vnode_lseek off origin v = E_SPIPE"
definition vnode_ftruncate :: "int \<Rightarrow> vnode \<Rightarrow> int" where "vnode_ftruncate len v = E_TPIPE"

definition io_sz :: "nat \<Rightarrow> nat \<Rightarrow> nat \<Rightarrow> nat option" where
  "io_sz start cap sz = check (cap \<ge> start) (Some (if cap - start > sz then sz else cap - start))"

subsection \<open>In-memory files\<close>

definition namesize :: nat where [kconst]: "namesize = 64"
definition initfs_size :: nat where [kconst]: "initfs_size = 64"

record memfile =
  mf_name :: "u8 list"
  mf_data :: "u8 list"
  mf_len :: nat
  mf_cap :: nat

definition mf_empty :: "memfile \<Rightarrow> bool" where
  "mf_empty f \<longleftrightarrow> mf_name f ! 0 = 0"

text \<open>
  \<^verbatim>\<open>memfile::set_length\<close>. \<open>room n\<close> says that the allocation of \<open>n\<close> bytes succeeds, \<open>junk\<close> gives the
  contents of the new memory. Copying more bytes than the new array has is undefined.
\<close>

definition set_length :: "(nat \<Rightarrow> bool) \<Rightarrow> (nat \<Rightarrow> u8) \<Rightarrow> nat \<Rightarrow> memfile \<Rightarrow> (int \<times> memfile) option" where
  "set_length room junk len f =
     (if len > mf_cap f then
        (if len > 2 ^ 63 - 1 then Some (E_NOSPC, f)
         else
           (let new_capacity = unat (round_up_pow2 (of_nat len))
            in if \<not> room new_capacity then Some (E_NOSPC, f)
               else check (mf_len f \<le> new_capacity)
                 (Some (0, f\<lparr>mf_data := blit (map junk [0..<new_capacity]) 0 (take (mf_len f) (mf_data f)),
                    mf_cap := new_capacity, mf_len := len\<rparr>))))
      else Some (0, f\<lparr>mf_len := len\<rparr>))"

text \<open>The search of \<^verbatim>\<open>memfile::initfs_lookup\<close> from index \<open>i\<close>: the file found, and the first empty slot.\<close>

definition name_matches :: "u8 list \<Rightarrow> nat \<Rightarrow> memfile \<Rightarrow> bool" where
  "name_matches name n f \<longleftrightarrow> take n (mf_name f) = take n name \<and> mf_name f ! n = 0"

fun initfs_search :: "u8 list \<Rightarrow> nat \<Rightarrow> memfile list \<Rightarrow> nat \<Rightarrow> nat option \<Rightarrow> nat option \<times> nat option" where
  "initfs_search name n [] i slot = (None, slot)"
| "initfs_search name n (f # fs) i slot =
     (if \<not> mf_empty f \<and> name_matches name n f then (Some i, slot)
      else if mf_empty f \<and> slot = None then initfs_search name n fs (i + 1) (Some i)
      else initfs_search name n fs (i + 1) slot)"

definition initfs_lookup :: "u8 list \<Rightarrow> bool \<Rightarrow> memfile list \<Rightarrow> int \<times> memfile list" where
  "initfs_lookup name create fs =
     (let namelen = min (length name) (namesize - 1)
      in case initfs_search name namelen fs 0 None of
           (Some i, _) \<Rightarrow> (int i, fs)
         | (None, slot) \<Rightarrow>
             if \<not> create then (E_NOENT, fs)
             else (case slot of
                None \<Rightarrow> (E_NOSPC, fs)
              | Some i \<Rightarrow>
                  if namelen \<ge> namesize then (E_NAMETOOLONG, fs)
                  else (int i, fs[i := (fs ! i)\<lparr>mf_name := (blit (mf_name (fs ! i)) 0 (take namelen name))[namelen := 0],
                          mf_data := [], mf_len := 0, mf_cap := 0\<rparr>])))"

text \<open>
  The constructor of \<^verbatim>\<open>memfile_vnode\<close> runs after that of \<^verbatim>\<open>vnode\<close>, which has counted one reference.
\<close>

definition memfile_vnode_new :: "u32 \<Rightarrow> vnode option" where
  "memfile_vnode_new m =
     (case vnode_new m of
        None \<Rightarrow> None
      | Some v \<Rightarrow> check (voffset v = 0) (check (vrefcount v = 0) (Some v)))"

definition memfile_close :: "vnode \<Rightarrow> int \<times> vnode" where
  "memfile_close v = (if vrefcount v = 0 then (E_BADF, v) else (vrefcount v - 1, v\<lparr>vrefcount := vrefcount v - 1\<rparr>))"

definition memfile_write :: "(nat \<Rightarrow> bool) \<Rightarrow> (nat \<Rightarrow> u8) \<Rightarrow> u8 list \<Rightarrow> vnode \<Rightarrow> memfile \<Rightarrow> (int \<times> vnode \<times> memfile) option" where
  "memfile_write room junk src v f =
     (if \<not> writeable v then Some (E_BADF, v, f)
      else
        (case io_sz (voffset v) (mf_len f) (length src) of
           None \<Rightarrow> None
         | Some best_sz \<Rightarrow>
             (case (if best_sz < length src then set_length room junk (voffset v + length src) f else Some (0, f)) of
                None \<Rightarrow> None
              | Some (r, f') \<Rightarrow>
                  if r = E_NOSPC then Some (E_NOSPC, v, f')
                  else Some (int (length src), v\<lparr>voffset := voffset v + length src\<rparr>,
                         f'\<lparr>mf_data := blit (mf_data f') (voffset v) src\<rparr>))))"

definition memfile_read :: "nat \<Rightarrow> vnode \<Rightarrow> memfile \<Rightarrow> (int \<times> u8 list \<times> vnode) option" where
  "memfile_read sz v f =
     (if \<not> readable v then Some (E_BADF, [], v)
      else
        (case io_sz (voffset v) (mf_len f) sz of
           None \<Rightarrow> None
         | Some rd_sz \<Rightarrow> Some (int rd_sz, take rd_sz (drop (voffset v) (mf_data f)), v\<lparr>voffset := voffset v + rd_sz\<rparr>)))"

text \<open>\<^verbatim>\<open>memfile_loader::get_page\<close>: the length and the bytes of the page at \<open>off\<close>.\<close>

definition memfile_get_page :: "memfile option \<Rightarrow> nat \<Rightarrow> int \<times> u8 list" where
  "memfile_get_page mf off =
     (case mf of
        None \<Rightarrow> (E_NOENT, [])
      | Some f \<Rightarrow> if off \<ge> mf_len f then (0, []) else (int (mf_len f - off), drop off (mf_data f)))"

subsection \<open>Pipe ends\<close>

definition pipe_vnode_write :: "nat \<Rightarrow> u8 list \<Rightarrow> vnode \<Rightarrow> pipe_bbuf \<Rightarrow> (pipe_result \<times> pipe_bbuf) option" where
  "pipe_vnode_write me src v b = (if \<not> writeable v then Some (Done E_BADF [] [], b) else bbuf_write me b src)"

definition pipe_vnode_read :: "nat \<Rightarrow> nat \<Rightarrow> vnode \<Rightarrow> pipe_bbuf \<Rightarrow> (pipe_result \<times> pipe_bbuf) option" where
  "pipe_vnode_read me sz v b = (if \<not> readable v then Some (Done E_BADF [] [], b) else bbuf_read me b sz)"

text \<open>
  The destructor: the processes woken, and the buffer unless both ends are now closed and it is freed.
\<close>

definition pipe_vnode_destroy :: "vnode \<Rightarrow> pipe_bbuf \<Rightarrow> (nat list \<times> pipe_bbuf option) option" where
  "pipe_vnode_destroy v b =
     (let r = (if vmode v = OF_READ then map_option (\<lambda>b'. (wrq b', b'\<lparr>wrq := []\<rparr>)) (close_read b)
               else map_option (\<lambda>b'. (rdq b', b'\<lparr>rdq := []\<rparr>)) (close_write b))
      in case r of
           None \<Rightarrow> None
         | Some (w, b') \<Rightarrow> Some (w, if write_closed b' \<and> read_closed b' then None else Some b'))"

subsection \<open>Special files\<close>

datatype sfile = SNull | SRandom | SFull | SZero

definition special_write :: "sfile \<Rightarrow> u8 list \<Rightarrow> vnode \<Rightarrow> int" where
  "special_write t src v =
     (if \<not> writeable v then E_BADF
      else if t = SNull \<or> t = SZero then int (length src)
      else if t = SRandom then 0
      else E_NOSPC)"

fun random_bytes :: "nat \<Rightarrow> rand_state \<Rightarrow> (u8 list \<times> rand_state) option" where
  "random_bytes 0 s = Some ([], s)"
| "random_bytes (Suc n) s =
     (case rand_range 1 255 s of
        None \<Rightarrow> None
      | Some (x, s') \<Rightarrow> map_option (\<lambda>(bs, s''). (of_int x # bs, s'')) (random_bytes n s'))"

definition special_read :: "sfile \<Rightarrow> nat \<Rightarrow> vnode \<Rightarrow> rand_state \<Rightarrow> (int \<times> u8 list \<times> rand_state) option" where
  "special_read t sz v s =
     (if \<not> readable v then Some (E_BADF, [], s)
      else if t = SNull then (if sz = 0 then Some (0, [], s) else Some (1, [0], s))
      else if t = SRandom then map_option (\<lambda>(bs, s'). (int sz, bs, s')) (random_bytes sz s)
      else Some (int sz, replicate sz 0, s))"

subsection \<open>In-memory files as byte sequences\<close>

lemma memfile_vnode_new_panics: "memfile_vnode_new m = None"
  by (simp add: memfile_vnode_new_def vnode_new_def)

definition mf_ok :: "memfile \<Rightarrow> bool" where
  "mf_ok f \<longleftrightarrow> mf_len f \<le> length (mf_data f) \<and> mf_cap f \<le> length (mf_data f)"

definition mf_content :: "memfile \<Rightarrow> u8 list" where
  "mf_content f = take (mf_len f) (mf_data f)"

text \<open>The capacity \<^verbatim>\<open>set_length\<close> asks for, and when it cannot have it.\<close>

definition new_cap :: "nat \<Rightarrow> nat" where
  "new_cap len = unat (round_up_pow2 (of_nat len))"

definition no_space :: "(nat \<Rightarrow> bool) \<Rightarrow> nat \<Rightarrow> memfile \<Rightarrow> bool" where
  "no_space room len f \<longleftrightarrow> len > mf_cap f \<and> \<not> room (new_cap len)"

lemma set_length_spec:
  assumes "mf_ok f" "mf_len f \<le> len" "len \<le> 2 ^ 63 - 1" "0 < len"
  shows "\<exists>r f'. set_length room junk len f = Some (r, f') \<and> mf_ok f' \<and>
     (if no_space room len f then r = E_NOSPC \<and> f' = f
      else r = 0 \<and> mf_len f' = len \<and> mf_name f' = mf_name f \<and>
        mf_cap f' = (if len > mf_cap f then new_cap len else mf_cap f) \<and> take (mf_len f) (mf_data f') = mf_content f)"
proof (cases "len > mf_cap f")
  case False
  then show ?thesis using assms by (auto simp: set_length_def mf_ok_def mf_content_def no_space_def)
next
  case True
  define c where "c = unat (round_up_pow2 (of_nat len))"
  have "take_bit 64 len = len" using assms(3) by (intro take_bit_nat_eq_self) simp
  then have u: "unat (of_nat len :: u64) = len" by (simp only: unsigned_of_nat) simp
  have "(of_nat len :: u64) \<noteq> 0" using u assms(4) by (metis unsigned_0 not_less0)
  then obtain n where "c = 2 ^ n" "len \<le> 2 ^ n" using round_up_pow2_spec [of "of_nat len"] u assms(3) by (auto simp: c_def)
  then have c: "len \<le> c" by simp
  have S: "set_length room junk len f = (if \<not> room c then Some (E_NOSPC, f)
     else Some (0, f\<lparr>mf_data := blit (map junk [0..<c]) 0 (take (mf_len f) (mf_data f)), mf_cap := c, mf_len := len\<rparr>))"
    using True assms(2,3) c by (simp add: set_length_def c_def Let_def)
  have l: "length (blit (map junk [0..<c]) 0 (take (mf_len f) (mf_data f))) = c" using c assms(1,2) by (simp add: mf_ok_def)
  have "take (mf_len f) (blit (map junk [0..<c]) 0 (take (mf_len f) (mf_data f))) = mf_content f"
    using assms(1) by (simp add: blit_def mf_content_def mf_ok_def)
  then show ?thesis using S l c assms(1) True by (cases "room c") (simp_all add: mf_ok_def no_space_def new_cap_def c_def)
qed

lemma blit_content:
  assumes "off + length src \<le> length d" "off \<le> l" "take l d = c" "l \<le> length d" "m = max l (off + length src)"
  shows "take m (blit d off src) = take off c @ src @ drop (off + length src) c"
proof -
  have "take off c = take off d" using assms(2,3) by auto
  moreover have "take m (blit d off src) = take off d @ src @ take (m - (off + length src)) (drop (off + length src) d)"
    using assms(1,5) by (simp add: blit_def)
  moreover have "take (m - (off + length src)) (drop (off + length src) d) = drop (off + length src) c"
  proof (cases "l \<le> off + length src")
    case True
    then show ?thesis using assms(3,5) by auto
  next
    case False
    then show ?thesis using assms(3,5) by (auto simp: drop_take)
  qed
  ultimately show ?thesis by simp
qed

text \<open>
  C30. In-memory files. A write at an offset within the file fails with \<^verbatim>\<open>E_NOSPC\<close> just when the file has to grow
  beyond its capacity and the allocation of the next power of two fails, and then changes nothing. Otherwise it
  replaces exactly the bytes from the offset on, growing the file when they reach past its end, and advances the
  offset; a reallocation loses no byte and gives the new capacity. A read delivers the bytes from the offset on, as
  many as asked for and present. Vnodes opened without the needed mode get \<^verbatim>\<open>E_BADF\<close>. No assertion fails.
\<close>

theorem memfile_io_correct:
  assumes "mf_ok f" "voffset v \<le> mf_len f" "voffset v + length src \<le> 2 ^ 63 - 1"
  shows "(\<not> writeable v \<longrightarrow> memfile_write room junk src v f = Some (E_BADF, v, f)) \<and>
    (writeable v \<and> mf_len f < voffset v + length src \<and> no_space room (voffset v + length src) f \<longrightarrow>
      memfile_write room junk src v f = Some (E_NOSPC, v, f)) \<and>
    (writeable v \<and> \<not> (mf_len f < voffset v + length src \<and> no_space room (voffset v + length src) f) \<longrightarrow>
      (\<exists>v' f'. memfile_write room junk src v f = Some (int (length src), v', f') \<and> mf_ok f' \<and>
        v' = v\<lparr>voffset := voffset v + length src\<rparr> \<and> mf_name f' = mf_name f \<and>
        mf_cap f' = (if mf_len f < voffset v + length src \<and> mf_cap f < voffset v + length src then new_cap (voffset v + length src) else mf_cap f) \<and>
        mf_content f' = take (voffset v) (mf_content f) @ src @ drop (voffset v + length src) (mf_content f))) \<and>
    (\<not> readable v \<longrightarrow> memfile_read sz v f = Some (E_BADF, [], v)) \<and>
    (readable v \<longrightarrow> (\<exists>bs v'. memfile_read sz v f = Some (int (length bs), bs, v') \<and>
        bs = take sz (drop (voffset v) (mf_content f)) \<and> voffset v' = voffset v + length bs \<and> voffset v' \<le> mf_len f))"
proof -
  have I: "mf_len f \<le> length (mf_data f)" "mf_cap f \<le> length (mf_data f)" using assms(1) by (simp_all add: mf_ok_def)
  let ?n = "voffset v + length src"
  have W: "if mf_len f < ?n \<and> no_space room ?n f then memfile_write room junk src v f = Some (E_NOSPC, v, f)
      else \<exists>f'. memfile_write room junk src v f = Some (int (length src), v\<lparr>voffset := ?n\<rparr>, f') \<and> mf_ok f' \<and> mf_name f' = mf_name f \<and>
        mf_cap f' = (if mf_len f < ?n \<and> mf_cap f < ?n then new_cap ?n else mf_cap f) \<and>
        mf_content f' = take (voffset v) (mf_content f) @ src @ drop ?n (mf_content f)" if w: "writeable v"
  proof (cases "mf_len f < ?n")
    case False
    then have fit: "?n \<le> mf_len f" by simp
    then have "memfile_write room junk src v f = Some (int (length src), v\<lparr>voffset := ?n\<rparr>, f\<lparr>mf_data := blit (mf_data f) (voffset v) src\<rparr>)"
      using w assms(2) by (auto simp: memfile_write_def io_sz_def errno)
    then show ?thesis using fit I assms(2) blit_content [of "voffset v" src "mf_data f" "mf_len f" "mf_content f" "mf_len f"]
      by (simp add: mf_ok_def mf_content_def)
  next
    case True
    have g: "mf_len f \<le> ?n" and p: "0 < ?n" using True by linarith+
    obtain r f1 where S: "set_length room junk ?n f = Some (r, f1)" "mf_ok f1"
      "if no_space room ?n f then r = E_NOSPC \<and> f1 = f
       else r = 0 \<and> mf_len f1 = ?n \<and> mf_name f1 = mf_name f \<and> mf_cap f1 = (if ?n > mf_cap f then new_cap ?n else mf_cap f) \<and>
         take (mf_len f) (mf_data f1) = mf_content f"
      using set_length_spec [OF assms(1) g assms(3) p, of room junk] by blast
    have "mf_len f - voffset v < length src" using True assms(2) by linarith
    then have M: "memfile_write room junk src v f = (if r = E_NOSPC then Some (E_NOSPC, v, f1)
        else Some (int (length src), v\<lparr>voffset := ?n\<rparr>, f1\<lparr>mf_data := blit (mf_data f1) (voffset v) src\<rparr>))"
      using w assms(2) S(1) by (simp add: memfile_write_def io_sz_def)
    show ?thesis
    proof (cases "no_space room ?n f")
      case ns: True
      then show ?thesis using M S(3) True by simp
    next
      case ns: False
      then have R: "r = 0" "mf_len f1 = ?n" "take (mf_len f) (mf_data f1) = mf_content f" using S(3) by auto
      have l: "?n \<le> length (mf_data f1)" using S(2) R(2) by (simp add: mf_ok_def)
      have "take (mf_len f1) (blit (mf_data f1) (voffset v) src) = take (voffset v) (mf_content f) @ src @ drop ?n (mf_content f)"
        using blit_content [OF l assms(2) R(3)] g l R(2) by simp
      then show ?thesis using M R(1) ns S(2,3) R(2) l True by (simp add: mf_ok_def mf_content_def errno)
    qed
  qed
  have "memfile_read sz v f = Some (int (length bs), bs, v\<lparr>voffset := voffset v + length bs\<rparr>) \<and> voffset v + length bs \<le> mf_len f"
    if "readable v" "bs = take sz (drop (voffset v) (mf_content f))" for bs
    using that I assms(2) by (auto simp: memfile_read_def io_sz_def mf_content_def drop_take min_def)
  then have R: "readable v \<longrightarrow> (\<exists>bs v'. memfile_read sz v f = Some (int (length bs), bs, v') \<and>
        bs = take sz (drop (voffset v) (mf_content f)) \<and> voffset v' = voffset v + length bs \<and> voffset v' \<le> mf_len f)" by auto
  have B: "\<not> writeable v \<longrightarrow> memfile_write room junk src v f = Some (E_BADF, v, f)" "\<not> readable v \<longrightarrow> memfile_read sz v f = Some (E_BADF, [], v)"
    by (simp_all add: memfile_write_def memfile_read_def)
  show ?thesis using W R B unfolding if_bool_eq_conj by blast
qed

theorem memfile_io_correct_witness:
  "let v = \<lparr>vmode = 3, voffset = 1, vrefcount = 1\<rparr>; f = \<lparr>mf_name = [65, 0], mf_data = [1, 2], mf_len = 2, mf_cap = 2\<rparr>
   in (\<exists>v' f'. memfile_write (\<lambda>n. n = 4) (\<lambda>i. 0) [7, 8] v f = Some (2, v', f') \<and> mf_content f' = [1, 7, 8] \<and> mf_cap f' = 4) \<and>
      memfile_write (\<lambda>n. False) (\<lambda>i. 0) [7, 8] v f = Some (E_NOSPC, v, f)"
proof -
  let ?v = "\<lparr>vmode = 3, voffset = 1, vrefcount = 1\<rparr>" and ?f = "\<lparr>mf_name = [65, 0], mf_data = [1, 2], mf_len = 2, mf_cap = 2\<rparr>"
  have "new_cap 3 = 4" by code_simp
  then have c: "new_cap (Suc (Suc (Suc 0))) = 4" by (simp only: numeral_3_eq_3)
  show ?thesis
    using memfile_io_correct [of ?f ?v "[7, 8]" "\<lambda>n. n = 4" "\<lambda>i. 0" 0] memfile_io_correct [of ?f ?v "[7, 8]" "\<lambda>n. False" "\<lambda>i. 0" 0]
    by (auto simp: mf_ok_def writeable_def OF_WRITE_def mf_content_def no_space_def c)
qed

end
