(* ===== verification/DiskFile.thy ===== *)
theory DiskFile
  imports FileIter Vnode
begin

text \<open>
  Open disk files: \<^verbatim>\<open>disk_vnode::write\<close>, \<^verbatim>\<open>read\<close>, \<^verbatim>\<open>lseek\<close> and \<^verbatim>\<open>ftruncate\<close> of \<^verbatim>\<open>k-vfs.cc\<close>, over the file
  iterator, the extent allocator and the blocks of data the buffer cache shows. The state is the
  file (its extents, indirect blocks and the free block bitmap), the bytes of the data blocks, the
  size field of the inode and the offset of the vnode. \<open>avail b\<close> says that
  \<^verbatim>\<open>bufcache::get_disk_entry(b)\<close> gives an entry, for the length of one call; the inode is locked for
  that time, so no other thread changes the file. Prefetching changes no contents (theory
  \<open>BufCache\<close>) and is left out. A failed assertion is \<open>None\<close>.
\<close>

record diskfile =
  ffile :: fsfile
  ddata :: "nat \<Rightarrow> u8 list"
  dsize :: nat
  doff :: int

definition LSEEK_SET :: int where "LSEEK_SET = 0"
definition LSEEK_CUR :: int where "LSEEK_CUR = 1"
definition LSEEK_END :: int where "LSEEK_END = 2"
definition LSEEK_SIZE :: int where "LSEEK_SIZE = 3"

lemmas lseek_origin = LSEEK_SET_def LSEEK_CUR_def LSEEK_END_def LSEEK_SIZE_def

text \<open>A signed value as \<^verbatim>\<open>size_t\<close>, and the 64-bit two's complement value of an integer.\<close>

definition sz64 :: "int \<Rightarrow> nat" where "sz64 i = nat (i mod 2 ^ 64)"
definition off64 :: "int \<Rightarrow> int" where "off64 i = (i + 2 ^ 63) mod 2 ^ 64 - 2 ^ 63"

subsection \<open>Writing\<close>

text \<open>The loop that walks to the end of the allocated space.\<close>

partial_function (option) to_end :: "(nat \<Rightarrow> bool) \<Rightarrow> fsfile \<Rightarrow> fileiter \<Rightarrow> fileiter option" where
  "to_end avail f it =
     (if fi_active f it then
        (case fi_next avail f it of None \<Rightarrow> None | Some it' \<Rightarrow> to_end avail f it')
      else Some it)"

definition extend :: "(nat \<Rightarrow> bool) \<Rightarrow> nat \<Rightarrow> nat \<Rightarrow> fileiter \<Rightarrow> diskfile \<Rightarrow> (fileiter \<times> diskfile) option" where
  "extend avail fbb_bn sz it d =
     (let alloc_sz = off it mod 2 ^ 32; want = (sz64 (doff d) + sz) mod 2 ^ 64
      in if want > alloc_sz then
           (let count = (want - alloc_sz + (blocksize - 1)) mod 2 ^ 64 div blocksize mod 2 ^ 32
            in case allocate_extent avail fbb_bn count (fbb (ffile d)) of
                 None \<Rightarrow> None
               | Some (first, v) \<Rightarrow>
                   if first \<ge> errbn E_MINERROR then Some (it, d\<lparr>ffile := (ffile d)\<lparr>fbb := v\<rparr>\<rparr>)
                   else
                     (case fi_insert avail fbb_bn True first count ((ffile d)\<lparr>fbb := v\<rparr>) it of
                        None \<Rightarrow> None
                      | Some (r, f, it') \<Rightarrow>
                          if r < 0 then
                            map_option (\<lambda>w. (it', d\<lparr>ffile := f\<lparr>fbb := w\<rparr>\<rparr>)) (free_extent avail fbb_bn first count (fbb f))
                          else Some (it', d\<lparr>ffile := f\<rparr>)))
         else Some (it, d))"

text \<open>\<^verbatim>\<open>it.get_disk_entry()\<close> as the number of the block it gives.\<close>

definition it_entry :: "(nat \<Rightarrow> bool) \<Rightarrow> fsfile \<Rightarrow> fileiter \<Rightarrow> nat option" where
  "it_entry avail f it =
     (let bn = fi_blocknum f it in if bn \<noteq> 0 \<and> avail bn then Some bn else None)"

text \<open>The copying loop; \<open>src\<close> is what is left to write and \<open>n\<close> is \<^verbatim>\<open>nwritten\<close>.\<close>

function copy_in :: "(nat \<Rightarrow> bool) \<Rightarrow> fileiter \<Rightarrow> u8 list \<Rightarrow> nat \<Rightarrow> diskfile \<Rightarrow> (nat \<times> diskfile) option" where
  "copy_in avail it src n d =
     (if src = [] then Some (n, d)
      else case fi_find avail (ffile d) it (sz64 (doff d)) of
        None \<Rightarrow> None
      | Some it' \<Rightarrow>
          (case it_entry avail (ffile d) it' of
             None \<Rightarrow> Some (n, d)
           | Some bn \<Rightarrow>
               (let b = fi_block_relative_offset it'; ncopy = min (blocksize - b) (length src)
                in copy_in avail it' (drop ncopy src) (n + ncopy)
                     (d\<lparr>ddata := (ddata d)(bn := blit (ddata d bn) b (take ncopy src)), doff := off64 (doff d + int ncopy)\<rparr>))))"
  by pat_completeness auto
termination
  by (relation "measure (\<lambda>(avail, it, src, n, d). length src)") (auto simp: fi_block_relative_offset_def kconst)

declare copy_in.simps [simp del]

definition write_nolock :: "(nat \<Rightarrow> bool) \<Rightarrow> nat \<Rightarrow> u8 list \<Rightarrow> diskfile \<Rightarrow> (nat \<times> diskfile) option" where
  "write_nolock avail fbb_bn src d =
     (case to_end avail (ffile d) fi_new of
        None \<Rightarrow> None
      | Some it \<Rightarrow>
          (case extend avail fbb_bn (length src) it d of
             None \<Rightarrow> None
           | Some (it', d1) \<Rightarrow>
               (case copy_in avail it' src 0 d1 of
                  None \<Rightarrow> None
                | Some (n, d2) \<Rightarrow> Some (n, d2\<lparr>dsize := max (dsize d2) (nat (doff d2 mod 2 ^ 32))\<rparr>))))"

definition disk_write :: "(nat \<Rightarrow> bool) \<Rightarrow> nat \<Rightarrow> vnode \<Rightarrow> u8 list \<Rightarrow> diskfile \<Rightarrow> (int \<times> diskfile) option" where
  "disk_write avail fbb_bn v src d =
     (if \<not> writeable v then Some (E_BADF, d)
      else map_option (\<lambda>(n, d'). (int n, d')) (write_nolock avail fbb_bn src d))"

subsection \<open>Reading\<close>

function copy_out :: "(nat \<Rightarrow> bool) \<Rightarrow> fileiter \<Rightarrow> nat \<Rightarrow> u8 list \<Rightarrow> diskfile \<Rightarrow> (u8 list \<times> diskfile) option" where
  "copy_out avail it left out d =
     (if left = 0 then Some (out, d)
      else case fi_find avail (ffile d) it (sz64 (doff d)) of
        None \<Rightarrow> None
      | Some it' \<Rightarrow>
          (case it_entry avail (ffile d) it' of
             None \<Rightarrow> check (fi_empty (ffile d) it') (Some (out, d))
           | Some bn \<Rightarrow>
               (let b = fi_block_relative_offset it';
                    ncopy = min (sz64 (int (dsize d) - off64 (int (off it')))) (min (blocksize - b) left);
                    out' = out @ take ncopy (drop b (ddata d bn));
                    d' = d\<lparr>doff := off64 (doff d + int ncopy)\<rparr>
                in if ncopy = 0 then Some (out', d')
                   else copy_out avail it' (left - ncopy) out' d')))"
  by pat_completeness auto
termination
  by (relation "measure (\<lambda>(avail, it, left, out, d). left)") auto

declare copy_out.simps [simp del]

definition disk_read :: "(nat \<Rightarrow> bool) \<Rightarrow> vnode \<Rightarrow> nat \<Rightarrow> diskfile \<Rightarrow> (int \<times> u8 list \<times> diskfile) option" where
  "disk_read avail v sz d =
     (if \<not> readable v then Some (E_BADF, [], d)
      else map_option (\<lambda>(out, d'). (int (length out), out, d')) (copy_out avail fi_new sz [] d))"

subsection \<open>Seeking and truncating\<close>

definition seek_invalid :: "int \<Rightarrow> int \<Rightarrow> diskfile \<Rightarrow> bool" where
  "seek_invalid offs origin d \<longleftrightarrow>
     (origin = LSEEK_SET \<and> offs > int (dsize d)) \<or>
     (origin = LSEEK_CUR \<and> off64 (offs + doff d) > int (dsize d)) \<or>
     (origin = LSEEK_END \<and> offs > 0)"

definition lseek_nolock :: "int \<Rightarrow> int \<Rightarrow> diskfile \<Rightarrow> (int \<times> diskfile) option" where
  "lseek_nolock offs origin d =
     (if seek_invalid offs origin d then Some (E_INVAL, d)
      else if origin = LSEEK_SET then Some (offs, d\<lparr>doff := offs\<rparr>)
      else if origin = LSEEK_CUR then (let o' = off64 (doff d + offs) in Some (o', d\<lparr>doff := o'\<rparr>))
      else if origin = LSEEK_END then (let o' = off64 (int (dsize d) + offs) in Some (o', d\<lparr>doff := o'\<rparr>))
      else None)"

definition disk_lseek :: "int \<Rightarrow> int \<Rightarrow> diskfile \<Rightarrow> (int \<times> diskfile) option" where
  "disk_lseek offs origin d =
     (if origin = LSEEK_SIZE then Some (int (dsize d), d)
      else case lseek_nolock offs origin d of
        None \<Rightarrow> None
      | Some (r, d') \<Rightarrow> if r = E_INVAL then Some (E_INVAL, d') else Some (doff d', d'))"




subsection \<open>The contents of a file\<close>

definition raw :: "diskfile \<Rightarrow> u8 list" where
  "raw d = concat (map (ddata d) (file_blocks (ffile d)))"

definition fcontent :: "diskfile \<Rightarrow> u8 list" where
  "fcontent d = take (dsize d) (raw d)"

abbreviation cap :: "diskfile \<Rightarrow> nat" where
  "cap d \<equiv> blocksize * length (file_blocks (ffile d))"

definition meta_blocks :: "fsfile \<Rightarrow> nat set" where
  "meta_blocks f = {fst (indirect f) ..< fst (indirect f) + snd (indirect f)}"

text \<open>
  What a consistent file system guarantees of a file: the layout invariant of the extents, every
  block belongs to the file once and is not an indirect block or a block of the allocator, and all
  of them are marked taken. The two views of a block, as extents and as bytes, are then views of
  different blocks.
\<close>

definition blocks_inv :: "nat \<Rightarrow> fsfile \<Rightarrow> bool" where
  "blocks_inv fbb_bn f \<longleftrightarrow> wf_file f \<and> clean_tail (all_ext f) \<and> (\<forall>e \<in> set (exts_of (all_ext f)). small_ext e) \<and>
     length (fbb f) = 512 \<and> distinct (file_blocks f) \<and> set (file_blocks f) \<inter> meta_blocks f = {} \<and>
     (\<forall>b \<in> set (file_blocks f) \<union> meta_blocks f \<union> {0, fbb_bn}. \<not> bs_bit (fbb f) b) \<and>
     {0, fbb_bn} \<inter> (set (file_blocks f) \<union> meta_blocks f) = {}"

definition df_inv :: "nat \<Rightarrow> diskfile \<Rightarrow> bool" where
  "df_inv fbb_bn d \<longleftrightarrow> blocks_inv fbb_bn (ffile d) \<and> (\<forall>b. length (ddata d b) = blocksize) \<and>
     dsize d \<le> cap d \<and> cap d < 2 ^ 32 \<and> 0 \<le> doff d \<and> doff d \<le> int (dsize d)"

lemma blocksize_pos [simp]: "0 < blocksize"
  by (simp add: kconst)

lemma block_split: "j < blocksize \<Longrightarrow> (blocksize * q + j) div blocksize = q" "j < blocksize \<Longrightarrow> (blocksize * q + j) mod blocksize = j"
  by simp_all

lemma block_fits: "q < n \<Longrightarrow> blocksize * q + blocksize \<le> blocksize * n"
  by (metis Suc_leI add.commute mult_Suc_right mult_le_mono2)

lemma sz64_small: "n < 2 ^ 64 \<Longrightarrow> sz64 (int n) = n"
  by (simp add: sz64_def)

lemma off64_small: "- (2 ^ 63) \<le> i \<Longrightarrow> i < 2 ^ 63 \<Longrightarrow> off64 i = i"
  by (simp add: off64_def)

lemma length_raw: "(\<And>b. length (ddata d b) = blocksize) \<Longrightarrow> length (raw d) = cap d"
  by (simp add: raw_def length_concat o_def sum_list_triv)

lemma concat_blocks_nth:
  "(\<And>x. x \<in> set bs \<Longrightarrow> length (g x) = n) \<Longrightarrow> p < n * length bs \<Longrightarrow> concat (map g bs) ! p = g (bs ! (p div n)) ! (p mod n)"
proof (induction bs arbitrary: p)
  case (Cons b bs)
  have n: "0 < n" using Cons.prems(2) by (cases n) auto
  show ?case
  proof (cases "p < n")
    case False
    then have "p div n = Suc ((p - n) div n)" "p mod n = (p - n) mod n" using n by (simp_all add: le_div_geq le_mod_geq)
    then show ?thesis using False Cons.IH [of "p - n"] Cons.prems by (simp add: nth_append)
  qed (use Cons.prems in \<open>simp add: nth_append\<close>)
qed simp

lemma raw_nth: "(\<And>b. length (ddata d b) = blocksize) \<Longrightarrow> p < cap d \<Longrightarrow> raw d ! p = ddata d (file_blocks (ffile d) ! (p div blocksize)) ! (p mod blocksize)"
  unfolding raw_def by (rule concat_blocks_nth) auto

lemma raw_block:
  assumes "\<And>b. length (ddata d b) = blocksize" "p < cap d" "m \<le> blocksize - p mod blocksize"
  shows "take m (drop (p mod blocksize) (ddata d (file_blocks (ffile d) ! (p div blocksize)))) = take m (drop p (raw d))"
    and "p + m \<le> cap d"
proof -
  let ?q = "p div blocksize"
  have q: "?q < length (file_blocks (ffile d))" using assms(2) by (simp add: div_less_iff_less_mult mult.commute)
  have pq: "p = blocksize * ?q + p mod blocksize" by simp
  have "blocksize * Suc ?q \<le> cap d" using q by (intro mult_le_mono) auto
  then show le: "p + m \<le> cap d" using pq assms(3) mod_less_divisor [OF blocksize_pos, of p] by (simp only: mult_Suc_right)
  show "take m (drop (p mod blocksize) (ddata d (file_blocks (ffile d) ! ?q))) = take m (drop p (raw d))"
  proof (rule nth_equalityI)
    show "length (take m (drop (p mod blocksize) (ddata d (file_blocks (ffile d) ! ?q)))) = length (take m (drop p (raw d)))"
      using assms(1,3) le length_raw [OF assms(1)] by simp
  next
    fix i assume "i < length (take m (drop (p mod blocksize) (ddata d (file_blocks (ffile d) ! ?q))))"
    then have i: "i < m" "p mod blocksize + i < blocksize" using assms(1,3) by auto
    have e: "p + i = blocksize * ?q + (p mod blocksize + i)" by simp
    have "(p + i) div blocksize = ?q" "(p + i) mod blocksize = p mod blocksize + i"
      unfolding e by (rule block_split [OF i(2)])+
    moreover have "p + i < cap d" using i(1) le by linarith
    ultimately have "raw d ! (p + i) = ddata d (file_blocks (ffile d) ! ?q) ! (p mod blocksize + i)"
      using raw_nth [OF assms(1), of "p + i"] by simp
    then show "take m (drop (p mod blocksize) (ddata d (file_blocks (ffile d) ! ?q))) ! i = take m (drop p (raw d)) ! i"
      using i assms(1) le length_raw [OF assms(1)] by (simp add: nth_drop)
  qed
qed

lemma raw_write:
  assumes l: "\<And>b. length (ddata d b) = blocksize" and "p < cap d" "length xs \<le> blocksize - p mod blocksize" "distinct (file_blocks (ffile d))"
    and bn: "bn = file_blocks (ffile d) ! (p div blocksize)"
    and d': "ffile d' = ffile d" "ddata d' = (ddata d)(bn := blit (ddata d bn) (p mod blocksize) xs)"
  shows "raw d' = blit (raw d) p xs" "\<And>b. length (ddata d' b) = blocksize"
proof -
  let ?q = "p div blocksize"
  have fit: "p mod blocksize + length xs \<le> blocksize" using assms(3) mod_less_divisor [OF blocksize_pos, of p] by linarith
  show l': "\<And>b. length (ddata d' b) = blocksize" using l d'(2) fit by simp
  have q: "?q < length (file_blocks (ffile d))" using assms(2) by (simp add: div_less_iff_less_mult mult.commute)
  have le: "p + length xs \<le> cap d" by (rule raw_block(2) [OF l assms(2,3)])
  show "raw d' = blit (raw d) p xs"
  proof (rule nth_equalityI)
    show "length (raw d') = length (blit (raw d) p xs)" using length_raw [OF l] length_raw [of d', OF l'] d'(1) le by simp
  next
    fix i assume "i < length (raw d')"
    then have i: "i < cap d" using length_raw [of d', OF l'] d'(1) by simp
    then have iq: "i div blocksize < length (file_blocks (ffile d))" by (simp add: div_less_iff_less_mult mult.commute)
    have R: "raw d' ! i = ddata d' (file_blocks (ffile d) ! (i div blocksize)) ! (i mod blocksize)" using raw_nth [of d', OF l'] i d'(1) by simp
    have B: "blit (raw d) p xs ! i = (if p \<le> i \<and> i < p + length xs then xs ! (i - p) else raw d ! i)"
      using nth_blit [of p xs "raw d" i] le i length_raw [OF l] by simp
    show "raw d' ! i = blit (raw d) p xs ! i"
    proof (cases "i div blocksize = ?q")
      case False
      then have "file_blocks (ffile d) ! (i div blocksize) \<noteq> bn" using bn assms(4) q iq by (simp add: nth_eq_iff_index_eq)
      moreover have "\<not> (p \<le> i \<and> i < p + length xs)"
      proof
        assume "p \<le> i \<and> i < p + length xs"
        then obtain j where j: "i = p + j" "j < length xs" by (metis le_Suc_ex nat_add_left_cancel_less)
        then have "i = blocksize * ?q + (p mod blocksize + j)" "p mod blocksize + j < blocksize" using fit by (simp_all add: add.assoc [symmetric])
        then show False using False by (metis div_mult_self4 div_less add_0 add.commute blocksize_pos less_numeral_extra(3) mult.commute)
      qed
      ultimately show ?thesis using R B d'(2) raw_nth [OF l i] by auto
    next
      case True
      have im: "i = blocksize * ?q + i mod blocksize" using True by (metis mult_div_mod_eq)
      have pm: "p = blocksize * ?q + p mod blocksize" by simp
      have c: "p \<le> i \<longleftrightarrow> p mod blocksize \<le> i mod blocksize" "i < p + length xs \<longleftrightarrow> i mod blocksize < p mod blocksize + length xs"
        "i - p = i mod blocksize - p mod blocksize" using im pm by linarith+
      have "raw d' ! i = blit (ddata d bn) (p mod blocksize) xs ! (i mod blocksize)" using R True bn d'(2) by simp
      also have "\<dots> = (if p \<le> i \<and> i < p + length xs then xs ! (i - p) else ddata d bn ! (i mod blocksize))"
        using nth_blit [of "p mod blocksize" xs "ddata d bn" "i mod blocksize"] fit l c by simp
      finally show ?thesis using B raw_nth [OF l i] True bn by simp
    qed
  qed
qed


subsection \<open>Walking to the end\<close>

lemma at_block_lt:
  assumes "fi_ok f it" "at_block f it"
  shows "off it < blocksize * length (file_blocks f)"
proof -
  let ?E = "all_ext f" and ?k = "eidx it"
  have k: "?k < length (exts_of ?E)" "off it < eoff it + snd (?E ! ?k) * blocksize" using assms(2) by (auto simp: at_block_def)
  have "eoff it = blocksize * ext_start ?E ?k" using assms by (auto simp: fi_ok_def at_block_def)
  then have "off it < blocksize * ext_start ?E (Suc ?k)" using k ext_start_Suc [OF k(1)] by (simp add: algebra_simps)
  also have "\<dots> \<le> blocksize * length (file_blocks f)"
    using ext_start_mono [of ?E "Suc ?k"] by (simp add: file_blocks_def length_blocks)
  finally show ?thesis .
qed

lemma at_block_eptr:
  assumes "wf_file f" "fi_ok f it" "at_block f it"
  shows "eptr f it \<in> set (exts_of (all_ext f))"
proof -
  have k: "eidx it < length (exts_of (all_ext f))" "live it" using assms(3) by (auto simp: at_block_def)
  then have "eptr f it = all_ext f ! eidx it" using all_ext_nth [OF assms(1), of "eidx it"] assms(2) by (auto simp: fi_ok_def ext_at_def)
  then show ?thesis using exts_nth [OF k(1)] k(1) by (metis nth_mem)
qed

lemma round_next: "blocksize dvd p \<Longrightarrow> (p + 1 + blocksize - 1) div blocksize * blocksize = p + blocksize"
  by (auto simp: dvd_def)

lemma to_end_spec:
  assumes "wf_file f" "all_avail avail f" "\<forall>e \<in> set (exts_of (all_ext f)). small_ext e"
    and "fi_ok f it" "at_block f it \<and> blocksize dvd off it \<or> end_pos f it \<and> off it = blocksize * length (file_blocks f)"
  shows "\<exists>it'. to_end avail f it = Some it' \<and> end_pos f it' \<and> off it' = blocksize * length (file_blocks f)"
  using assms(4,5)
proof (induction "blocksize * length (file_blocks f) - off it" arbitrary: it rule: less_induct)
  case less
  let ?N = "blocksize * length (file_blocks f)"
  show ?case
  proof (cases "at_block f it \<and> blocksize dvd off it")
    case True
    have lt: "off it < ?N" by (rule at_block_lt) (use True less.prems in auto)
    then have le: "off it + blocksize \<le> ?N" using True by (auto simp: dvd_def block_fits)
    have act: "fi_active f it" using at_block_blocknum [OF assms(1) less.prems(1)] True by blast
    obtain it' where f: "fi_find avail f it (off it + blocksize) = Some it'" "off it' = off it + blocksize" "fi_ok f it'"
      "if off it + blocksize < ?N then at_block f it' else at_end f it'"
      using fi_find_spec [OF assms(1,2) less.prems(1), of "off it + blocksize"] by blast
    have "\<not> (live it' \<and> fst (eptr f it') = 0)"
      using f(3,4) at_block_eptr [OF assms(1) f(3)] assms(3) by (auto simp: small_ext_def at_end_def split: if_splits)
    then have "fi_next avail f it = Some it'" using act f(1) round_next [of "off it"] True
      by (auto simp: fi_next_def fi_next_loop.simps [of avail f it] add.commute [of blocksize])
    then have T: "to_end avail f it = to_end avail f it'" using act by (subst to_end.simps) simp
    have m: "?N - off it' < ?N - off it" using f(2) lt blocksize_pos by linarith
    have "at_block f it' \<and> blocksize dvd off it' \<or> end_pos f it' \<and> off it' = ?N"
      using f True le at_end_pos [of f it'] by (auto split: if_splits)
    then show ?thesis using less.hyps [OF m f(3)] T by simp
  next
    case False
    then have e: "end_pos f it" "off it = ?N" using less.prems(2) by auto
    then have "\<not> fi_active f it" using end_pos_eptr [OF assms(1) e(1)] by (auto simp: fi_active_def)
    then show ?thesis using e by (subst to_end.simps) simp
  qed
qed

lemma blocks_empty: "length (file_blocks f) = 0 \<longleftrightarrow> length (exts_of (all_ext f)) = 0"
proof -
  have "\<forall>e \<in> set (exts_of (all_ext f)). ext_blocks e \<noteq> []" using exts_all by (metis list.size(3) length_ext_blocks)
  then show ?thesis by (cases "exts_of (all_ext f)") (auto simp: file_blocks_def blocks_of_def simp flip: length_ext_blocks)
qed

lemma fi_new_start:
  assumes "wf_file f"
  shows "fi_ok f fi_new" "at_block f fi_new \<and> blocksize dvd off fi_new \<or> end_pos f fi_new \<and> off fi_new = blocksize * length (file_blocks f)"
proof -
  have l: "0 < length (all_ext f)" using length_all_ext [OF assms] by (simp add: kconst)
  then show "fi_ok f fi_new" by (simp add: fi_ok_def fi_new_def ext_start_def kconst)
  show "at_block f fi_new \<and> blocksize dvd off fi_new \<or> end_pos f fi_new \<and> off fi_new = blocksize * length (file_blocks f)"
  proof (cases "length (exts_of (all_ext f)) = 0")
    case True
    then have "length (file_blocks f) = 0" by (simp only: blocks_empty)
    then show ?thesis using True l by (simp add: end_pos_def fi_new_def kconst)
  next
    case False
    then show ?thesis using exts_nth [of 0 "all_ext f"] by (simp add: at_block_def fi_new_def)
  qed
qed

lemma to_end_new:
  "wf_file f \<Longrightarrow> all_avail avail f \<Longrightarrow> \<forall>e \<in> set (exts_of (all_ext f)). small_ext e \<Longrightarrow>
   \<exists>it'. to_end avail f fi_new = Some it' \<and> end_pos f it' \<and> off it' = blocksize * length (file_blocks f)"
  by (rule to_end_spec) (auto simp: fi_new_start)


subsection \<open>Copying\<close>

abbreviation readable_file :: "(nat \<Rightarrow> bool) \<Rightarrow> fsfile \<Rightarrow> bool" where
  "readable_file avail f \<equiv> wf_file f \<and> all_avail avail f \<and> (\<forall>e \<in> set (exts_of (all_ext f)). small_ext e)"

abbreviation whole_blocks :: "diskfile \<Rightarrow> bool" where
  "whole_blocks d \<equiv> \<forall>b. length (ddata d b) = blocksize"

lemma blocks_small: "\<forall>e \<in> set (exts_of (all_ext f)). small_ext e \<Longrightarrow> b \<in> set (file_blocks f) \<Longrightarrow> 0 < b \<and> b < 2 ^ 32"
  by (fastforce simp: file_blocks_def blocks_of_def ext_blocks_def small_ext_def split: if_splits)

text \<open>Where the iterator stands after \<^verbatim>\<open>find\<close>, and what \<^verbatim>\<open>get_disk_entry\<close> gives there.\<close>

lemma find_entry:
  assumes "readable_file avail f" "fi_ok f it"
  shows "\<exists>it'. fi_find avail f it p = Some it' \<and> off it' = p \<and> fi_ok f it' \<and>
     (if p < blocksize * length (file_blocks f)
      then it_entry avail f it' = (if avail (file_blocks f ! (p div blocksize)) then Some (file_blocks f ! (p div blocksize)) else None) \<and> \<not> fi_empty f it'
      else it_entry avail f it' = None \<and> fi_empty f it')"
proof -
  obtain it' where f: "fi_find avail f it p = Some it'" "off it' = p" "fi_ok f it'"
    "if p < blocksize * length (file_blocks f) then at_block f it' else at_end f it'"
    using fi_find_spec [of f avail it p] assms by blast
  show ?thesis
  proof (cases "p < blocksize * length (file_blocks f)")
    case True
    then have b: "at_block f it'" using f(4) by simp
    have "file_blocks f ! (p div blocksize) \<in> set (file_blocks f)" using True by (simp add: div_less_iff_less_mult mult.commute)
    then have s: "0 < file_blocks f ! (p div blocksize)" "file_blocks f ! (p div blocksize) < 2 ^ 32" using blocks_small assms(1) by auto
    have "fi_blocknum f it' = file_blocks f ! (p div blocksize)" using at_block_blocknum [OF _ f(3) b] assms(1) s f(2) by simp
    moreover have "\<not> fi_empty f it'" using at_block_eptr [OF _ f(3) b] assms(1) b by (auto simp: fi_empty_def small_ext_def at_block_def)
    ultimately show ?thesis using f True s(1) by (intro exI [of _ it']) (simp add: it_entry_def)
  next
    case False
    then have "at_end f it'" using f(4) by simp
    then have "fi_blocknum f it' = 0" "fi_empty f it'" using at_end_blocknum by (auto simp: at_end_def fi_empty_def)
    then show ?thesis using f False by (intro exI [of _ it']) (simp add: it_entry_def)
  qed
qed

lemma blit_Nil [simp]: "blit xs p [] = xs"
  by (simp add: blit_def)

lemma blit_blit: "p + length ys + length zs \<le> length xs \<Longrightarrow> blit (blit xs p ys) (p + length ys) zs = blit xs p (ys @ zs)"
  by (simp add: blit_def add.assoc add.commute [of "length zs"])

lemma copy_in_spec:
  assumes "readable_file avail (ffile d)" "distinct (file_blocks (ffile d))" "whole_blocks d" "fi_ok (ffile d) it"
    and "doff d = int p" "p + length src < 2 ^ 63"
  shows "\<exists>m d'. copy_in avail it src n d = Some (n + m, d') \<and> m \<le> length src \<and> ffile d' = ffile d \<and> dsize d' = dsize d \<and>
     doff d' = int (p + m) \<and> whole_blocks d' \<and> raw d' = blit (raw d) p (take m src) \<and> (m > 0 \<longrightarrow> p + m \<le> cap d) \<and>
     (\<forall>b. b \<notin> set (file_blocks (ffile d)) \<longrightarrow> ddata d' b = ddata d b) \<and>
     (m = length src \<or> cap d \<le> p + m \<or> \<not> avail (file_blocks (ffile d) ! ((p + m) div blocksize)))"
  using assms
proof (induction "length src" arbitrary: it src n d p rule: less_induct)
  case less
  note F = less.prems(1) and l = less.prems(3)
  let ?bn = "file_blocks (ffile d) ! (p div blocksize)"
  have z: "sz64 (doff d) = p" using less.prems(5,6) by (simp add: sz64_small)
  obtain it' where it': "fi_find avail (ffile d) it p = Some it'" "off it' = p" "fi_ok (ffile d) it'"
     "if p < cap d then it_entry avail (ffile d) it' = (if avail ?bn then Some ?bn else None) \<and> \<not> fi_empty (ffile d) it'
      else it_entry avail (ffile d) it' = None \<and> fi_empty (ffile d) it'"
    using find_entry [OF F less.prems(4), of p] by blast
  show ?case
  proof (cases "src = [] \<or> \<not> p < cap d \<or> \<not> avail ?bn")
    case True
    then have "copy_in avail it src n d = Some (n, d)" using it'(1,4) z by (subst copy_in.simps) (auto split: if_splits)
    then show ?thesis using True less.prems by (intro exI [of _ 0] exI [of _ d]) auto
  next
    case False
    then have p: "p < cap d" and a: "avail ?bn" and ne: "src \<noteq> []" by auto
    define nc where "nc = min (blocksize - p mod blocksize) (length src)"
    have nc: "nc \<le> blocksize - p mod blocksize" "nc \<le> length src" "0 < nc"
      using ne mod_less_divisor [OF blocksize_pos, of p] by (auto simp: nc_def simp del: mod_less_divisor)
    define d1 where "d1 = d\<lparr>ddata := (ddata d)(?bn := blit (ddata d ?bn) (p mod blocksize) (take nc src)), doff := int (p + nc)\<rparr>"
    have o: "off64 (doff d + int nc) = int (p + nc)" using less.prems(5,6) nc(2) by (simp add: off64_small)
    have C: "copy_in avail it src n d = copy_in avail it' (drop nc src) (n + nc) d1"
      using it'(1,2,4) p a ne z o by (subst copy_in.simps) (simp add: fi_block_relative_offset_def nc_def [symmetric] d1_def Let_def)
    have R: "raw d1 = blit (raw d) p (take nc src)" "whole_blocks d1"
      using raw_write [of d p "take nc src" ?bn d1] l p nc less.prems(2) by (auto simp: d1_def)
    have le: "p + nc \<le> cap d" by (rule raw_block(2)) (use l p nc in auto)
    have S: "ffile d1 = ffile d" "dsize d1 = dsize d" "doff d1 = int (p + nc)" by (simp_all add: d1_def)
    obtain m d' where M: "copy_in avail it' (drop nc src) (n + nc) d1 = Some (n + nc + m, d')" "m \<le> length (drop nc src)"
      "ffile d' = ffile d1" "dsize d' = dsize d1" "doff d' = int (p + nc + m)" "whole_blocks d'"
      "raw d' = blit (raw d1) (p + nc) (take m (drop nc src))" "m > 0 \<longrightarrow> p + nc + m \<le> cap d1"
      "\<forall>b. b \<notin> set (file_blocks (ffile d1)) \<longrightarrow> ddata d' b = ddata d1 b"
      "m = length (drop nc src) \<or> cap d1 \<le> p + nc + m \<or> \<not> avail (file_blocks (ffile d1) ! ((p + nc + m) div blocksize))"
      using less.hyps [of "drop nc src" d1 it' "p + nc" "n + nc"] nc ne less.prems R(2) S it'(3) by auto
    have le2: "p + nc + m \<le> cap d" using M(8) le S(1) by (cases "m = 0") auto
    have "raw d' = blit (raw d) p (take (nc + m) src)"
      using M(2,7) R(1) nc blit_blit [of p "take nc src" "take m (drop nc src)" "raw d"] le2 length_raw [of d] l
      by (simp add: take_add min_absorb2)
    moreover have "?bn \<in> set (file_blocks (ffile d))" using p by (simp add: div_less_iff_less_mult mult.commute)
    then have "\<forall>b. b \<notin> set (file_blocks (ffile d)) \<longrightarrow> ddata d' b = ddata d b" using M(9) by (auto simp: d1_def)
    ultimately show ?thesis using M C S le2 nc by (intro exI [of _ "nc + m"] exI [of _ d']) (auto simp: add.assoc)
  qed
qed


lemma copy_out_spec:
  assumes "readable_file avail (ffile d)" "\<forall>b \<in> set (file_blocks (ffile d)). avail b" "whole_blocks d" "fi_ok (ffile d) it"
    and "doff d = int p" "p \<le> dsize d" "dsize d \<le> cap d" "cap d < 2 ^ 32"
  shows "copy_out avail it left out d =
     Some (out @ take left (drop p (fcontent d)), d\<lparr>doff := int (p + min left (dsize d - p))\<rparr>)"
  using assms
proof (induction left arbitrary: it out d p rule: less_induct)
  case (less left)
  note F = less.prems(1) and l = less.prems(3) and pd = less.prems(5,6)
  let ?bn = "file_blocks (ffile d) ! (p div blocksize)"
  have z: "sz64 (doff d) = p" using pd less.prems(7,8) by (simp add: sz64_small)
  obtain it' where it': "fi_find avail (ffile d) it p = Some it'" "off it' = p" "fi_ok (ffile d) it'"
     "if p < cap d then it_entry avail (ffile d) it' = (if avail ?bn then Some ?bn else None) \<and> \<not> fi_empty (ffile d) it'
      else it_entry avail (ffile d) it' = None \<and> fi_empty (ffile d) it'"
    using find_entry [OF F less.prems(4), of p] by blast
  have self: "d\<lparr>doff := int p\<rparr> = d" using pd(1) by simp
  have len: "length (raw d) = cap d" using length_raw [of d] l by simp
  show ?case
  proof (cases "left = 0 \<or> \<not> p < cap d")
    case True
    then have "copy_out avail it left out d = Some (out, d)" using it'(1,4) z by (subst copy_out.simps) auto
    moreover have "left = 0 \<or> p = dsize d" using True pd less.prems(7) by auto
    ultimately show ?thesis using self by (auto simp: fcontent_def)
  next
    case False
    then have p: "p < cap d" and lf: "0 < left" by auto
    have bn: "?bn \<in> set (file_blocks (ffile d))" using p by (simp add: div_less_iff_less_mult mult.commute)
    define nc where "nc = min (dsize d - p) (min (blocksize - p mod blocksize) left)"
    have s: "sz64 (int (dsize d) - off64 (int p)) = dsize d - p"
    proof -
      have "off64 (int p) = int p" using pd less.prems(7,8) by (simp add: off64_small)
      then have "int (dsize d) - off64 (int p) = int (dsize d - p)" using pd by linarith
      then show ?thesis using less.prems(7,8) by (simp only:) (rule sz64_small, simp)
    qed
    have o: "off64 (doff d + int nc) = int (p + nc)" using pd less.prems(7,8) by (simp add: off64_small nc_def)
    have o0: "off64 (doff d) = int p" using pd less.prems(7,8) by (simp add: off64_small)
    have nc: "nc \<le> blocksize - p mod blocksize" "nc \<le> dsize d - p" "nc \<le> left" by (simp_all add: nc_def)
    have chunk: "take nc (drop (p mod blocksize) (ddata d ?bn)) = take nc (drop p (fcontent d))"
      using raw_block(1) [of d p nc] l p nc by (simp add: fcontent_def drop_take min_absorb1)
    have C: "copy_out avail it left out d =
       (if nc = 0 then Some (out @ take nc (drop p (fcontent d)), d\<lparr>doff := int (p + nc)\<rparr>)
        else copy_out avail it' (left - nc) (out @ take nc (drop p (fcontent d))) (d\<lparr>doff := int (p + nc)\<rparr>))"
      using it'(1,2,4) p less.prems(2) bn lf z o o0 s
      by (subst copy_out.simps) (simp add: fi_block_relative_offset_def nc_def [symmetric] chunk Let_def)
    show ?thesis
    proof (cases "nc = 0")
      case True
      then have "p = dsize d" using lf mod_less_divisor [OF blocksize_pos, of p] pd(2) unfolding nc_def by linarith
      then show ?thesis using C True by (simp add: fcontent_def)
    next
      case nz: False
      let ?d = "d\<lparr>doff := int (p + nc)\<rparr>"
      have f: "fcontent ?d = fcontent d" by (simp add: fcontent_def raw_def)
      have "copy_out avail it' (left - nc) (out @ take nc (drop p (fcontent d))) ?d =
         Some ((out @ take nc (drop p (fcontent d))) @ take (left - nc) (drop (p + nc) (fcontent d)), ?d\<lparr>doff := int (p + nc + min (left - nc) (dsize d - (p + nc)))\<rparr>)"
        using less.IH [of "left - nc" ?d it' "p + nc" "out @ take nc (drop p (fcontent d))"] nz nc less.prems it'(3) f by simp
      moreover have "take nc (drop p (fcontent d)) @ take (left - nc) (drop (p + nc) (fcontent d)) = take left (drop p (fcontent d))"
        using take_add [of nc "left - nc" "drop p (fcontent d)"] nc(3) by (simp add: add.commute)
      moreover have "p + nc + min (left - nc) (dsize d - (p + nc)) = p + min left (dsize d - p)" using nc by linarith
      ultimately show ?thesis using C nz by simp
    qed
  qed
qed

text \<open>When a block of the file cannot be brought into the cache, reading it halts the kernel.\<close>

lemma read_unavailable_panics:
  assumes "readable_file avail (ffile d)" "doff d = int p" "p < cap d" "cap d < 2 ^ 32" "0 < sz"
    and "\<not> avail (file_blocks (ffile d) ! (p div blocksize))" "readable v"
  shows "disk_read avail v sz d = None"
proof -
  have "wf_file (ffile d)" using assms(1) by simp
  from find_entry [OF assms(1) fi_new_start(1) [OF this], of p]
  obtain it' where "fi_find avail (ffile d) fi_new p = Some it'" "it_entry avail (ffile d) it' = None" "\<not> fi_empty (ffile d) it'"
    using assms(3,6) by auto
  moreover have "sz64 (doff d) = p" using assms(2,3,4) by (simp add: sz64_small)
  ultimately show ?thesis using assms(5,7) by (simp add: disk_read_def copy_out.simps [of avail fi_new sz])
qed


subsection \<open>Extending the file\<close>

definition insert_effect :: "(nat \<Rightarrow> bool) \<Rightarrow> fsfile \<Rightarrow> fsfile \<Rightarrow> bool" where
  "insert_effect avail f f' \<longleftrightarrow> indirect f' = indirect f \<or>
     (\<exists>b. snd (indirect f) = 0 \<and> indirect f' = (b, 1) \<and> avail b \<and> bs_bit (fbb f) b \<and> \<not> bs_bit (fbb f') b)"

lemma fi_add_indirect: "indirect (fst (fi_add first count f it)) = indirect f"
  by (simp add: fi_add_def set_ext_def Let_def)

lemma fi_insert_indirect:
  assumes v: "length (fbb f) = 512" "avail 0" "avail fbb_bn" and i: "fi_insert avail fbb_bn True first count f it = Some (r, f', it')"
  shows "insert_effect avail f f'"
proof -
  have I: "insert_effect avail f g" if "fi_indirect avail fbb_bn f it = Some (q, g, h)" for q g h
  proof (cases "eidx it = ndirect \<and> snd (indirect f) = 0")
    case True
    obtain b w where bw: "allocate_extent avail fbb_bn 1 (fbb f) = Some (b, w)"
      "b \<ge> errbn E_MINERROR \<or> bs_bit (fbb f) b \<and> \<not> bs_bit w b"
      using allocate_extent_spec [OF v, of 1] by (fastforce simp: free_run_def split: if_splits)
    then show ?thesis using that True by (auto simp: fi_indirect_def insert_effect_def split: if_splits)
  next
    case False
    then show ?thesis using that by (auto simp: fi_indirect_def insert_effect_def)
  qed
  show ?thesis
  proof (cases "eidx it > 0 \<and> eidx it \<le> ndirect \<and> (fst (direct f ! (eidx it - 1)) + snd (direct f ! (eidx it - 1))) mod 2 ^ 32 = first")
    case True
    then show ?thesis using i by (auto simp: fi_insert_def insert_effect_def Let_def split: if_splits)
  next
    case False
    then obtain q g h where q: "fi_indirect avail fbb_bn f it = Some (q, g, h)" using i
      by (cases "fi_indirect avail fbb_bn f it") (auto simp: fi_insert_def Let_def split: if_splits)
    then have "fbb f' = fbb g \<and> indirect f' = indirect g" using i False fi_add_fbb [of first count g h] fi_add_indirect [of first count g h]
      by (auto simp: fi_insert_def Let_def split: if_splits prod.splits)
    then show ?thesis using I [OF q] by (simp add: insert_effect_def)
  qed
qed

lemma fi_insert_direct:
  assumes "fi_insert avail fbb_bn True first count f it = Some (r, f', it')" "eidx it < ndirect"
  shows "r = 0"
  using assms by (auto simp: fi_insert_def fi_indirect_def Let_def split: if_splits prod.splits)

text \<open>Taking blocks that were free keeps the blocks of a file system apart.\<close>

lemma blocks_inv_insert:
  assumes inv: "blocks_inv fbb_bn f" and new: "\<And>k. first \<le> k \<Longrightarrow> k < first + count \<Longrightarrow> bs_bit (fbb f) k"
    and v: "\<And>k. bs_bit v k \<longleftrightarrow> bs_bit (fbb f) k \<and> \<not> (first \<le> k \<and> k < first + count)"
    and app: "appended (f\<lparr>fbb := v\<rparr>) first count r f'" and sub: "length (fbb f') = 512" "\<And>k. bs_bit (fbb f') k \<Longrightarrow> bs_bit v k"
    and ie: "insert_effect avail (f\<lparr>fbb := v\<rparr>) f'"
  shows "r = 0 \<Longrightarrow> blocks_inv fbb_bn f'"
    and "r \<noteq> 0 \<Longrightarrow> length w = 512 \<Longrightarrow> (\<And>k. bs_bit w k \<longleftrightarrow> bs_bit (fbb f') k \<or> first \<le> k \<and> k < first + count) \<Longrightarrow> blocks_inv fbb_bn (f'\<lparr>fbb := w\<rparr>)"
proof -
  let ?S = "set (file_blocks f) \<union> meta_blocks f \<union> {0, fbb_bn}"
  have fb: "file_blocks (f\<lparr>fbb := v\<rparr>) = file_blocks f" by (simp add: file_blocks_def all_ext_def)
  have old: "\<not> bs_bit (fbb f) k \<and> \<not> (first \<le> k \<and> k < first + count)" if "k \<in> ?S" for k
    using that inv new unfolding blocks_inv_def by blast
  have meta: "meta_blocks f' = meta_blocks f \<or> (\<exists>b. meta_blocks f' = {b} \<and> bs_bit v b \<and> \<not> bs_bit (fbb f') b)"
    using ie by (auto simp: insert_effect_def meta_blocks_def)
  have M: "\<not> bs_bit (fbb f') k \<and> \<not> (first \<le> k \<and> k < first + count) \<and> k \<notin> set (file_blocks f) \<union> {0, fbb_bn}" if k: "k \<in> meta_blocks f'" for k
  proof (cases "meta_blocks f' = meta_blocks f")
    case True
    then show ?thesis using k old [of k] sub(2) [of k] v [of k] inv unfolding blocks_inv_def by blast
  next
    case False
    then obtain b where "meta_blocks f' = {b}" "bs_bit v b" "\<not> bs_bit (fbb f') b" using meta by blast
    then have "bs_bit v k" "\<not> bs_bit (fbb f') k" using k by simp_all
    then show ?thesis using old [of k] v [of k] by blast
  qed
  have O: "\<not> bs_bit (fbb f') k" if "k \<in> ?S \<or> first \<le> k \<and> k < first + count" for k using that old [of k] sub(2) [of k] v [of k] by blast
  have D: "distinct (file_blocks f)" "{0, fbb_bn} \<inter> set (file_blocks f) = {}" using inv by (auto simp: blocks_inv_def)
  have A: "wf_file f'" "clean_tail (all_ext f')" "\<forall>e \<in> set (exts_of (all_ext f')). small_ext e" using app by (simp_all add: appended_def)
  {
    assume r: "r = 0"
    then have F: "file_blocks f' = file_blocks f @ [first..<first + count]" using app fb by (simp add: appended_def)
    have "distinct (file_blocks f')" unfolding F using D old by auto
    moreover have "set (file_blocks f') \<inter> meta_blocks f' = {}" unfolding F using M by auto
    moreover have "{0, fbb_bn} \<inter> (set (file_blocks f') \<union> meta_blocks f') = {}" unfolding F using M D old by auto
    moreover have "\<forall>b \<in> set (file_blocks f') \<union> meta_blocks f' \<union> {0, fbb_bn}. \<not> bs_bit (fbb f') b" unfolding F using M O by auto
    ultimately show "blocks_inv fbb_bn f'" unfolding blocks_inv_def using A sub(1) by (intro conjI) assumption+
  next
    assume r: "r \<noteq> 0" and w: "length w = 512" "\<And>k. bs_bit w k \<longleftrightarrow> bs_bit (fbb f') k \<or> first \<le> k \<and> k < first + count"
    then have F: "file_blocks f' = file_blocks f" using app fb by (simp add: appended_def)
    have same: "all_ext (f'\<lparr>fbb := w\<rparr>) = all_ext f'" "wf_file (f'\<lparr>fbb := w\<rparr>) = wf_file f'" "meta_blocks (f'\<lparr>fbb := w\<rparr>) = meta_blocks f'"
      by (simp_all add: all_ext_def wf_file_def meta_blocks_def)
    then have F': "file_blocks (f'\<lparr>fbb := w\<rparr>) = file_blocks f" using F by (simp add: file_blocks_def)
    have "set (file_blocks f) \<inter> meta_blocks f' = {}" "{0, fbb_bn} \<inter> (set (file_blocks f) \<union> meta_blocks f') = {}" using M D by auto
    moreover have "\<forall>b \<in> set (file_blocks f) \<union> meta_blocks f' \<union> {0, fbb_bn}. \<not> bs_bit w b"
      unfolding w(2) using M O old by auto
    ultimately show "blocks_inv fbb_bn (f'\<lparr>fbb := w\<rparr>)" unfolding blocks_inv_def F' same using A w(1) D by simp
  }
qed


lemma fbb_irrelevant:
  "all_ext (f\<lparr>fbb := v\<rparr>) = all_ext f" "wf_file (f\<lparr>fbb := v\<rparr>) = wf_file f" "file_blocks (f\<lparr>fbb := v\<rparr>) = file_blocks f"
  "ind_at (f\<lparr>fbb := v\<rparr>) = ind_at f"
  by (simp_all add: all_ext_def wf_file_def file_blocks_def ind_at_def fun_eq_iff)

lemma end_pos_fbb: "end_pos (f\<lparr>fbb := v\<rparr>) it = end_pos f it" "fi_ok (f\<lparr>fbb := v\<rparr>) it = fi_ok f it"
  by (simp_all only: end_pos_def fi_ok_def fbb_irrelevant)

lemma blocks_inv_parts:
  assumes "blocks_inv fbb_bn f"
  shows "wf_file f" "clean_tail (all_ext f)" "\<forall>e \<in> set (exts_of (all_ext f)). small_ext e" "length (fbb f) = 512"
    "distinct (file_blocks f)" "\<not> bs_bit (fbb f) 0"
  using assms by (auto simp: blocks_inv_def)

definition need :: "nat \<Rightarrow> nat \<Rightarrow> nat" where
  "need want have_sz = (want - have_sz + (blocksize - 1)) div blocksize"

text \<open>The blocks of the file after the attempt to extend it to \<open>want\<close> bytes.\<close>

definition extended :: "nat \<Rightarrow> fsfile \<Rightarrow> fsfile \<Rightarrow> bool" where
  "extended want f f' \<longleftrightarrow>
     file_blocks f' = file_blocks f \<and>
       (want \<le> blocksize * length (file_blocks f) \<or> \<not> (\<exists>x. free_run (fbb f) (need want (blocksize * length (file_blocks f))) x) \<or>
        length (exts_of (all_ext f)) \<ge> ndirect) \<or>
     want > blocksize * length (file_blocks f) \<and>
       (\<exists>first. file_blocks f' = file_blocks f @ [first..<first + need want (blocksize * length (file_blocks f))] \<and>
          free_run (fbb f) (need want (blocksize * length (file_blocks f))) first)"

lemma extend_alloc:
  assumes inv: "blocks_inv fbb_bn f" and av: "all_avail avail f" "avail 0" "avail fbb_bn"
    and it: "end_pos f it" and c: "0 < count"
  shows "\<exists>first v. allocate_extent avail fbb_bn count (fbb f) = Some (first, v) \<and>
     (if first \<ge> errbn E_MINERROR then v = fbb f \<and> \<not> (\<exists>x. free_run (fbb f) count x)
      else free_run (fbb f) count first \<and>
        (\<exists>r f' it'. fi_insert avail fbb_bn True first count (f\<lparr>fbb := v\<rparr>) it = Some (r, f', it') \<and> fi_ok f' it' \<and> all_avail avail f' \<and>
          (if r = 0 then blocks_inv fbb_bn f' \<and> file_blocks f' = file_blocks f @ [first..<first + count]
           else r < 0 \<and> length (exts_of (all_ext f)) \<ge> ndirect \<and> file_blocks f' = file_blocks f \<and>
             (\<exists>w. free_extent avail fbb_bn first count (fbb f') = Some w \<and> blocks_inv fbb_bn (f'\<lparr>fbb := w\<rparr>)))))"
proof (cases "count \<le> 2 ^ 15")
  case False
  then have "\<not> free_run (fbb f) count x" for x by (simp add: free_run_def bitsperblock_def)
  then show ?thesis using False by (auto simp: allocate_extent_def errbn_simps)
next
  case True
  note P = blocks_inv_parts [OF inv]
  obtain first v where A: "allocate_extent avail fbb_bn count (fbb f) = Some (first, v)" "length v = 512"
    "if first \<ge> errbn E_MINERROR then first = errbn E_NOSPC \<and> v = fbb f \<and> (\<forall>x. \<not> free_run (fbb f) count x)
     else free_run (fbb f) count first \<and> (\<forall>x < first. \<not> free_run (fbb f) count x) \<and>
       (\<forall>k. bs_bit v k = (if first \<le> k \<and> k < first + count then False else bs_bit (fbb f) k))"
    using allocate_extent_spec [of "fbb f" avail fbb_bn count] P(4) av c True by blast
  show ?thesis
  proof (cases "first \<ge> errbn E_MINERROR")
    case True
    then show ?thesis using A by simp
  next
    case False
    then have run: "free_run (fbb f) count first" and v: "\<And>k. bs_bit v k \<longleftrightarrow> bs_bit (fbb f) k \<and> \<not> (first \<le> k \<and> k < first + count)"
      using A(3) by auto
    have bits: "\<And>k. first \<le> k \<Longrightarrow> k < first + count \<Longrightarrow> bs_bit (fbb f) k" and room: "first + count \<le> 2 ^ 15" using run by (simp_all add: free_run_def bitsperblock_def)
    have nz: "first \<noteq> 0" using bits [of 0] P(6) c by (cases "first = 0") auto
    let ?g = "f\<lparr>fbb := v\<rparr>"
    have same: "all_ext ?g = all_ext f" "wf_file ?g" "file_blocks ?g = file_blocks f" "end_pos ?g it" "indirect ?g = indirect f"
      using P(1) it by (simp_all add: fbb_irrelevant end_pos_fbb)
    obtain r f' it' where I: "fi_insert avail fbb_bn True first count ?g it = Some (r, f', it')" "appended ?g first count r f'" "fi_ok f' it'"
      using fi_insert_spec [of ?g it avail fbb_bn first count] same P A(2) av nz c room by auto
    have ie: "insert_effect avail ?g f'" using fi_insert_indirect [OF _ _ _ I(1)] A(2) av by simp
    have sub: "length (fbb f') = 512" "\<And>k. bs_bit (fbb f') k \<Longrightarrow> bs_bit v k" using fi_insert_fbb [OF _ _ _ I(1)] A(2) av by simp_all
    have av': "all_avail avail f'" using ie av(1) by (auto simp: insert_effect_def)
    have "r = 0 \<or> r < 0" using I(2) by (auto simp: appended_def errno split: if_splits)
    moreover have "length (exts_of (all_ext f)) \<ge> ndirect" if "r \<noteq> 0"
      using fi_insert_direct [OF I(1)] that it by (simp add: end_pos_def not_less [symmetric]) blast
    moreover have "\<exists>w. free_extent avail fbb_bn first count (fbb f') = Some w \<and> blocks_inv fbb_bn (f'\<lparr>fbb := w\<rparr>)" if "r \<noteq> 0"
    proof -
      obtain w where w: "free_marks (fbb f') first count = Some w" "length w = 512"
        "\<And>k. bs_bit w k = (if first \<le> k \<and> k < first + count then True else bs_bit (fbb f') k)" using marks_correct(1) [OF sub(1) room] by blast
      have "blocks_inv fbb_bn (f'\<lparr>fbb := w\<rparr>)" by (rule blocks_inv_insert(2) [OF inv bits v I(2) sub ie that w(2)]) (use w(3) in auto)
      then show ?thesis using w(1) av by (auto simp: free_extent_def)
    qed
    moreover have "blocks_inv fbb_bn f'" if "r = 0" by (rule blocks_inv_insert(1) [OF inv bits v I(2) sub ie that])
    moreover have "if r = 0 then file_blocks f' = file_blocks f @ [first..<first + count] else file_blocks f' = file_blocks f"
      using I(2) same(3) by (simp add: appended_def)
    ultimately show ?thesis using A(1) False run I(1,3) av' by (intro exI [of _ first] exI [of _ v]) auto
  qed
qed


lemma extend_spec:
  assumes inv: "blocks_inv fbb_bn (ffile d)" and av: "all_avail avail (ffile d)" "avail 0" "avail fbb_bn"
    and it: "end_pos (ffile d) it" "off it = cap d" and c: "cap d < 2 ^ 32" and o: "doff d = int p" "p + sz < 2 ^ 32"
  shows "\<exists>it' f'. extend avail fbb_bn sz it d = Some (it', d\<lparr>ffile := f'\<rparr>) \<and> blocks_inv fbb_bn f' \<and> all_avail avail f' \<and>
     fi_ok f' it' \<and> extended (p + sz) (ffile d) f'"
proof -
  have z: "sz64 (doff d) = p" "(p + sz) mod 2 ^ 64 = p + sz" "off it mod 2 ^ 32 = cap d" using o c it(2) by (simp_all add: sz64_small)
  show ?thesis
  proof (cases "p + sz > cap d")
    case False
    then have "extend avail fbb_bn sz it d = Some (it, d\<lparr>ffile := ffile d\<rparr>)" unfolding extend_def z Let_def by simp
    moreover have "extended (p + sz) (ffile d) (ffile d)" using False by (simp add: extended_def)
    ultimately show ?thesis using inv av end_pos_ok [OF it(1)] by blast
  next
    case True
    define count where "count = need (p + sz) (cap d)"
    have s: "p + sz - cap d + (blocksize - 1) < 2 ^ 64" "(p + sz - cap d + (blocksize - 1)) div blocksize < 2 ^ 32"
      using o(2) by (simp_all add: div_less_iff_less_mult kconst)
    have cnt: "(p + sz - cap d + (blocksize - 1)) mod 2 ^ 64 div blocksize mod 2 ^ 32 = count"
      using s by (simp only: mod_less count_def need_def)
    have "blocksize \<le> p + sz - cap d + (blocksize - 1)" using True blocksize_pos by linarith
    then have pos: "0 < count" by (simp only: count_def need_def div_greater_zero_iff blocksize_pos simp_thms)
    obtain first v where A: "allocate_extent avail fbb_bn count (fbb (ffile d)) = Some (first, v)"
      "if first \<ge> errbn E_MINERROR then v = fbb (ffile d) \<and> \<not> (\<exists>x. free_run (fbb (ffile d)) count x)
       else free_run (fbb (ffile d)) count first \<and>
        (\<exists>r f' it'. fi_insert avail fbb_bn True first count ((ffile d)\<lparr>fbb := v\<rparr>) it = Some (r, f', it') \<and> fi_ok f' it' \<and> all_avail avail f' \<and>
          (if r = 0 then blocks_inv fbb_bn f' \<and> file_blocks f' = file_blocks (ffile d) @ [first..<first + count]
           else r < 0 \<and> length (exts_of (all_ext (ffile d))) \<ge> ndirect \<and> file_blocks f' = file_blocks (ffile d) \<and>
             (\<exists>w. free_extent avail fbb_bn first count (fbb f') = Some w \<and> blocks_inv fbb_bn (f'\<lparr>fbb := w\<rparr>))))"
      using extend_alloc [OF inv av it(1) pos] by blast
    note E = extend_def z(1,2) z(3) Let_def cnt A(1)
    show ?thesis
    proof (cases "first \<ge> errbn E_MINERROR")
      case big: True
      then have "v = fbb (ffile d)" "\<not> (\<exists>x. free_run (fbb (ffile d)) count x)" using A(2) by auto
      then have "extend avail fbb_bn sz it d = Some (it, d\<lparr>ffile := ffile d\<rparr>)" "extended (p + sz) (ffile d) (ffile d)"
        using big True unfolding E by (simp_all add: extended_def count_def)
      then show ?thesis using inv av end_pos_ok [OF it(1)] by blast
    next
      case ok: False
      then obtain r f' it' where I: "free_run (fbb (ffile d)) count first"
        "fi_insert avail fbb_bn True first count ((ffile d)\<lparr>fbb := v\<rparr>) it = Some (r, f', it')" "fi_ok f' it'" "all_avail avail f'"
        "if r = 0 then blocks_inv fbb_bn f' \<and> file_blocks f' = file_blocks (ffile d) @ [first..<first + count]
         else r < 0 \<and> length (exts_of (all_ext (ffile d))) \<ge> ndirect \<and> file_blocks f' = file_blocks (ffile d) \<and>
             (\<exists>w. free_extent avail fbb_bn first count (fbb f') = Some w \<and> blocks_inv fbb_bn (f'\<lparr>fbb := w\<rparr>))"
        using A(2) by auto
      show ?thesis
      proof (cases "r = 0")
        case r: True
        then have "extend avail fbb_bn sz it d = Some (it', d\<lparr>ffile := f'\<rparr>)" using True ok I(2) unfolding E by simp
        moreover have "extended (p + sz) (ffile d) f'" using True r I(1,5) unfolding extended_def count_def by auto
        ultimately show ?thesis using I r by auto
      next
        case r: False
        then obtain w where w: "free_extent avail fbb_bn first count (fbb f') = Some w" "blocks_inv fbb_bn (f'\<lparr>fbb := w\<rparr>)" using I(5) by auto
        have "extend avail fbb_bn sz it d = Some (it', d\<lparr>ffile := f'\<lparr>fbb := w\<rparr>\<rparr>)" using True ok I(2,5) r w(1) unfolding E by simp
        moreover have "extended (p + sz) (ffile d) (f'\<lparr>fbb := w\<rparr>)" using r I(5) by (simp add: extended_def fbb_irrelevant)
        moreover have "all_avail avail (f'\<lparr>fbb := w\<rparr>)" "fi_ok (f'\<lparr>fbb := w\<rparr>) it'" using I(3,4) by (simp_all add: end_pos_fbb)
        ultimately show ?thesis using w(2) by blast
      qed
    qed
  qed
qed


lemma extended_cap:
  assumes "extended want f f'" "want \<le> 2 ^ 32 - blocksize" "blocksize * length (file_blocks f) < 2 ^ 32"
  shows "blocksize * length (file_blocks f) \<le> blocksize * length (file_blocks f')" "blocksize * length (file_blocks f') < 2 ^ 32"
proof -
  let ?n = "blocksize * length (file_blocks f)"
  have "blocksize * need want ?n \<le> want - ?n + (blocksize - 1)" by (simp add: need_def)
  moreover have "length (file_blocks f') = length (file_blocks f) \<or> want > ?n \<and> length (file_blocks f') = length (file_blocks f) + need want ?n"
    using assms(1) by (auto simp: extended_def)
  moreover have "blocksize < 2 ^ 32" by (simp add: kconst)
  ultimately show "?n \<le> blocksize * length (file_blocks f')" "blocksize * length (file_blocks f') < 2 ^ 32"
    using assms(2,3) blocksize_pos by (auto simp: algebra_simps)
qed

lemma extended_raw:
  assumes "extended want (ffile d) f'" "whole_blocks d" "s \<le> cap d"
  shows "take s (raw (d\<lparr>ffile := f'\<rparr>)) = take s (raw d)"
proof -
  obtain bs where "file_blocks f' = file_blocks (ffile d) @ bs" using assms(1) by (auto simp: extended_def)
  then show ?thesis using length_raw [of d] assms(2,3) by (simp add: raw_def)
qed

lemma take_blit_max:
  assumes "p \<le> s" "s \<le> length r" "xs = [] \<or> p + length xs \<le> length r"
  shows "take (max s (p + length xs)) (blit r p xs) = take p (take s r) @ xs @ drop (p + length xs) (take s r)"
  using assms by (cases "s \<le> p + length xs") (auto simp: blit_def take_append drop_take min_absorb1 min_absorb2 max_def)

lemma write_nolock_spec:
  assumes inv: "df_inv fbb_bn d" and av: "all_avail avail (ffile d)" "avail 0" "avail fbb_bn"
    and p: "doff d = int p" "p + length src \<le> 2 ^ 32 - blocksize"
  shows "\<exists>n d'. write_nolock avail fbb_bn src d = Some (n, d') \<and> n \<le> length src \<and> df_inv fbb_bn d' \<and> doff d' = int (p + n) \<and>
     dsize d' = max (dsize d) (p + n) \<and>
     fcontent d' = take p (fcontent d) @ take n src @ drop (p + n) (fcontent d) \<and> extended (p + length src) (ffile d) (ffile d') \<and>
     all_avail avail (ffile d') \<and>
     (\<forall>b. b \<notin> set (file_blocks (ffile d')) \<longrightarrow> ddata d' b = ddata d b) \<and>
     (n = length src \<or> cap d' \<le> p + n \<or> \<not> avail (file_blocks (ffile d') ! ((p + n) div blocksize)))"
proof -
  have B: "blocks_inv fbb_bn (ffile d)" "whole_blocks d" "dsize d \<le> cap d" "cap d < 2 ^ 32" "p \<le> dsize d" using inv p(1) by (auto simp: df_inv_def)
  note P = blocks_inv_parts [OF B(1)]
  have bb: "blocksize < 2 ^ 32" by (simp add: kconst)
  have small: "p + length src < 2 ^ 32" using p(2) bb blocksize_pos by linarith
  obtain it where it: "to_end avail (ffile d) fi_new = Some it" "end_pos (ffile d) it" "off it = cap d" using to_end_new [OF P(1) av(1) P(3)] by blast
  obtain it' f' where E: "extend avail fbb_bn (length src) it d = Some (it', d\<lparr>ffile := f'\<rparr>)" "blocks_inv fbb_bn f'" "all_avail avail f'"
    "fi_ok f' it'" "extended (p + length src) (ffile d) f'" using extend_spec [OF B(1) av it(2,3) B(4) p(1) small] by blast
  let ?d = "d\<lparr>ffile := f'\<rparr>"
  note Q = blocks_inv_parts [OF E(2)]
  have cp: "cap d \<le> cap ?d" "cap ?d < 2 ^ 32" using extended_cap [OF E(5) p(2) B(4)] by simp_all
  obtain n d2 where C: "copy_in avail it' src 0 ?d = Some (0 + n, d2)" "n \<le> length src" "ffile d2 = f'" "dsize d2 = dsize d"
    "doff d2 = int (p + n)" "whole_blocks d2" "raw d2 = blit (raw ?d) p (take n src)" "n > 0 \<longrightarrow> p + n \<le> cap ?d"
    "\<forall>b. b \<notin> set (file_blocks f') \<longrightarrow> ddata d2 b = ddata d b"
    "n = length src \<or> cap ?d \<le> p + n \<or> \<not> avail (file_blocks f' ! ((p + n) div blocksize))"
    using copy_in_spec [where avail = avail and d = ?d and it = it' and p = p and src = src and n = 0] Q E(3,4) B(2) p(1) small by auto
  define d' where "d' = d2\<lparr>dsize := max (dsize d) (p + n)\<rparr>"
  have "doff d2 mod 2 ^ 32 = int (p + n)" using C(2,5) small by simp
  then have W: "write_nolock avail fbb_bn src d = Some (n, d')"
    using it(1) E(1) C(1,4) by (simp add: write_nolock_def d'_def nat_int)
  have S: "ffile d' = f'" "ddata d' = ddata d2" "doff d' = int (p + n)" "dsize d' = max (dsize d) (p + n)" using C(3,5) by (simp_all add: d'_def)
  have lr: "length (raw ?d) = cap ?d" using length_raw [of ?d] B(2) by simp
  have "p + n \<le> max (dsize d) (cap ?d)" using C(8) B(5) by (cases "n = 0") auto
  then have "max (dsize d) (p + n) \<le> cap ?d" "int (p + n) \<le> int (max (dsize d) (p + n))" using B(3) cp(1) by linarith+
  then have I: "df_inv fbb_bn d'" unfolding df_inv_def S using E(2) C(6) cp(2) by simp
  have "fcontent d' = take (max (dsize d) (p + length (take n src))) (blit (raw ?d) p (take n src))"
    using C(2,7) S by (simp add: fcontent_def raw_def d'_def)
  also have "\<dots> = take p (take (dsize d) (raw ?d)) @ take n src @ drop (p + length (take n src)) (take (dsize d) (raw ?d))"
  proof (rule take_blit_max [OF B(5)])
    show "dsize d \<le> length (raw ?d)" using B(3) cp(1) lr by linarith
    show "take n src = [] \<or> p + length (take n src) \<le> length (raw ?d)" using C(2,8) lr by (cases "n = 0") auto
  qed
  also have "\<dots> = take p (fcontent d) @ take n src @ drop (p + n) (fcontent d)"
    using extended_raw [OF E(5) B(2,3)] C(2) by (simp add: fcontent_def)
  finally show ?thesis using W C(2,9,10) I S E(3,5) by (intro exI [of _ n] exI [of _ d']) simp
qed


subsection \<open>Properties\<close>

abbreviation served :: "(nat \<Rightarrow> bool) \<Rightarrow> nat \<Rightarrow> diskfile \<Rightarrow> bool" where
  "served avail fbb_bn d \<equiv> all_avail avail (ffile d) \<and> avail 0 \<and> avail fbb_bn"

text \<open>
  C32. Writing to a disk file. \<^verbatim>\<open>write\<close> on a consistent file terminates without failing an assertion. It
  replaces the bytes from the offset on by the first \<open>n\<close> bytes given, extending the file when it
  goes past the end, moves the offset by \<open>n\<close> and returns \<open>n\<close>; it changes no block outside the file
  and keeps the file consistent. It writes everything unless a block cannot be loaded or the file
  could not be extended; the extension takes a run of free blocks of just the size needed, and
  fails only when there is no such run or the direct extents are used up. This holds for files of
  up to 4 GB less one block and offsets within the file.
\<close>

theorem disk_write_correct:
  assumes "df_inv fbb_bn d" "served avail fbb_bn d" "doff d = int p" "p + length src \<le> 2 ^ 32 - blocksize" "writeable v"
  shows "\<exists>n d'. disk_write avail fbb_bn v src d = Some (int n, d') \<and> n \<le> length src \<and> df_inv fbb_bn d' \<and> doff d' = int (p + n) \<and>
     fcontent d' = take p (fcontent d) @ take n src @ drop (p + n) (fcontent d) \<and> extended (p + length src) (ffile d) (ffile d') \<and>
     (\<forall>b. b \<notin> set (file_blocks (ffile d')) \<longrightarrow> ddata d' b = ddata d b) \<and>
     (n = length src \<or> cap d' < p + length src \<or> (\<exists>b \<in> set (file_blocks (ffile d')). \<not> avail b))"
proof -
  obtain n d' where W: "write_nolock avail fbb_bn src d = Some (n, d')" "n \<le> length src" "df_inv fbb_bn d'" "doff d' = int (p + n)"
     "fcontent d' = take p (fcontent d) @ take n src @ drop (p + n) (fcontent d)" "extended (p + length src) (ffile d) (ffile d')"
     "\<forall>b. b \<notin> set (file_blocks (ffile d')) \<longrightarrow> ddata d' b = ddata d b"
     "n = length src \<or> cap d' \<le> p + n \<or> \<not> avail (file_blocks (ffile d') ! ((p + n) div blocksize))"
    using write_nolock_spec [OF assms(1) _ _ _ assms(3,4)] assms(2) by blast
  have "n = length src \<or> cap d' < p + length src \<or> (\<exists>b \<in> set (file_blocks (ffile d')). \<not> avail b)"
  proof (cases "cap d' \<le> p + n")
    case True
    then show ?thesis using W(2) by linarith
  next
    case False
    then have "(p + n) div blocksize < length (file_blocks (ffile d'))" by (simp add: div_less_iff_less_mult mult.commute)
    then show ?thesis using W(8) False nth_mem by blast
  qed
  then show ?thesis using W assms(5) by (intro exI [of _ n] exI [of _ d']) (simp add: disk_write_def)
qed

definition demo_disk :: diskfile where
  "demo_disk = \<lparr>ffile = \<lparr>direct = [(10, 1), (0, 0), (0, 0), (0, 0)], indirect = (0, 0), blk = (\<lambda>b. []),
      fbb = 0xFFFFFFFFFFFFF000 # replicate 511 (- 1)\<rparr>,
     ddata = (\<lambda>b. replicate blocksize 0), dsize = 3, doff = 1\<rparr>"

definition rw_vnode :: vnode where
  "rw_vnode = \<lparr>vmode = 3, voffset = 0, vrefcount = 1\<rparr>"

lemma demo_disk_inv: "df_inv 2 demo_disk" "served (\<lambda>b. True) 2 demo_disk" "doff demo_disk = int 1"
proof -
  let ?f = "ffile demo_disk"
  have e: "all_ext ?f = [(10, 1), (0, 0), (0, 0), (0, 0)]" by (simp add: demo_disk_def all_ext_def)
  have x: "exts_of (all_ext ?f) = [(10, 1)]" unfolding e by (simp add: exts_of_def)
  have fb: "file_blocks ?f = [10]" unfolding file_blocks_def blocks_of_def x by (simp add: ext_blocks_def)
  have m: "meta_blocks ?f = {}" by (simp add: meta_blocks_def demo_disk_def)
  have w: "fbb ?f = 0xFFFFFFFFFFFFF000 # replicate 511 (- 1)" by (simp add: demo_disk_def)
  have bits: "\<not> bs_bit (fbb ?f) 10" "\<not> bs_bit (fbb ?f) 0" "\<not> bs_bit (fbb ?f) 2" unfolding w bs_bit_def by (simp_all add: bit_iff_odd)
  have "wf_file ?f" by (simp add: wf_file_def demo_disk_def ndirect_def)
  moreover have "clean_tail (all_ext ?f)" unfolding clean_tail_def x unfolding e by simp
  moreover have "length (fbb ?f) = 512" unfolding w by simp
  ultimately have "blocks_inv 2 ?f" unfolding blocks_inv_def x fb m using bits by (simp add: small_ext_def)
  then show "df_inv 2 demo_disk" unfolding df_inv_def fb by (simp add: demo_disk_def blocksize_def)
  show "served (\<lambda>b. True) 2 demo_disk" "doff demo_disk = int 1" by (simp_all add: demo_disk_def)
qed

theorem disk_write_correct_witness:
  "\<exists>n d'. disk_write (\<lambda>b. True) 2 rw_vnode [7, 8] demo_disk = Some (int n, d') \<and> n \<le> 2 \<and> df_inv 2 d'"
  using disk_write_correct [OF demo_disk_inv, of "[7, 8]" rw_vnode]
  by (auto simp: rw_vnode_def writeable_def OF_WRITE_def blocksize_def)


lemma fcontent_doff [simp]: "fcontent (d\<lparr>doff := x\<rparr>) = fcontent d"
  by (simp add: fcontent_def raw_def)

lemma disk_read_spec:
  assumes "df_inv fbb_bn d" "all_avail avail (ffile d)" "\<forall>b \<in> set (file_blocks (ffile d)). avail b" "doff d = int p" "readable v"
  shows "disk_read avail v sz d =
     Some (int (min sz (dsize d - p)), take sz (drop p (fcontent d)), d\<lparr>doff := int (p + min sz (dsize d - p))\<rparr>)"
proof -
  have B: "blocks_inv fbb_bn (ffile d)" "whole_blocks d" "dsize d \<le> cap d" "cap d < 2 ^ 32" "p \<le> dsize d" using assms(1,4) by (auto simp: df_inv_def)
  note P = blocks_inv_parts [OF B(1)]
  have "length (fcontent d) = dsize d" using B(2,3) length_raw [of d] by (simp add: fcontent_def min_absorb2)
  moreover have "copy_out avail fi_new sz [] d = Some ([] @ take sz (drop p (fcontent d)), d\<lparr>doff := int (p + min sz (dsize d - p))\<rparr>)"
    using P(1,3) assms(2-4) B(2-) fi_new_start(1) [OF P(1)] by (intro copy_out_spec) simp_all
  ultimately show ?thesis using assms(5) by (simp add: disk_read_def min.commute)
qed

lemma seek_set: "df_inv fbb_bn d \<Longrightarrow> p \<le> dsize d \<Longrightarrow> disk_lseek (int p) LSEEK_SET d = Some (int p, d\<lparr>doff := int p\<rparr>) \<and> df_inv fbb_bn (d\<lparr>doff := int p\<rparr>)"
  by (simp add: disk_lseek_def lseek_nolock_def seek_invalid_def lseek_origin df_inv_def errno)

text \<open>
  C33. Reading back. On a consistent file all of whose blocks can be loaded, \<^verbatim>\<open>write\<close> of \<open>src\<close> at some offset,
  \<^verbatim>\<open>lseek\<close> back to it and \<^verbatim>\<open>read\<close> of as many bytes as were written gives these bytes. A read
  anywhere gives the bytes from the offset to the end of the file, at most the number asked for,
  and moves the offset past them.
\<close>

theorem disk_read_back:
  assumes "df_inv fbb_bn d" "served avail fbb_bn d" "\<forall>b. avail b" "doff d = int p" "p + length src \<le> 2 ^ 32 - blocksize" "writeable v" "readable v"
  shows "(\<exists>n d1 d2 d3. disk_write avail fbb_bn v src d = Some (int n, d1) \<and> disk_lseek (int p) LSEEK_SET d1 = Some (int p, d2) \<and>
     disk_read avail v n d2 = Some (int n, take n src, d3) \<and> df_inv fbb_bn d3 \<and> doff d3 = int (p + n) \<and> fcontent d3 = fcontent d1) \<and>
     disk_read avail v sz d = Some (int (min sz (dsize d - p)), take sz (drop p (fcontent d)), d\<lparr>doff := int (p + min sz (dsize d - p))\<rparr>)"
proof (rule conjI)
  obtain n d1 where W: "write_nolock avail fbb_bn src d = Some (n, d1)" "n \<le> length src" "df_inv fbb_bn d1" "doff d1 = int (p + n)"
     "dsize d1 = max (dsize d) (p + n)" "fcontent d1 = take p (fcontent d) @ take n src @ drop (p + n) (fcontent d)" "all_avail avail (ffile d1)"
    using write_nolock_spec [OF assms(1) _ _ _ assms(4,5)] assms(2) by blast
  define d2 where "d2 = d1\<lparr>doff := int p\<rparr>"
  have L: "disk_lseek (int p) LSEEK_SET d1 = Some (int p, d2)" "df_inv fbb_bn d2" using seek_set [OF W(3), of p] W(5) by (simp_all add: d2_def)
  have pd: "p \<le> dsize d" "dsize d \<le> cap d" "whole_blocks d" using assms(1,4) by (auto simp: df_inv_def)
  have "length (fcontent d) = dsize d" using pd length_raw [of d] by (simp add: fcontent_def min_absorb2)
  then have c: "take n (drop p (fcontent d1)) = take n src" using pd(1) W(2,6) by simp
  have same: "fcontent d2 = fcontent d1" "dsize d2 = dsize d1" "doff d2 = int p" "ffile d2 = ffile d1" by (simp_all add: d2_def fcontent_def raw_def)
  have m: "min n (dsize d1 - p) = n" using W(5) by linarith
  have "disk_read avail v n d2 = Some (int n, take n src, d2\<lparr>doff := int (p + n)\<rparr>)"
    using disk_read_spec [OF L(2) _ _ same(3) assms(7), of avail n] W(7) assms(3) same c m by simp
  moreover have "df_inv fbb_bn (d2\<lparr>doff := int (p + n)\<rparr>)" using W(3-5) by (simp add: df_inv_def d2_def)
  moreover have "fcontent (d2\<lparr>doff := int (p + n)\<rparr>) = fcontent d1" by (simp add: d2_def fcontent_def raw_def)
  ultimately show "\<exists>n d1 d2 d3. disk_write avail fbb_bn v src d = Some (int n, d1) \<and> disk_lseek (int p) LSEEK_SET d1 = Some (int p, d2) \<and>
     disk_read avail v n d2 = Some (int n, take n src, d3) \<and> df_inv fbb_bn d3 \<and> doff d3 = int (p + n) \<and> fcontent d3 = fcontent d1"
    using W(1) L(1) assms(6) by (intro exI [of _ n] exI [of _ d1] exI [of _ d2] exI [of _ "d2\<lparr>doff := int (p + n)\<rparr>"]) (simp add: disk_write_def)
  show "disk_read avail v sz d = Some (int (min sz (dsize d - p)), take sz (drop p (fcontent d)), d\<lparr>doff := int (p + min sz (dsize d - p))\<rparr>)"
    using disk_read_spec [OF assms(1) _ _ assms(4,7)] assms(2,3) by blast
qed

theorem disk_read_back_witness:
  "disk_read (\<lambda>b. True) rw_vnode 5 demo_disk = Some (2, [0, 0], demo_disk\<lparr>doff := 3\<rparr>)"
proof -
  have "fcontent demo_disk = [0, 0, 0]"
    by (simp add: fcontent_def raw_def demo_disk_def file_blocks_def blocks_of_def exts_of_def all_ext_def ext_blocks_def blocksize_def numeral_3_eq_3 take_Suc_conv_app_nth)
  then show ?thesis using disk_read_back [OF demo_disk_inv(1,2) _ demo_disk_inv(3), of "[]" rw_vnode 5]
    by (simp add: rw_vnode_def readable_def writeable_def OF_READ_def OF_WRITE_def blocksize_def demo_disk_def)
qed



text \<open>A seek to before the beginning is accepted, and the offset becomes negative.\<close>

lemma negative_seek_accepted: "- (2 ^ 63) \<le> i \<Longrightarrow> i < 0 \<Longrightarrow> i \<noteq> E_INVAL \<Longrightarrow> disk_lseek i LSEEK_SET d = Some (i, d\<lparr>doff := i\<rparr>)"
  by (simp add: disk_lseek_def lseek_nolock_def seek_invalid_def lseek_origin)

end
