(* ===== verification/FdTable.thy ===== *)
theory FdTable
  imports Vnode
begin

text \<open>
  File descriptor tables and the reference counts of vnodes: \<^verbatim>\<open>find_open_fd\<close>, \<^verbatim>\<open>syscall_dup2\<close>, \<^verbatim>\<open>syscall_pipe\<close>,
  \<^verbatim>\<open>syscall_close\<close>, the parts of \<^verbatim>\<open>syscall_open\<close>, \<^verbatim>\<open>syscall_fork\<close>, \<^verbatim>\<open>syscall_exit\<close>, \<^verbatim>\<open>syscall_read\<close> and
  \<^verbatim>\<open>syscall_write\<close> that touch the table (\<^verbatim>\<open>kernel.cc\<close>), the constructor of \<^verbatim>\<open>proc\<close> (\<^verbatim>\<open>k-proc.cc\<close>), and the
  transfer of a descriptor over a socket (\<^verbatim>\<open>uds::read\<close> in \<^verbatim>\<open>k-vfs.cc\<close>).

  The state is the heap of vnodes, each with its kind, reference count and number of running reads
  and writes, the heap of pipe buffers with their two closed flags, and the table of every thread
  group, by group number. A vnode address or buffer address handed out by \<^verbatim>\<open>knew\<close> is an argument,
  \<open>None\<close> when the allocation fails. Groups are not removed here: the table of a group that exited
  is empty. A failed assertion or the use of a null pointer is \<open>None\<close>.
\<close>

definition MAX_FD :: nat where [kconst]: "MAX_FD = 8"

datatype vkind = VKbc | VPipe "nat option" bool | VMem | VDisk nat | VSpecial sfile

record fvnode =
  vkind :: vkind
  refs :: int
  active :: int

record fds =
  vns :: "nat \<Rightarrow> fvnode option"
  bbs :: "nat \<Rightarrow> (bool \<times> bool) option"
  tabs :: "nat option list list"
  cnode :: "nat option"

abbreviation fd_at :: "fds \<Rightarrow> nat \<Rightarrow> nat \<Rightarrow> nat option" where
  "fd_at s g i \<equiv> tabs s ! g ! i"

definition set_fd :: "nat \<Rightarrow> nat \<Rightarrow> nat option \<Rightarrow> fds \<Rightarrow> fds" where
  "set_fd g i x s = s\<lparr>tabs := (tabs s)[g := (tabs s ! g)[i := x]]\<rparr>"

definition bad_fd :: "nat \<Rightarrow> int \<Rightarrow> fds \<Rightarrow> bool" where
  "bad_fd g fd s \<longleftrightarrow> fd < 0 \<or> fd \<ge> int MAX_FD \<or> fd_at s g (nat fd) = None"

fun find_fd_from :: "nat list \<Rightarrow> bool \<Rightarrow> int \<Rightarrow> nat option list \<Rightarrow> int" where
  "find_fd_from [] ex taken t = E_MFILE"
| "find_fd_from (fd # fs) ex taken t =
     (if t ! fd = None \<and> (\<not> ex \<or> int fd \<noteq> taken) then int fd else find_fd_from fs ex taken t)"

definition find_open_fd :: "bool \<Rightarrow> int \<Rightarrow> nat option list \<Rightarrow> int" where
  "find_open_fd exclude_one taken_fd t = find_fd_from [3..<MAX_FD] exclude_one taken_fd t"

subsection \<open>Vnodes\<close>

definition vn_new :: "nat \<Rightarrow> vkind \<Rightarrow> fds \<Rightarrow> fds" where
  "vn_new a k s = s\<lparr>vns := (vns s)(a := Some \<lparr>vkind = k, refs = 1, active = 0\<rparr>)\<rparr>"

definition upd_vn :: "nat \<Rightarrow> (fvnode \<Rightarrow> fvnode) \<Rightarrow> fds \<Rightarrow> fds" where
  "upd_vn a f s = s\<lparr>vns := (vns s)(a := map_option f (vns s a))\<rparr>"

definition inc_ref :: "nat \<Rightarrow> fds \<Rightarrow> fds" where
  "inc_ref a = upd_vn a (\<lambda>v. v\<lparr>refs := refs v + 1\<rparr>)"

text \<open>
  \<^verbatim>\<open>close()\<close>: the reference count after it. A memory file whose count is already zero gives \<^verbatim>\<open>E_BADF\<close>, every
  other kind of vnode asserts that the count is positive.
\<close>

definition vn_close :: "nat \<Rightarrow> fds \<Rightarrow> (int \<times> fds) option" where
  "vn_close a s =
     (case vns s a of
        None \<Rightarrow> None
      | Some v \<Rightarrow>
          if vkind v = VMem \<and> refs v = 0 then Some (E_BADF, s)
          else check (vkind v = VMem \<or> refs v > 0) (Some (refs v - 1, upd_vn a (\<lambda>v. v\<lparr>refs := refs v - 1\<rparr>) s)))"

text \<open>\<^verbatim>\<open>delete vn\<close>. The destructor of a pipe end locks the buffer before it looks whether there is one.\<close>

definition vn_delete :: "nat \<Rightarrow> fds \<Rightarrow> fds option" where
  "vn_delete a s =
     (case vns s a of
        None \<Rightarrow> None
      | Some v \<Rightarrow>
          (case vkind v of
             VPipe None w \<Rightarrow> None
           | VPipe (Some b) w \<Rightarrow>
               (case bbs s b of
                  None \<Rightarrow> None
                | Some (wc, rc) \<Rightarrow>
                    check (\<not> (if w then wc else rc))
                      (let wc' = (wc \<or> w); rc' = (rc \<or> \<not> w)
                       in Some (s\<lparr>vns := (vns s)(a := None), bbs := (bbs s)(b := (if wc' \<and> rc' then None else Some (wc', rc')))\<rparr>)))
           | VKbc \<Rightarrow> check (refs v = 0) (Some (s\<lparr>vns := (vns s)(a := None)\<rparr>))
           | VMem \<Rightarrow> check (refs v = 0) (Some (s\<lparr>vns := (vns s)(a := None)\<rparr>))
           | _ \<Rightarrow> Some (s\<lparr>vns := (vns s)(a := None)\<rparr>)))"

text \<open>\<^verbatim>\<open>if (!vn->close()) delete vn;\<close>\<close>

definition drop_ref :: "nat \<Rightarrow> fds \<Rightarrow> fds option" where
  "drop_ref a s = (case vn_close a s of None \<Rightarrow> None | Some (n, s') \<Rightarrow> if n = 0 then vn_delete a s' else Some s')"

subsection \<open>System calls\<close>

text \<open>The constructor of \<^verbatim>\<open>proc\<close>; \<open>a\<close> is the address for the console vnode when there is none yet.\<close>

fun stdio_fds :: "nat list \<Rightarrow> nat \<Rightarrow> nat \<Rightarrow> fds \<Rightarrow> fds option" where
  "stdio_fds [] g c s = Some s"
| "stdio_fds (fd # fs) g c s =
     (if fd_at s g fd \<noteq> Some c then check (fd_at s g fd = None) (stdio_fds fs g c (set_fd g fd (Some c) s))
      else stdio_fds fs g c s)"

definition proc_ctor :: "nat \<Rightarrow> nat option \<Rightarrow> fds \<Rightarrow> fds option" where
  "proc_ctor a grp s =
     (let s1 = (if cnode s = None then (vn_new a VKbc s)\<lparr>cnode := Some a\<rparr> else s);
          c = the (cnode s1);
          s2 = upd_vn c (\<lambda>v. v\<lparr>refs := refs v + 3\<rparr>) s1
      in case grp of None \<Rightarrow> Some s2 | Some g \<Rightarrow> stdio_fds [0, 1, 2] g c s2)"

definition open_vn :: "nat \<Rightarrow> vkind \<Rightarrow> nat option \<Rightarrow> fds \<Rightarrow> (int \<times> fds) option" where
  "open_vn g k alloc s =
     (case alloc of
        None \<Rightarrow> Some (E_NOMEM, s)
      | Some a \<Rightarrow>
          (let s1 = vn_new a k s; fd = find_open_fd False 0 (tabs s1 ! g)
           in if fd = E_MFILE then map_option (Pair E_MFILE) (case vn_close a s1 of None \<Rightarrow> None | Some (_, s2) \<Rightarrow> vn_delete a s2)
              else Some (fd, set_fd g (nat fd) (Some a) s1)))"

definition dup2 :: "nat \<Rightarrow> int \<Rightarrow> int \<Rightarrow> fds \<Rightarrow> (int \<times> fds) option" where
  "dup2 g oldfd newfd s =
     (if oldfd < 0 \<or> oldfd \<ge> int MAX_FD \<or> newfd < 0 \<or> newfd \<ge> int MAX_FD then Some (E_BADF, s)
      else if fd_at s g (nat oldfd) = None then Some (E_BADF, s)
      else if oldfd = newfd then Some (newfd, s)
      else
        (case (case fd_at s g (nat newfd) of None \<Rightarrow> Some s | Some b \<Rightarrow> drop_ref b s) of
           None \<Rightarrow> None
         | Some s1 \<Rightarrow>
             (let s2 = set_fd g (nat newfd) (fd_at s1 g (nat oldfd)) s1
              in Some (0, inc_ref (the (fd_at s2 g (nat newfd))) s2))))"

definition pipe :: "nat \<Rightarrow> nat option \<Rightarrow> nat option \<Rightarrow> nat option \<Rightarrow> fds \<Rightarrow> (int \<times> fds) option" where
  "pipe g alloc_w alloc_b alloc_r s =
     (let rfd = find_open_fd False 0 (tabs s ! g)
      in if rfd = E_MFILE then Some (E_MFILE, s)
         else
           (let wfd = find_open_fd True rfd (tabs s ! g)
            in if wfd = E_MFILE then Some (E_MFILE, s)
               else
                 (case alloc_w of
                    None \<Rightarrow> Some (E_NOMEM, s)
                  | Some w \<Rightarrow>
                      (let s1 = vn_new w (VPipe alloc_b True) s
                       in case (alloc_b, alloc_r) of
                            (Some b, Some r) \<Rightarrow>
                              (let s2 = vn_new r (VPipe (Some b) False) (s1\<lparr>bbs := (bbs s1)(b := Some (False, False))\<rparr>)
                               in Some (rfd + wfd * 2 ^ 32, set_fd g (nat rfd) (Some r) (set_fd g (nat wfd) (Some w) s2)))
                          | _ \<Rightarrow>
                              map_option (Pair E_NOMEM)
                                (let s2 = upd_vn w (\<lambda>v. v\<lparr>vkind := VPipe None True\<rparr>) s1
                                 in case vn_close w s2 of None \<Rightarrow> None | Some (_, s3) \<Rightarrow> vn_delete w s3)))))"

text \<open>
  \<^verbatim>\<open>syscall_close\<close>: \<open>CBlocked\<close> when it sleeps until the running reads and writes are over, with the
  reference already given up and the table entry still there; \<open>close_finish\<close> is the rest of the call.
\<close>

datatype close_result = CBlocked | CDone int

definition close_finish :: "nat \<Rightarrow> nat \<Rightarrow> fds \<Rightarrow> (close_result \<times> fds) option" where
  "close_finish g i s =
     (case fd_at s g i of
        None \<Rightarrow> None
      | Some a \<Rightarrow>
          (case vns s a of
             None \<Rightarrow> None
           | Some v \<Rightarrow>
               if active v \<noteq> 0 then Some (CBlocked, s)
               else map_option (Pair (CDone 0)) (vn_delete a (set_fd g i None s))))"

definition close_call :: "nat \<Rightarrow> int \<Rightarrow> fds \<Rightarrow> (close_result \<times> fds) option" where
  "close_call g fd s =
     (if bad_fd g fd s then Some (CDone E_BADF, s)
      else
        (case vn_close (the (fd_at s g (nat fd))) s of
           None \<Rightarrow> None
         | Some (n, s1) \<Rightarrow>
             if n = 0 then close_finish g (nat fd) s1 else Some (CDone 0, set_fd g (nat fd) None s1)))"

text \<open>The table in \<^verbatim>\<open>syscall_fork\<close>: the new group gets the next number.\<close>

fun inc_refs :: "nat option list \<Rightarrow> fds \<Rightarrow> fds" where
  "inc_refs [] s = s"
| "inc_refs (x # xs) s = inc_refs xs (case x of None \<Rightarrow> s | Some a \<Rightarrow> inc_ref a s)"

definition fork_fds :: "nat \<Rightarrow> fds \<Rightarrow> (nat \<times> fds) option" where
  "fork_fds g s =
     (let child = length (tabs s); s1 = s\<lparr>tabs := tabs s @ [replicate MAX_FD None]\<rparr>
      in case proc_ctor 0 (Some child) s1 of
           None \<Rightarrow> None
         | Some s2 \<Rightarrow> Some (child, inc_refs (tabs s2 ! g) (s2\<lparr>tabs := (tabs s2)[child := tabs s2 ! g]\<rparr>)))"

text \<open>Closing everything in \<^verbatim>\<open>syscall_exit\<close>.\<close>

fun exit_fds :: "nat list \<Rightarrow> nat \<Rightarrow> fds \<Rightarrow> fds option" where
  "exit_fds [] g s = Some s"
| "exit_fds (i # is) g s =
     (case fd_at s g i of
        None \<Rightarrow> exit_fds is g s
      | Some a \<Rightarrow> (case drop_ref a s of None \<Rightarrow> None | Some s' \<Rightarrow> exit_fds is g (set_fd g i None s')))"

definition exit_call :: "nat \<Rightarrow> fds \<Rightarrow> fds option" where
  "exit_call g s =
     (case cnode s of
        None \<Rightarrow> None
      | Some c \<Rightarrow> (case vns s c of None \<Rightarrow> None | Some v \<Rightarrow> check (refs v > 0) (exit_fds [0..<MAX_FD] g s)))"

text \<open>The frame of \<^verbatim>\<open>syscall_read\<close>, \<^verbatim>\<open>syscall_write\<close> and \<^verbatim>\<open>syscall_ftruncate\<close> around the call on the vnode.\<close>

definition io_begin :: "nat \<Rightarrow> int \<Rightarrow> bool \<Rightarrow> fds \<Rightarrow> int \<times> fds" where
  "io_begin g fd addr_ok s =
     (if bad_fd g fd s then (E_BADF, s)
      else if \<not> addr_ok then (E_FAULT, s)
      else (0, upd_vn (the (fd_at s g (nat fd))) (\<lambda>v. v\<lparr>active := active v + 1\<rparr>) s))"

definition io_end :: "nat \<Rightarrow> nat \<Rightarrow> fds \<Rightarrow> fds option" where
  "io_end g i s = (case fd_at s g i of None \<Rightarrow> None | Some a \<Rightarrow> Some (upd_vn a (\<lambda>v. v\<lparr>active := active v - 1\<rparr>) s))"

text \<open>The transfer in \<^verbatim>\<open>uds::read\<close>: server group, client group and the descriptor sent.\<close>

definition receive_fd :: "nat \<Rightarrow> nat \<Rightarrow> nat \<Rightarrow> fds \<Rightarrow> int \<times> fds" where
  "receive_fd srv cl fd s =
     (case fd_at s cl fd of
        None \<Rightarrow> (E_BADF, s)
      | Some a \<Rightarrow>
          (let newfd = (if fd_at s srv fd = None then int fd else find_open_fd False 0 (tabs s ! srv))
           in if newfd = E_MFILE then (E_MFILE, s)
              else (newfd, inc_ref a (set_fd srv (nat newfd) (Some a) s))))"


subsection \<open>The invariant\<close>

definition cnt_in :: "nat \<Rightarrow> nat option list \<Rightarrow> nat" where
  "cnt_in a t = length (filter (\<lambda>x. x = Some a) t)"

text \<open>The number of descriptors that refer to a vnode.\<close>

definition cnt :: "nat \<Rightarrow> fds \<Rightarrow> nat" where
  "cnt a s = sum_list (map (cnt_in a) (tabs s))"

definition ends :: "nat \<Rightarrow> bool \<Rightarrow> fds \<Rightarrow> nat set" where
  "ends b w s = {a. map_option vkind (vns s a) = Some (VPipe (Some b) w)}"

text \<open>A pipe buffer lives as long as one of its ends, and each end that is not closed is one vnode.\<close>

definition bb_ok :: "(bool \<times> bool) option \<Rightarrow> nat set \<Rightarrow> nat set \<Rightarrow> bool" where
  "bb_ok x W R \<longleftrightarrow>
     (case x of
        None \<Rightarrow> W = {} \<and> R = {}
      | Some (wc, rc) \<Rightarrow> \<not> (wc \<and> rc) \<and> (if wc then W = {} else \<exists>a. W = {a}) \<and> (if rc then R = {} else \<exists>a. R = {a}))"

definition pipes_inv :: "fds \<Rightarrow> bool" where
  "pipes_inv s \<longleftrightarrow> (\<forall>a w. map_option vkind (vns s a) \<noteq> Some (VPipe None w)) \<and>
     (\<forall>b. bb_ok (bbs s b) (ends b True s) (ends b False s))"

text \<open>
  Counts are right up to the references the running call holds outside the tables, \<open>D\<close>. The console
  vnode has more references than descriptors, so that it is never freed.
\<close>

definition vn_bal :: "bool \<Rightarrow> nat \<Rightarrow> fvnode option \<Rightarrow> bool" where
  "vn_bal console n x \<longleftrightarrow>
     (case x of
        None \<Rightarrow> n = 0
      | Some v \<Rightarrow> refs v > 0 \<and> (if console then vkind v = VKbc \<and> refs v > int n else vkind v \<noteq> VKbc \<and> refs v = int n))"

definition bal :: "(nat \<Rightarrow> nat) \<Rightarrow> fds \<Rightarrow> bool" where
  "bal D s \<longleftrightarrow> (\<forall>a. vn_bal (cnode s = Some a) (cnt a s + D a) (vns s a))"

definition fd_ok :: "(nat \<Rightarrow> nat) \<Rightarrow> fds \<Rightarrow> bool" where
  "fd_ok D s \<longleftrightarrow> (\<forall>t \<in> set (tabs s). length t = MAX_FD) \<and> bal D s \<and> (\<exists>c. cnode s = Some c \<and> vns s c \<noteq> None) \<and> pipes_inv s"

abbreviation fd_inv :: "fds \<Rightarrow> bool" where
  "fd_inv \<equiv> fd_ok (\<lambda>a. 0)"

lemma cnt_set_fd:
  assumes "g < length (tabs s)" "i < length (tabs s ! g)"
  shows "cnt a (set_fd g i x s) + (if fd_at s g i = Some a then 1 else 0) = cnt a s + (if x = Some a then 1 else 0)"
proof -
  let ?t = "tabs s ! g"
  have u: "cnt_in a (?t[i := x]) + (if ?t ! i = Some a then 1 else 0) = cnt_in a ?t + (if x = Some a then 1 else 0)"
    using length_filter_update [OF assms(2), of "\<lambda>y. y = Some a" x] by (simp add: cnt_in_def)
  have le: "cnt_in a ?t \<le> sum_list (map (cnt_in a) (tabs s))" using assms(1) by (intro member_le_sum_list) auto
  have "sum_list ((map (cnt_in a) (tabs s))[g := cnt_in a (?t[i := x])]) = sum_list (map (cnt_in a) (tabs s)) + cnt_in a (?t[i := x]) - cnt_in a ?t"
    using assms(1) by (subst sum_list_update) simp_all
  then have "cnt a (set_fd g i x s) = cnt a s + cnt_in a (?t[i := x]) - cnt_in a ?t" by (simp add: cnt_def set_fd_def map_update)
  then show ?thesis using u le by (simp add: cnt_def)
qed

lemma set_fd_sel [simp]: "vns (set_fd g i x s) = vns s" "bbs (set_fd g i x s) = bbs s" "cnode (set_fd g i x s) = cnode s"
  by (simp_all add: set_fd_def)

lemma upd_vn_sel [simp]: "tabs (upd_vn a f s) = tabs s" "bbs (upd_vn a f s) = bbs s" "cnode (upd_vn a f s) = cnode s"
  "vns (upd_vn a f s) b = (if b = a then map_option f (vns s a) else vns s b)" "cnt b (upd_vn a f s) = cnt b s"
  by (simp_all add: upd_vn_def cnt_def)

lemma inc_ref_sel [simp]: "tabs (inc_ref a s) = tabs s" "bbs (inc_ref a s) = bbs s" "cnode (inc_ref a s) = cnode s" "cnt b (inc_ref a s) = cnt b s"
  by (simp_all add: inc_ref_def)

lemma set_fd_tabs: "g < length (tabs s) \<Longrightarrow> \<forall>t \<in> set (tabs s). length t = MAX_FD \<Longrightarrow> \<forall>t \<in> set (tabs (set_fd g i x s)). length t = MAX_FD"
  by (auto simp: set_fd_def dest!: set_update_subset_insert [THEN subsetD])

lemma set_fd_at: "g < length (tabs s) \<Longrightarrow> i < length (tabs s ! g) \<Longrightarrow>
  fd_at (set_fd g i x s) h j = (if h = g \<and> j = i then x else fd_at s h j)"
  by (auto simp: set_fd_def nth_list_update)

lemma pipes_inv_same:
  assumes "pipes_inv s" "bbs s' = bbs s" "\<And>a. map_option vkind (vns s' a) = map_option vkind (vns s a)"
  shows "pipes_inv s'"
proof -
  have "ends b w s' = ends b w s" for b w by (simp add: ends_def assms(3))
  then show ?thesis using assms(1) unfolding pipes_inv_def assms(2,3) by simp
qed

lemma bal_same: "bal D s \<Longrightarrow> vns s' = vns s \<Longrightarrow> cnode s' = cnode s \<Longrightarrow> (\<And>b. cnt b s' + D' b = cnt b s + D b) \<Longrightarrow> bal D' s'"
  by (simp add: bal_def)

lemma set_fd_remove:
  assumes "fd_ok D s" "g < length (tabs s)" "i < MAX_FD" "fd_at s g i = Some a"
  shows "fd_ok (D(a := D a + 1)) (set_fd g i None s)"
proof -
  have l: "i < length (tabs s ! g)" using assms by (simp add: fd_ok_def)
  have c: "cnt b (set_fd g i None s) + (if b = a then 1 else 0) = cnt b s" for b using cnt_set_fd [OF assms(2) l, of b None] assms(4) by auto
  have "bal (D(a := D a + 1)) (set_fd g i None s)" by (rule bal_same [of D s]) (use assms(1) c in \<open>simp_all add: fd_ok_def c [symmetric]\<close>)
  then show ?thesis using assms set_fd_tabs [OF assms(2)] pipes_inv_same [of s "set_fd g i None s"] by (simp add: fd_ok_def)
qed

lemma set_fd_add:
  assumes "fd_ok D s" "g < length (tabs s)" "i < MAX_FD" "fd_at s g i = None" "D a > 0"
  shows "fd_ok (D(a := D a - 1)) (set_fd g i (Some a) s)"
proof -
  have l: "i < length (tabs s ! g)" using assms by (simp add: fd_ok_def)
  have c: "cnt b (set_fd g i (Some a) s) = cnt b s + (if b = a then 1 else 0)" for b using cnt_set_fd [OF assms(2) l, of b "Some a"] assms(4) by auto
  have "bal (D(a := D a - 1)) (set_fd g i (Some a) s)" by (rule bal_same [of D s]) (use assms(1,5) c in \<open>auto simp: fd_ok_def\<close>)
  then show ?thesis using assms set_fd_tabs [OF assms(2)] pipes_inv_same [of s "set_fd g i (Some a) s"] by (simp add: fd_ok_def)
qed

text \<open>Changing the counts of one vnode.\<close>

lemma bal_vn:
  assumes "bal D s" "vns s' = (vns s)(a := Some v')" "cnode s' = cnode s" "\<And>b. cnt b s' = cnt b s" "vns s a = Some v" "vkind v' = vkind v"
    and "refs v' + int (D a) = refs v + int (D' a)" "refs v' > 0" "\<And>b. b \<noteq> a \<Longrightarrow> D' b = D b"
  shows "bal D' s'"
  unfolding bal_def
proof
  fix b
  have "vn_bal (cnode s = Some b) (cnt b s + D b) (vns s b)" using assms(1) by (simp add: bal_def)
  then show "vn_bal (cnode s' = Some b) (cnt b s' + D' b) (vns s' b)"
    using assms(2-) by (cases "b = a") (auto simp: vn_bal_def split: if_splits)
qed

lemma ok_bal: "fd_ok D s \<Longrightarrow> vn_bal (cnode s = Some a) (cnt a s + D a) (vns s a)"
  by (simp add: fd_ok_def bal_def)

lemma ok_live: "fd_ok D s \<Longrightarrow> cnt a s + D a > 0 \<Longrightarrow> \<exists>v. vns s a = Some v"
  using ok_bal [of D s a] by (cases "vns s a") (simp_all add: vn_bal_def)

lemma ok_pos: "fd_ok D s \<Longrightarrow> vns s a = Some v \<Longrightarrow> refs v > 0"
  using ok_bal [of D s a] by (simp add: vn_bal_def)

lemma inc_ref_ok:
  assumes "fd_ok D s" "vns s a = Some v"
  shows "fd_ok (D(a := D a + 1)) (inc_ref a s)"
proof -
  have v: "vns (inc_ref a s) = (vns s)(a := Some (v\<lparr>refs := refs v + 1\<rparr>))" using assms(2) by (auto simp: inc_ref_def)
  have pos: "refs v > 0" by (rule ok_pos [OF assms])
  have "bal (D(a := D a + 1)) (inc_ref a s)" by (rule bal_vn [OF _ v, of D]) (use assms pos in \<open>auto simp: fd_ok_def\<close>)
  moreover have "pipes_inv (inc_ref a s)" by (rule pipes_inv_same [of s]) (use assms v in \<open>auto simp: fd_ok_def\<close>)
  ultimately show ?thesis using assms(1) v by (auto simp: fd_ok_def)
qed


lemma ends_delete: "vns s' = (vns s)(a := None) \<Longrightarrow> ends b w s' = ends b w s - {a}"
  by (auto simp: ends_def)

lemma vn_delete_ok:
  assumes "pipes_inv s" "vns s a = Some v" "vkind v \<noteq> VKbc" "vkind v = VMem \<Longrightarrow> refs v = 0"
  shows "\<exists>s'. vn_delete a s = Some s' \<and> vns s' = (vns s)(a := None) \<and> tabs s' = tabs s \<and> cnode s' = cnode s \<and> pipes_inv s'"
proof (cases "\<exists>b w. vkind v = VPipe b w")
  case False
  let ?s = "s\<lparr>vns := (vns s)(a := None)\<rparr>"
  have e: "ends b w ?s = ends b w s" for b w using False assms(2) by (auto simp: ends_def)
  have "pipes_inv ?s" using assms(1) by (auto simp: pipes_inv_def e)
  then show ?thesis using False assms(2-4) by (cases "vkind v") (auto simp: vn_delete_def)
next
  case True
  then obtain b w where k: "vkind v = VPipe (Some b) w" using assms(1,2) unfolding pipes_inv_def by (metis not_None_eq option.simps(9))
  then have a: "a \<in> ends b w s" using assms(2) by (simp add: ends_def)
  have ok: "bb_ok (bbs s b) (ends b True s) (ends b False s)" using assms(1) by (simp add: pipes_inv_def)
  then obtain wc rc where bb: "bbs s b = Some (wc, rc)" using a by (cases "bbs s b"; cases w) (auto simp: bb_ok_def)
  have c: "\<not> (if w then wc else rc)" "ends b w s = {a}" using ok bb a by (cases w; auto simp: bb_ok_def split: if_splits)+
  define s' where "s' = s\<lparr>vns := (vns s)(a := None), bbs := (bbs s)(b := (if (wc \<or> w) \<and> (rc \<or> \<not> w) then None else Some (wc \<or> w, rc \<or> \<not> w)))\<rparr>"
  have D: "vn_delete a s = Some s'" using assms(2) k bb c(1) by (simp add: vn_delete_def s'_def Let_def)
  have v: "vns s' = (vns s)(a := None)" by (simp add: s'_def)
  have "bb_ok (bbs s' b) (ends b True s') (ends b False s')"
    using ok bb c k assms(2) unfolding ends_delete [OF v] by (cases w) (auto simp: bb_ok_def s'_def ends_def split: if_splits)
  moreover have "bb_ok (bbs s' e) (ends e True s') (ends e False s')" if "e \<noteq> b" for e
  proof -
    have "ends e u s' = ends e u s" for u using ends_delete [OF v, of e u] k that assms(2) by (auto simp: ends_def)
    then show ?thesis using assms(1) that by (simp add: pipes_inv_def s'_def)
  qed
  ultimately have "bb_ok (bbs s' e) (ends e True s') (ends e False s')" for e by (cases "e = b") auto
  then have "pipes_inv s'" using assms(1) v by (auto simp: pipes_inv_def)
  then show ?thesis using D v by (auto simp: s'_def)
qed

lemma drop_ref_ok:
  assumes "fd_ok D s" "D a > 0"
  shows "\<exists>s'. drop_ref a s = Some s' \<and> fd_ok (D(a := D a - 1)) s' \<and> tabs s' = tabs s \<and> cnode s' = cnode s"
proof -
  obtain v where v: "vns s a = Some v" using ok_live [OF assms(1), of a] assms(2) by auto
  note B = ok_bal [OF assms(1), of a]
  have pos: "refs v > 0" by (rule ok_pos [OF assms(1) v])
  define s1 where "s1 = upd_vn a (\<lambda>v. v\<lparr>refs := refs v - 1\<rparr>) s"
  have C: "vn_close a s = Some (refs v - 1, s1)" using v pos by (simp add: vn_close_def s1_def)
  have s1: "vns s1 = (vns s)(a := Some (v\<lparr>refs := refs v - 1\<rparr>))" "tabs s1 = tabs s" "cnode s1 = cnode s" using v by (auto simp: s1_def upd_vn_def)
  have P: "pipes_inv s1" by (rule pipes_inv_same [of s]) (use assms v in \<open>auto simp: s1_def fd_ok_def\<close>)
  show ?thesis
  proof (cases "refs v = 1")
    case False
    have "bal (D(a := D a - 1)) s1" by (rule bal_vn [OF _ s1(1), of D]) (use assms v s1 False pos in \<open>auto simp: fd_ok_def cnt_def\<close>)
    then have "fd_ok (D(a := D a - 1)) s1" using assms(1) s1 P by (auto simp: fd_ok_def)
    then show ?thesis using C False s1 by (simp add: drop_ref_def)
  next
    case True
    then have nc: "cnode s \<noteq> Some a" "vkind v \<noteq> VKbc" "cnt a s = 0" "D a = 1" using B v assms(2) by (auto simp: vn_bal_def split: if_splits)
    obtain s' where S: "vn_delete a s1 = Some s'" "vns s' = (vns s1)(a := None)" "tabs s' = tabs s1" "cnode s' = cnode s1" "pipes_inv s'"
      using vn_delete_ok [OF P, of a] s1(1) nc(2) True by auto
    have "bal (D(a := D a - 1)) s'"
      unfolding bal_def
    proof
      fix b
      have "cnt b s' = cnt b s" using S(3) s1(2) by (simp add: cnt_def)
      then show "vn_bal (cnode s' = Some b) (cnt b s' + (D(a := D a - 1)) b) (vns s' b)"
        using ok_bal [OF assms(1), of b] S(2,4) s1 nc by (cases "b = a") (simp_all add: vn_bal_def)
    qed
    then have "fd_ok (D(a := D a - 1)) s'" using assms(1) S s1 nc(1) by (auto simp: fd_ok_def)
    then show ?thesis using C S s1 True by (simp add: drop_ref_def)
  qed
qed

text \<open>The tables play no part in giving up a reference.\<close>

lemma vn_delete_tabs: "vn_delete a (s\<lparr>tabs := T\<rparr>) = map_option (\<lambda>s'. s'\<lparr>tabs := T\<rparr>) (vn_delete a s)"
proof (cases "vns s a")
  case (Some v)
  show ?thesis
  proof (cases "vkind v")
    case (VPipe b w)
    then show ?thesis using Some by (cases b) (simp_all add: vn_delete_def Let_def split: option.splits)
  qed (use Some in \<open>simp_all add: vn_delete_def\<close>)
qed (simp add: vn_delete_def)

lemma upd_vn_tabs: "upd_vn a f (s\<lparr>tabs := T\<rparr>) = (upd_vn a f s)\<lparr>tabs := T\<rparr>"
  by (simp add: upd_vn_def)

lemma drop_ref_tabs: "drop_ref a (s\<lparr>tabs := T\<rparr>) = map_option (\<lambda>s'. s'\<lparr>tabs := T\<rparr>) (drop_ref a s)"
  by (cases "vns s a") (simp_all add: drop_ref_def vn_close_def upd_vn_tabs vn_delete_tabs)


subsection \<open>Every call keeps the invariant\<close>

lemma drop_ref_keeps: "drop_ref a s = Some s' \<Longrightarrow> tabs s' = tabs s"
  using arg_cong [OF drop_ref_tabs [where a = a and s = s and T = "tabs s"], of "map_option tabs"] by simp

lemma set_fd_overwrite: "set_fd g i x (set_fd g i y s) = set_fd g i x s"
  by (cases "g < length (tabs s)") (simp_all add: set_fd_def list_update_beyond)

lemma replace_fd:
  assumes "fd_ok D s" "g < length (tabs s)" "i < MAX_FD" "fd_at s g i = Some b"
  shows "\<exists>s1. drop_ref b s = Some s1 \<and> tabs s1 = tabs s \<and> fd_ok D (set_fd g i None s1)"
proof -
  define T where "T = (tabs s)[g := (tabs s ! g)[i := None]]"
  have e: "set_fd g i None s = s\<lparr>tabs := T\<rparr>" by (simp add: set_fd_def T_def)
  have "fd_ok (D(b := D b + 1)) (s\<lparr>tabs := T\<rparr>)" using set_fd_remove [OF assms] by (simp add: e)
  then obtain s' where s': "drop_ref b (s\<lparr>tabs := T\<rparr>) = Some s'" "fd_ok ((D(b := D b + 1))(b := (D(b := D b + 1)) b - 1)) s'"
    using drop_ref_ok [of "D(b := D b + 1)" "s\<lparr>tabs := T\<rparr>" b] by auto
  then obtain s1 where s1: "drop_ref b s = Some s1" "s' = s1\<lparr>tabs := T\<rparr>" by (auto simp: drop_ref_tabs)
  have t: "tabs s1 = tabs s" by (rule drop_ref_keeps [OF s1(1)])
  then have "s' = set_fd g i None s1" using s1(2) by (simp add: set_fd_def T_def)
  then show ?thesis using s1(1) t s'(2) by simp
qed

lemma share_fd:
  assumes "fd_inv s" "g < length (tabs s)" "i < MAX_FD" "fd_at s g i = None" "vns s a = Some v"
  shows "fd_inv (inc_ref a (set_fd g i (Some a) s))"
proof -
  have "fd_ok ((\<lambda>b. 0)(a := 1)) (inc_ref a s)" using inc_ref_ok [OF assms(1,5)] by simp
  from set_fd_add [OF this, of g i a] have "fd_ok (((\<lambda>b. 0)(a := 1))(a := 0)) (set_fd g i (Some a) (inc_ref a s))" using assms(2-4) by simp
  moreover have "set_fd g i (Some a) (inc_ref a s) = inc_ref a (set_fd g i (Some a) s)" by (simp add: set_fd_def inc_ref_def upd_vn_def)
  moreover have "((\<lambda>b :: nat. 0 :: nat)(a := 1))(a := 0) = (\<lambda>b. 0)" by auto
  ultimately show ?thesis by simp
qed

lemma entry_live:
  assumes "fd_ok D s" "g < length (tabs s)" "i < MAX_FD" "fd_at s g i = Some a"
  shows "\<exists>v. vns s a = Some v"
proof -
  have "i < length (tabs s ! g)" using assms by (simp add: fd_ok_def)
  from cnt_set_fd [OF assms(2) this, of a None] have "cnt a s > 0" using assms(4) by auto
  then show ?thesis using ok_live [OF assms(1), of a] by simp
qed

lemma dup2_ok:
  assumes "fd_inv s" "g < length (tabs s)"
  shows "\<exists>r s'. dup2 g oldfd newfd s = Some (r, s') \<and> fd_inv s' \<and> length (tabs s') = length (tabs s) \<and>
     (if oldfd < 0 \<or> oldfd \<ge> int MAX_FD \<or> newfd < 0 \<or> newfd \<ge> int MAX_FD \<or> fd_at s g (nat oldfd) = None then r = E_BADF \<and> s' = s
      else if oldfd = newfd then r = newfd \<and> s' = s
      else r = 0 \<and> tabs s' = (tabs s)[g := (tabs s ! g)[nat newfd := fd_at s g (nat oldfd)]])"
proof (cases "oldfd < 0 \<or> oldfd \<ge> int MAX_FD \<or> newfd < 0 \<or> newfd \<ge> int MAX_FD \<or> fd_at s g (nat oldfd) = None \<or> oldfd = newfd")
  case True
  then show ?thesis using assms(1) by (auto simp: dup2_def)
next
  case False
  let ?i = "nat newfd" and ?j = "nat oldfd"
  have b: "?i < MAX_FD" "?j < MAX_FD" "?i \<noteq> ?j" using False by auto
  then have l: "?i < length (tabs s ! g)" "?j < length (tabs s ! g)" using assms by (simp_all add: fd_ok_def)
  obtain a where a: "fd_at s g ?j = Some a" using False by auto
  have "\<exists>s1. (case fd_at s g ?i of None \<Rightarrow> Some s | Some b \<Rightarrow> drop_ref b s) = Some s1 \<and> tabs s1 = tabs s \<and> fd_inv (set_fd g ?i None s1)"
  proof (cases "fd_at s g ?i")
    case None
    then have "(tabs s ! g)[?i := None] = tabs s ! g" by (metis list_update_id)
    then have "set_fd g ?i None s = s" by (simp add: set_fd_def)
    then show ?thesis using None assms(1) by simp
  next
    case (Some x)
    then show ?thesis using replace_fd [OF assms b(1)] by simp
  qed
  then obtain s1 where s1: "(case fd_at s g ?i of None \<Rightarrow> Some s | Some b \<Rightarrow> drop_ref b s) = Some s1" "tabs s1 = tabs s" "fd_inv (set_fd g ?i None s1)" by blast
  let ?s = "set_fd g ?i None s1"
  have at: "fd_at ?s g ?j = Some a" "fd_at ?s g ?i = None" "g < length (tabs ?s)"
    using set_fd_at [of g s1 ?i None] s1(2) assms(2) l a b by (auto simp: set_fd_def)
  obtain v where "vns ?s a = Some v" using entry_live [OF s1(3) at(3) b(2) at(1)] by blast
  from share_fd [OF s1(3) at(3) b(1) at(2) this] have I: "fd_inv (inc_ref a (set_fd g ?i (Some a) s1))" by (simp only: set_fd_overwrite)
  have "dup2 g oldfd newfd s = Some (0, inc_ref a (set_fd g ?i (Some a) s1))"
    using False s1(1,2) a set_fd_at [of g s1 ?i "Some a"] assms(2) l by (auto simp: dup2_def Let_def)
  then show ?thesis using I False s1(2) a by (simp add: set_fd_def)
qed


lemma close_as_drop:
  assumes "vns s a = Some v" "fd_at s g (nat fd) = Some a" "\<not> bad_fd g fd s" "refs v = 1 \<longrightarrow> active v = 0"
  shows "close_call g fd s = map_option (\<lambda>s1. (CDone 0, set_fd g (nat fd) None s1)) (drop_ref a s)"
proof -
  have "vn_delete a (set_fd g (nat fd) None s1) = map_option (set_fd g (nat fd) None) (vn_delete a s1)" for s1
  proof -
    have "vn_delete a s1 = Some s2 \<Longrightarrow> tabs s2 = tabs s1" for s2
      using arg_cong [OF vn_delete_tabs [where a = a and s = s1 and T = "tabs s1"], of "map_option tabs"] by simp
    then show ?thesis by (cases "vn_delete a s1") (simp_all add: set_fd_def vn_delete_tabs)
  qed
  then show ?thesis using assms by (auto simp: close_call_def close_finish_def drop_ref_def vn_close_def option.map_comp o_def errno)
qed

lemma close_ok:
  assumes "fd_inv s" "g < length (tabs s)"
    and "\<And>v. \<not> bad_fd g fd s \<Longrightarrow> vns s (the (fd_at s g (nat fd))) = Some v \<Longrightarrow> refs v = 1 \<Longrightarrow> active v = 0"
  shows "\<exists>r s'. close_call g fd s = Some (CDone r, s') \<and> fd_inv s' \<and>
     (if bad_fd g fd s then r = E_BADF \<and> s' = s else r = 0 \<and> tabs s' = (tabs s)[g := (tabs s ! g)[nat fd := None]])"
proof (cases "bad_fd g fd s")
  case True
  then show ?thesis using assms(1) by (simp add: close_call_def)
next
  case False
  then obtain a where a: "fd_at s g (nat fd) = Some a" "nat fd < MAX_FD" by (auto simp: bad_fd_def)
  obtain v' where v: "vns s a = Some v'" using entry_live [OF assms(1,2) a(2,1)] by blast
  obtain s1 where "drop_ref a s = Some s1" "tabs s1 = tabs s" "fd_inv (set_fd g (nat fd) None s1)" using replace_fd [OF assms(1,2) a(2,1)] by blast
  moreover have "refs v' = 1 \<longrightarrow> active v' = 0" using assms(3) [OF False] a(1) v by simp
  ultimately show ?thesis using close_as_drop [OF v a(1) False] False by (simp add: set_fd_def)
qed


lemma find_fd_from_cases:
  "sorted L \<Longrightarrow>
   find_fd_from L ex tk t = E_MFILE \<and> (\<forall>i \<in> set L. \<not> (t ! i = None \<and> (ex \<longrightarrow> int i \<noteq> tk))) \<or>
   (\<exists>i \<in> set L. find_fd_from L ex tk t = int i \<and> t ! i = None \<and> (ex \<longrightarrow> int i \<noteq> tk) \<and>
      (\<forall>j \<in> set L. j < i \<longrightarrow> \<not> (t ! j = None \<and> (ex \<longrightarrow> int j \<noteq> tk))))"
  by (induction L) (auto simp: not_less)

lemma find_open_fd_cases:
  obtains "find_open_fd ex tk t = E_MFILE" "\<And>i. 3 \<le> i \<Longrightarrow> i < MAX_FD \<Longrightarrow> t ! i \<noteq> None \<or> ex \<and> int i = tk"
  | i where "find_open_fd ex tk t = int i" "int i \<noteq> E_MFILE" "3 \<le> i" "i < MAX_FD" "t ! i = None" "ex \<Longrightarrow> int i \<noteq> tk"
      "\<And>j. 3 \<le> j \<Longrightarrow> j < i \<Longrightarrow> t ! j \<noteq> None \<or> ex \<and> int j = tk"
proof -
  consider (none) "find_open_fd ex tk t = E_MFILE" "\<forall>i \<in> set [3..<MAX_FD]. \<not> (t ! i = None \<and> (ex \<longrightarrow> int i \<noteq> tk))"
    | (some) i where "i \<in> set [3..<MAX_FD]" "find_open_fd ex tk t = int i" "t ! i = None" "ex \<longrightarrow> int i \<noteq> tk"
        "\<forall>j \<in> set [3..<MAX_FD]. j < i \<longrightarrow> \<not> (t ! j = None \<and> (ex \<longrightarrow> int j \<noteq> tk))"
    using find_fd_from_cases [of "[3..<MAX_FD]" ex tk t] unfolding find_open_fd_def by auto
  then show ?thesis
  proof cases
    case none
    then show ?thesis by (intro that(1)) auto
  next
    case some
    have "int i \<noteq> E_MFILE" by (simp add: errno)
    then show ?thesis using some by (intro that(2)) auto
  qed
qed

lemma vn_new_ok:
  assumes "fd_ok D s" "vns s a = None" "k \<noteq> VKbc" "\<And>b w. k \<noteq> VPipe b w"
  shows "fd_ok (D(a := 1)) (vn_new a k s)"
proof -
  have z: "cnt a s = 0" "D a = 0" using ok_bal [OF assms(1), of a] assms(2) by (auto simp: vn_bal_def)
  have nc: "cnode s \<noteq> Some a" using assms(1,2) by (auto simp: fd_ok_def)
  have c: "cnt b (vn_new a k s) = cnt b s" for b by (simp add: cnt_def vn_new_def)
  have "bal (D(a := 1)) (vn_new a k s)"
    unfolding bal_def
  proof
    fix b
    show "vn_bal (cnode (vn_new a k s) = Some b) (cnt b (vn_new a k s) + (D(a := 1)) b) (vns (vn_new a k s) b)"
      using ok_bal [OF assms(1), of b] z nc assms(3) unfolding c by (cases "b = a") (simp_all add: vn_new_def vn_bal_def)
  qed
  moreover have "ends b w (vn_new a k s) = ends b w s" for b w using assms(2,4) by (auto simp: ends_def vn_new_def)
  then have "pipes_inv (vn_new a k s)" using assms(1,4) by (auto simp: pipes_inv_def fd_ok_def vn_new_def)
  ultimately show ?thesis using assms(1) by (auto simp: fd_ok_def vn_new_def)
qed

lemma open_ok:
  assumes "fd_inv s" "g < length (tabs s)" "k \<noteq> VKbc" "\<And>b w. k \<noteq> VPipe b w" "\<And>a. alloc = Some a \<Longrightarrow> vns s a = None"
  shows "\<exists>r s'. open_vn g k alloc s = Some (r, s') \<and> fd_inv s' \<and> length (tabs s') = length (tabs s) \<and>
     (if alloc = None then r = E_NOMEM \<and> s' = s else if find_open_fd False 0 (tabs s ! g) = E_MFILE then r = E_MFILE \<and> s' = s
      else r = find_open_fd False 0 (tabs s ! g) \<and> tabs s' = (tabs s)[g := (tabs s ! g)[nat r := alloc]] \<and>
        vns s' = (vns s)(the alloc \<mapsto> \<lparr>vkind = k, refs = 1, active = 0\<rparr>))"
proof (cases alloc)
  case None
  then show ?thesis using assms(1) by (simp add: open_vn_def)
next
  case (Some a)
  have N: "fd_ok ((\<lambda>b. 0)(a := 1)) (vn_new a k s)" by (rule vn_new_ok [OF assms(1) assms(5) [OF Some] assms(3,4)])
  have t: "tabs (vn_new a k s) = tabs s" by (simp add: vn_new_def)
  have z: "((\<lambda>b :: nat. 0 :: nat)(a := 1))(a := 0) = (\<lambda>b. 0)" by auto
  show ?thesis
  proof (rule find_open_fd_cases [of False 0 "tabs s ! g"])
    assume m: "find_open_fd False 0 (tabs s ! g) = E_MFILE"
    have "(vns s)(a := None) = vns s" using assms(5) [OF Some] by (simp add: fun_upd_idem)
    then have "(case vn_close a (vn_new a k s) of None \<Rightarrow> None | Some (_, s2) \<Rightarrow> vn_delete a s2) = Some s"
      using assms(3) assms(4) [of "case k of VPipe x y \<Rightarrow> x | _ \<Rightarrow> None" "case k of VPipe x y \<Rightarrow> y | _ \<Rightarrow> True"]
      by (cases k) (simp_all add: vn_close_def vn_new_def upd_vn_def vn_delete_def)
    then have "open_vn g k alloc s = Some (E_MFILE, s)" using Some m t by (simp add: open_vn_def)
    then show ?thesis using assms(1) m Some by simp
  next
    fix i assume i: "find_open_fd False 0 (tabs s ! g) = int i" "int i \<noteq> E_MFILE" "i < MAX_FD" "tabs s ! g ! i = None"
    have "fd_inv (set_fd g i (Some a) (vn_new a k s))" using set_fd_add [OF N, of g i a] assms(2) t i z by simp
    moreover have "open_vn g k alloc s = Some (int i, set_fd g i (Some a) (vn_new a k s))" using Some i t by (simp add: open_vn_def)
    ultimately show ?thesis using i Some t by (simp add: set_fd_def vn_new_def)
  qed
qed

lemma pipe_new_ok:
  assumes "fd_ok D s" "vns s w = None" "vns s r = None" "w \<noteq> r" "bbs s b = None"
    and s': "s' = s\<lparr>bbs := (bbs s)(b := Some (False, False)),
           vns := (vns s)(w := Some \<lparr>vkind = VPipe (Some b) True, refs = 1, active = 0\<rparr>, r := Some \<lparr>vkind = VPipe (Some b) False, refs = 1, active = 0\<rparr>)\<rparr>"
  shows "fd_ok (D(w := 1, r := 1)) s'"
proof -
  have z: "cnt w s = 0" "D w = 0" "cnt r s = 0" "D r = 0" using ok_bal [OF assms(1), of w] ok_bal [OF assms(1), of r] assms(2,3) by (auto simp: vn_bal_def)
  have nc: "cnode s \<noteq> Some w" "cnode s \<noteq> Some r" using assms(1-3) by (auto simp: fd_ok_def)
  have c: "cnt x s' = cnt x s" for x by (simp add: cnt_def s')
  have "bal (D(w := 1, r := 1)) s'"
    unfolding bal_def
  proof
    fix x
    show "vn_bal (cnode s' = Some x) (cnt x s' + (D(w := 1, r := 1)) x) (vns s' x)"
      using ok_bal [OF assms(1), of x] z nc assms(4) unfolding c by (cases "x = w"; cases "x = r") (simp_all add: s' vn_bal_def)
  qed
  moreover have "bb_ok (bbs s' x) (ends x True s') (ends x False s')" for x
  proof (cases "x = b")
    case True
    have "bb_ok (bbs s b) (ends b True s) (ends b False s)" using assms(1) by (simp add: fd_ok_def pipes_inv_def)
    then have "ends b True s = {}" "ends b False s = {}" using assms(5) by (auto simp: bb_ok_def)
    then have "ends b True s' = {w}" "ends b False s' = {r}" using assms(4) by (auto simp: ends_def s')
    then show ?thesis using True by (simp add: bb_ok_def s')
  next
    case False
    then have "ends x u s' = ends x u s" for u using assms(2,3) by (auto simp: ends_def s')
    then show ?thesis using False assms(1) by (simp add: s' fd_ok_def pipes_inv_def)
  qed
  moreover have "map_option vkind (vns s' x) \<noteq> Some (VPipe None u)" for x u using assms(1) by (auto simp: fd_ok_def pipes_inv_def s')
  ultimately show ?thesis using assms(1) nc by (auto simp: fd_ok_def pipes_inv_def s')
qed


text \<open>
  What \<^verbatim>\<open>syscall_pipe\<close> leaves in the tables: nothing on an error, otherwise the read end in the lowest free
  descriptor and the write end in the next one.
\<close>

definition two_free :: "nat \<Rightarrow> fds \<Rightarrow> bool" where
  "two_free g s \<longleftrightarrow> find_open_fd False 0 (tabs s ! g) \<noteq> E_MFILE \<and>
     find_open_fd True (find_open_fd False 0 (tabs s ! g)) (tabs s ! g) \<noteq> E_MFILE"

definition pipe_post :: "nat \<Rightarrow> nat option \<Rightarrow> nat option \<Rightarrow> nat option \<Rightarrow> int \<Rightarrow> fds \<Rightarrow> fds \<Rightarrow> bool" where
  "pipe_post g alloc_w alloc_b alloc_r n s s' \<longleftrightarrow>
     (let i = find_open_fd False 0 (tabs s ! g); j = find_open_fd True i (tabs s ! g)
      in if \<not> two_free g s then n = E_MFILE \<and> s' = s
         else if alloc_w = None then n = E_NOMEM \<and> s' = s
         else n = i + j * 2 ^ 32 \<and> tabs s' = (tabs s)[g := (tabs s ! g)[nat j := alloc_w, nat i := alloc_r]] \<and>
           vns s' = (vns s)(the alloc_w \<mapsto> \<lparr>vkind = VPipe alloc_b True, refs = 1, active = 0\<rparr>,
                            the alloc_r \<mapsto> \<lparr>vkind = VPipe alloc_b False, refs = 1, active = 0\<rparr>) \<and>
           bbs s' = (bbs s)(the alloc_b \<mapsto> (False, False)))"

lemma pipe_ok:
  assumes "fd_inv s" "g < length (tabs s)" "vns s w = None" "vns s r = None" "w \<noteq> r" "bbs s b = None"
  shows "\<exists>n s'. pipe g (Some w) (Some b) (Some r) s = Some (n, s') \<and> fd_inv s' \<and> length (tabs s') = length (tabs s) \<and>
     pipe_post g (Some w) (Some b) (Some r) n s s'"
proof (rule find_open_fd_cases [of False 0 "tabs s ! g"])
  assume "find_open_fd False 0 (tabs s ! g) = E_MFILE"
  then show ?thesis using assms(1) by (simp add: pipe_def pipe_post_def two_free_def)
next
  fix i assume i: "find_open_fd False 0 (tabs s ! g) = int i" "int i \<noteq> E_MFILE" "i < MAX_FD" "tabs s ! g ! i = None"
  show ?thesis
  proof (rule find_open_fd_cases [of True "int i" "tabs s ! g"])
    assume "find_open_fd True (int i) (tabs s ! g) = E_MFILE"
    then show ?thesis using assms(1) i by (simp add: pipe_def pipe_post_def two_free_def)
  next
    fix j assume j: "find_open_fd True (int i) (tabs s ! g) = int j" "int j \<noteq> E_MFILE" "j < MAX_FD" "tabs s ! g ! j = None" "True \<Longrightarrow> int j \<noteq> int i"
    define s2 where "s2 = s\<lparr>bbs := (bbs s)(b := Some (False, False)),
           vns := (vns s)(w := Some \<lparr>vkind = VPipe (Some b) True, refs = 1, active = 0\<rparr>, r := Some \<lparr>vkind = VPipe (Some b) False, refs = 1, active = 0\<rparr>)\<rparr>"
    have N: "fd_ok ((\<lambda>x. 0)(w := 1, r := 1)) s2" by (rule pipe_new_ok [OF assms(1,3-6) s2_def])
    have t: "tabs s2 = tabs s" by (simp add: s2_def)
    have l: "i < length (tabs s ! g)" "j < length (tabs s ! g)" using assms(1,2) i j by (simp_all add: fd_ok_def)
    have A: "fd_ok (((\<lambda>x. 0)(w := 1, r := 1))(w := 0)) (set_fd g j (Some w) s2)" using set_fd_add [OF N, of g j w] assms(2,5) t j by simp
    have at: "fd_at (set_fd g j (Some w) s2) g i = None" "g < length (tabs (set_fd g j (Some w) s2))"
      using set_fd_at [of g s2 j "Some w"] assms(2) t l i j(5) by (auto simp: set_fd_def)
    have "fd_ok ((((\<lambda>x. 0)(w := 1, r := 1))(w := 0))(r := 0)) (set_fd g i (Some r) (set_fd g j (Some w) s2))"
      using set_fd_add [OF A at(2) i(3) at(1), of r] assms(5) by simp
    moreover have "(((\<lambda>x :: nat. 0 :: nat)(w := 1, r := 1))(w := 0))(r := 0) = (\<lambda>x. 0)" by auto
    ultimately have "fd_inv (set_fd g i (Some r) (set_fd g j (Some w) s2))" by simp
    moreover have "pipe g (Some w) (Some b) (Some r) s = Some (int i + int j * 2 ^ 32, set_fd g i (Some r) (set_fd g j (Some w) s2))"
      using i j by (simp add: pipe_def Let_def vn_new_def s2_def)
    moreover have "tabs (set_fd g i (Some r) (set_fd g j (Some w) s2)) = (tabs s)[g := (tabs s ! g)[j := Some w, i := Some r]]"
      using assms(2) by (simp add: set_fd_def s2_def)
    moreover have "vns (set_fd g i (Some r) (set_fd g j (Some w) s2)) = vns s2" "bbs (set_fd g i (Some r) (set_fd g j (Some w) s2)) = bbs s2"
      by simp_all
    ultimately show ?thesis using i j by (simp add: pipe_post_def two_free_def s2_def)
  qed
qed

text \<open>Without memory for the write end the call only reports it.\<close>

lemma pipe_no_vnode: "\<exists>n. pipe g None alloc_b alloc_r s = Some (n, s) \<and> pipe_post g None alloc_b alloc_r n s s"
  by (simp add: pipe_def pipe_post_def two_free_def Let_def)

lemma pipe_full_table:
  "\<not> two_free g s \<Longrightarrow> pipe g alloc_w alloc_b alloc_r s = Some (E_MFILE, s) \<and> pipe_post g alloc_w alloc_b alloc_r E_MFILE s s"
  by (auto simp: two_free_def pipe_def pipe_post_def Let_def)


text \<open>When the buffer or the second vnode cannot be allocated the clean-up of \<^verbatim>\<open>syscall_pipe\<close> uses a null pointer.\<close>

lemma pipe_nomem_panics:
  assumes "two_free g s" "alloc_b = None \<or> alloc_r = None"
  shows "pipe g (Some w) alloc_b alloc_r s = None"
  using assms by (cases alloc_b; cases alloc_r) (simp_all add: pipe_def two_free_def errno Let_def vn_new_def upd_vn_def vn_close_def vn_delete_def)

lemma inc_refs_sel:
  "tabs (inc_refs xs s) = tabs s \<and> bbs (inc_refs xs s) = bbs s \<and> cnode (inc_refs xs s) = cnode s \<and>
   vns (inc_refs xs s) a = map_option (\<lambda>v. v\<lparr>refs := refs v + int (cnt_in a xs)\<rparr>) (vns s a)"
proof (induction xs arbitrary: s)
  case Nil
  then show ?case by (cases "vns s a") (simp_all add: cnt_in_def)
next
  case (Cons x xs)
  show ?case
  proof (cases x)
    case None
    then show ?thesis using Cons [of s] by (simp add: cnt_in_def)
  next
    case (Some b)
    then show ?thesis using Cons [of "inc_ref b s"] by (cases "vns s a") (auto simp: cnt_in_def inc_ref_def upd_vn_def)
  qed
qed

lemma stdio_new:
  "stdio_fds [0, 1, 2] (length T) c (s\<lparr>tabs := T @ [replicate MAX_FD None]\<rparr>) =
   Some (s\<lparr>tabs := T @ [[Some c, Some c, Some c, None, None, None, None, None]]\<rparr>)"
  by (simp add: set_fd_def MAX_FD_def nth_append numeral_eq_Suc list_update_append)

lemma proc_ctor_new:
  "cnode s = Some c \<Longrightarrow> proc_ctor 0 (Some (length T)) (s\<lparr>tabs := T @ [replicate MAX_FD None]\<rparr>) =
   Some ((upd_vn c (\<lambda>v. v\<lparr>refs := refs v + 3\<rparr>) s)\<lparr>tabs := T @ [[Some c, Some c, Some c, None, None, None, None, None]]\<rparr>)"
  by (simp add: proc_ctor_def upd_vn_tabs stdio_new Let_def del: stdio_fds.simps One_nat_def)

lemma cnt_le: "g < length (tabs s) \<Longrightarrow> cnt_in a (tabs s ! g) \<le> cnt a s"
  unfolding cnt_def by (rule member_le_sum_list) auto

lemma fork_ok:
  assumes "fd_inv s" "g < length (tabs s)"
  shows "\<exists>s'. fork_fds g s = Some (length (tabs s), s') \<and> fd_inv s' \<and> tabs s' = tabs s @ [tabs s ! g]"
proof -
  obtain c where c: "cnode s = Some c" "vns s c \<noteq> None" using assms(1) by (auto simp: fd_ok_def)
  define s2 where "s2 = (upd_vn c (\<lambda>v. v\<lparr>refs := refs v + 3\<rparr>) s)\<lparr>tabs := tabs s @ [tabs s ! g]\<rparr>"
  define s' where "s' = inc_refs (tabs s ! g) s2"
  have F: "fork_fds g s = Some (length (tabs s), s')"
    using proc_ctor_new [OF c(1), of "tabs s"] assms(2) by (simp add: fork_fds_def Let_def s'_def s2_def nth_append)
  have sel: "tabs s' = tabs s @ [tabs s ! g]" "bbs s' = bbs s" "cnode s' = Some c"
    using inc_refs_sel [of "tabs s ! g" s2] c by (simp_all add: s'_def s2_def)
  have vn: "vns s' a = map_option (\<lambda>v. v\<lparr>refs := refs v + int (cnt_in a (tabs s ! g)) + (if a = c then 3 else 0)\<rparr>) (vns s a)" for a
    using inc_refs_sel [of "tabs s ! g" s2 a] by (cases "a = c"; cases "vns s a") (simp_all add: s'_def s2_def algebra_simps)
  have ct: "cnt a s' = cnt a s + cnt_in a (tabs s ! g)" for a by (simp add: cnt_def sel)
  have "bal (\<lambda>x. 0) s'"
    unfolding bal_def
  proof
    fix a
    show "vn_bal (cnode s' = Some a) (cnt a s' + 0) (vns s' a)"
      using ok_bal [OF assms(1), of a] cnt_le [OF assms(2), of a] c(1) by (cases "vns s a"; cases "c = a") (simp_all add: vn_bal_def vn ct sel)
  qed
  moreover have "pipes_inv s'" by (rule pipes_inv_same [of s]) (use assms(1) sel vn in \<open>auto simp: fd_ok_def option.map_comp o_def\<close>)
  ultimately have "fd_inv s'" using assms sel vn c by (auto simp: fd_ok_def)
  then show ?thesis using F sel(1) by simp
qed

lemma exit_fds_ok:
  "fd_inv s \<Longrightarrow> g < length (tabs s) \<Longrightarrow> \<forall>i \<in> set L. i < MAX_FD \<Longrightarrow>
   \<exists>s'. exit_fds L g s = Some s' \<and> fd_inv s' \<and> length (tabs s') = length (tabs s) \<and>
     (\<forall>h j. h < length (tabs s) \<longrightarrow> j < MAX_FD \<longrightarrow> fd_at s' h j = (if h = g \<and> j \<in> set L then None else fd_at s h j))"
proof (induction L arbitrary: s)
  case (Cons i L)
  show ?case
  proof (cases "fd_at s g i")
    case None
    then show ?thesis using Cons.IH [OF Cons.prems(1,2)] Cons.prems(3) by auto
  next
    case (Some a)
    obtain s1 where s1: "drop_ref a s = Some s1" "tabs s1 = tabs s" "fd_inv (set_fd g i None s1)"
      using replace_fd [OF Cons.prems(1,2) _ Some] Cons.prems(3) by auto
    have l: "i < length (tabs s1 ! g)" using Cons.prems s1(2) by (simp add: fd_ok_def)
    have len: "length (tabs (set_fd g i None s1)) = length (tabs s)" using s1(2) by (simp add: set_fd_def)
    obtain s' where "exit_fds L g (set_fd g i None s1) = Some s'" "fd_inv s'" "length (tabs s') = length (tabs s)"
      "\<forall>h j. h < length (tabs s) \<longrightarrow> j < MAX_FD \<longrightarrow> fd_at s' h j = (if h = g \<and> j \<in> set L then None else fd_at (set_fd g i None s1) h j)"
      using Cons.IH [OF s1(3)] Cons.prems(2,3) len by auto
    then show ?thesis using Some s1 set_fd_at [of g s1 i None] l Cons.prems(2) by auto
  qed
qed simp


lemma exit_ok:
  assumes "fd_inv s" "g < length (tabs s)"
  shows "\<exists>s'. exit_call g s = Some s' \<and> fd_inv s' \<and> length (tabs s') = length (tabs s) \<and>
     (\<forall>h < length (tabs s). \<forall>j < MAX_FD. fd_at s' h j = (if h = g then None else fd_at s h j))"
proof -
  obtain c v where c: "cnode s = Some c" "vns s c = Some v" using assms(1) by (auto simp: fd_ok_def)
  have "refs v > 0" by (rule ok_pos [OF assms(1) c(2)])
  then show ?thesis using c exit_fds_ok [OF assms, of "[0..<MAX_FD]"] by (auto simp: exit_call_def)
qed

lemma console_slack:
  assumes "fd_ok ((\<lambda>x. 0)(c := n)) s" "cnode s = Some c"
  shows "fd_inv s"
proof -
  have "vn_bal (cnode s = Some a) (cnt a s + 0) (vns s a)" for a
    using ok_bal [OF assms(1), of a] assms(2) by (cases "a = c"; cases "vns s a") (auto simp: vn_bal_def split: if_splits)
  then show ?thesis using assms(1) by (simp add: fd_ok_def bal_def)
qed

lemma stdio_ok:
  "fd_ok ((\<lambda>x. 0)(c := n)) s \<Longrightarrow> length L \<le> n \<Longrightarrow> cnode s = Some c \<Longrightarrow> g < length (tabs s) \<Longrightarrow>
   \<forall>i \<in> set L. i < MAX_FD \<and> (fd_at s g i = None \<or> fd_at s g i = Some c) \<Longrightarrow>
   \<exists>s'. stdio_fds L g c s = Some s' \<and> fd_inv s' \<and> length (tabs s') = length (tabs s)"
proof (induction L arbitrary: s n)
  case Nil
  then show ?case using console_slack [OF Nil(1,3)] by simp
next
  case (Cons i L)
  show ?case
  proof (cases "fd_at s g i = Some c")
    case True
    then show ?thesis using Cons.IH [OF Cons.prems(1)] Cons.prems(2-) by simp
  next
    case False
    then have f: "fd_at s g i = None" "i < MAX_FD" using Cons.prems(5) by auto
    have l: "i < length (tabs s ! g)" using Cons.prems(1,4) f(2) by (simp add: fd_ok_def)
    have "0 < ((\<lambda>x :: nat. 0 :: nat)(c := n)) c" using Cons.prems(2) by simp
    from set_fd_add [OF Cons.prems(1,4) f(2,1) this] have X: "fd_ok ((\<lambda>x. 0)(c := n - 1)) (set_fd g i (Some c) s)" by (simp only: fun_upd_upd fun_upd_same)
    have "length (tabs (set_fd g i (Some c) s)) = length (tabs s)" by (simp add: set_fd_def)
    moreover have "\<forall>j \<in> set L. j < MAX_FD \<and> (fd_at (set_fd g i (Some c) s) g j = None \<or> fd_at (set_fd g i (Some c) s) g j = Some c)"
      using Cons.prems(5) set_fd_at [OF Cons.prems(4) l] by simp
    ultimately have "\<exists>s'. stdio_fds L g c (set_fd g i (Some c) s) = Some s' \<and> fd_inv s' \<and> length (tabs s') = length (tabs (set_fd g i (Some c) s))"
      using Cons.prems(2-4) by (intro Cons.IH [OF X]) simp_all
    then show ?thesis using f(1) by (simp add: set_fd_def)
  qed
qed

lemma thread_ok:
  assumes "fd_inv s" "g < length (tabs s)" "\<forall>i < 3. fd_at s g i = None \<or> fd_at s g i = cnode s"
  shows "\<exists>s'. proc_ctor a (Some g) s = Some s' \<and> fd_inv s' \<and> length (tabs s') = length (tabs s)"
proof -
  obtain c v where c: "cnode s = Some c" "vns s c = Some v" using assms(1) by (auto simp: fd_ok_def)
  define s2 where "s2 = upd_vn c (\<lambda>v. v\<lparr>refs := refs v + 3\<rparr>) s"
  have v: "vns s2 = (vns s)(c := Some (v\<lparr>refs := refs v + 3\<rparr>))" using c by (auto simp: s2_def upd_vn_def)
  have "bal ((\<lambda>x. 0)(c := 3)) s2" by (rule bal_vn [OF _ v, of "\<lambda>x. 0"]) (use assms(1) c ok_pos [OF assms(1) c(2)] in \<open>auto simp: fd_ok_def s2_def\<close>)
  moreover have "pipes_inv s2" by (rule pipes_inv_same [of s]) (use assms c v in \<open>auto simp: fd_ok_def s2_def\<close>)
  ultimately have I: "fd_ok ((\<lambda>x. 0)(c := 3)) s2" using assms(1) c v by (auto simp: fd_ok_def s2_def)
  have "\<exists>s'. stdio_fds [0, 1, 2] g c s2 = Some s' \<and> fd_inv s' \<and> length (tabs s') = length (tabs s2)"
    by (rule stdio_ok [OF I]) (use assms c in \<open>auto simp: s2_def MAX_FD_def\<close>)
  moreover have "proc_ctor a (Some g) s = stdio_fds [0, 1, 2] g c s2" using c by (simp add: proc_ctor_def Let_def s2_def del: stdio_fds.simps)
  ultimately show ?thesis by (simp add: s2_def)
qed

lemma active_ok: "fd_inv s \<Longrightarrow> fd_inv (upd_vn a (\<lambda>v. v\<lparr>active := f v\<rparr>) s)"
proof -
  let ?s = "upd_vn a (\<lambda>v. v\<lparr>active := f v\<rparr>) s"
  assume i: "fd_inv s"
  have "vn_bal (cnode ?s = Some b) (cnt b ?s + 0) (vns ?s b)" for b using ok_bal [OF i, of b] by (cases "vns s b") (auto simp: vn_bal_def)
  moreover have "pipes_inv ?s" by (rule pipes_inv_same [of s]) (use i in \<open>auto simp: fd_ok_def option.map_comp o_def\<close>)
  ultimately show ?thesis using i by (auto simp: fd_ok_def bal_def)
qed

lemma receive_ok:
  assumes "fd_inv s" "srv < length (tabs s)" "cl < length (tabs s)" "fd < MAX_FD"
  shows "fd_inv (snd (receive_fd srv cl fd s))" "length (tabs (snd (receive_fd srv cl fd s))) = length (tabs s)"
proof -
  have "fd_inv (snd (receive_fd srv cl fd s)) \<and> length (tabs (snd (receive_fd srv cl fd s))) = length (tabs s)"
  proof (cases "fd_at s cl fd")
    case None
    then show ?thesis using assms(1) by (simp add: receive_fd_def)
  next
    case (Some a)
    obtain v where v: "vns s a = Some v" using entry_live [OF assms(1,3,4) Some] by blast
    have put: "fd_inv (inc_ref a (set_fd srv i (Some a) s))" if "i < MAX_FD" "fd_at s srv i = None" for i
      by (rule share_fd [OF assms(1,2) that v])
    show ?thesis
    proof (cases "fd_at s srv fd = None")
      case True
      then show ?thesis using put [OF assms(4)] Some by (simp add: receive_fd_def errno set_fd_def)
    next
      case False
      then show ?thesis
      proof (rule_tac find_open_fd_cases [of False 0 "tabs s ! srv"])
        assume "find_open_fd False 0 (tabs s ! srv) = E_MFILE"
        then show ?thesis using False Some assms(1) by (auto simp: receive_fd_def Let_def)
      next
        fix i assume "find_open_fd False 0 (tabs s ! srv) = int i" "int i \<noteq> E_MFILE" "i < MAX_FD" "tabs s ! srv ! i = None"
        then show ?thesis using False Some put [of i] by (auto simp: receive_fd_def set_fd_def Let_def)
      qed
    qed
  qed
  then show "fd_inv (snd (receive_fd srv cl fd s))" "length (tabs (snd (receive_fd srv cl fd s))) = length (tabs s)" by auto
qed


subsection \<open>Histories\<close>

datatype fd_op = OpOpen nat vkind "nat option" | OpDup2 nat int int | OpPipe nat "nat option" "nat option" "nat option" | OpClose nat int | OpFork nat
  | OpExit nat | OpThread nat | OpIoBegin nat int bool | OpIoEnd nat nat | OpReceive nat nat nat

fun fd_exec :: "fd_op \<Rightarrow> fds \<Rightarrow> fds option" where
  "fd_exec (OpOpen g k al) s = map_option snd (open_vn g k al s)"
| "fd_exec (OpDup2 g old new) s = map_option snd (dup2 g old new s)"
| "fd_exec (OpPipe g w b r) s = map_option snd (pipe g w b r s)"
| "fd_exec (OpClose g fd) s = map_option snd (close_call g fd s)"
| "fd_exec (OpFork g) s = map_option snd (fork_fds g s)"
| "fd_exec (OpExit g) s = exit_call g s"
| "fd_exec (OpThread g) s = proc_ctor 0 (Some g) s"
| "fd_exec (OpIoBegin g fd ok) s = Some (snd (io_begin g fd ok s))"
| "fd_exec (OpIoEnd g i) s = io_end g i s"
| "fd_exec (OpReceive srv cl fd) s = Some (snd (receive_fd srv cl fd s))"

text \<open>
  What the callers and the allocator provide: an existing group, indices inside the table, and
  addresses that are not in use. The allocator may fail in any call.
\<close>

abbreviation fresh_vn :: "fds \<Rightarrow> nat option \<Rightarrow> bool" where
  "fresh_vn s x \<equiv> (case x of None \<Rightarrow> True | Some a \<Rightarrow> vns s a = None)"

fun fd_posed :: "fd_op \<Rightarrow> fds \<Rightarrow> bool" where
  "fd_posed (OpOpen g k al) s \<longleftrightarrow> g < length (tabs s) \<and> (case k of VKbc \<Rightarrow> False | VPipe b w \<Rightarrow> False | _ \<Rightarrow> True) \<and> fresh_vn s al"
| "fd_posed (OpPipe g w b r) s \<longleftrightarrow> g < length (tabs s) \<and> fresh_vn s w \<and> fresh_vn s r \<and> (w \<noteq> None \<longrightarrow> w \<noteq> r) \<and>
     (case b of None \<Rightarrow> True | Some x \<Rightarrow> bbs s x = None)"
| "fd_posed (OpDup2 g old new) s \<longleftrightarrow> g < length (tabs s)"
| "fd_posed (OpClose g fd) s \<longleftrightarrow> g < length (tabs s)"
| "fd_posed (OpFork g) s \<longleftrightarrow> g < length (tabs s)"
| "fd_posed (OpExit g) s \<longleftrightarrow> g < length (tabs s)"
| "fd_posed (OpThread g) s \<longleftrightarrow> g < length (tabs s)"
| "fd_posed (OpIoBegin g fd ok) s \<longleftrightarrow> g < length (tabs s)"
| "fd_posed (OpIoEnd g i) s \<longleftrightarrow> g < length (tabs s) \<and> i < MAX_FD"
| "fd_posed (OpReceive srv cl fd) s \<longleftrightarrow> srv < length (tabs s) \<and> cl < length (tabs s) \<and> fd < MAX_FD"

text \<open>A close of the last reference while a read or write of the vnode is running goes to sleep.\<close>

fun fd_sleeps :: "fd_op \<Rightarrow> fds \<Rightarrow> bool" where
  "fd_sleeps (OpClose g fd) s \<longleftrightarrow> \<not> bad_fd g fd s \<and>
     (case vns s (the (fd_at s g (nat fd))) of None \<Rightarrow> False | Some v \<Rightarrow> refs v = 1 \<and> active v \<noteq> 0)"
| "fd_sleeps op s \<longleftrightarrow> False"

text \<open>
  The calls that halt the kernel: a pipe whose buffer or second end cannot be allocated after the
  first was, a new thread in a group whose descriptors 0 to 2 are redirected, and the end of a read or
  write whose descriptor was closed meanwhile.
\<close>

fun fd_halts :: "fd_op \<Rightarrow> fds \<Rightarrow> bool" where
  "fd_halts (OpPipe g w b r) s \<longleftrightarrow> two_free g s \<and> w \<noteq> None \<and> (b = None \<or> r = None)"
| "fd_halts (OpThread g) s \<longleftrightarrow> \<not> list_all (\<lambda>i. fd_at s g i = None \<or> fd_at s g i = cnode s) [0, 1, 2]"
| "fd_halts (OpIoEnd g i) s \<longleftrightarrow> fd_at s g i = None"
| "fd_halts op s \<longleftrightarrow> False"

text \<open>The state after the first \<^verbatim>\<open>proc\<close> is built in \<^verbatim>\<open>kernel_start\<close>.\<close>

definition fd_boot :: "nat \<Rightarrow> fds" where
  "fd_boot a = the (proc_ctor a (Some 0) \<lparr>vns = (\<lambda>x. None), bbs = (\<lambda>x. None), tabs = [replicate MAX_FD None], cnode = None\<rparr>)"

inductive fd_reach :: "fds \<Rightarrow> bool" where
  reach_boot: "fd_reach (fd_boot a)"
| reach_step: "fd_reach s \<Longrightarrow> fd_posed op s \<Longrightarrow> \<not> fd_sleeps op s \<Longrightarrow> fd_exec op s = Some s' \<Longrightarrow> fd_reach s'"

lemma pipe_exec_ok:
  assumes "fd_inv s" "fd_posed (OpPipe g w b r) s" "\<not> fd_halts (OpPipe g w b r) s"
  shows "\<exists>n s'. pipe g w b r s = Some (n, s') \<and> fd_inv s' \<and> pipe_post g w b r n s s'"
proof (cases "two_free g s \<and> w \<noteq> None")
  case False
  then show ?thesis using assms(1) pipe_full_table [of g s w b r] pipe_no_vnode [of g b r s] by (cases w) auto
next
  case True
  then obtain w' b' r' where e: "w = Some w'" "b = Some b'" "r = Some r'" using assms(3) by auto
  then show ?thesis using pipe_ok [OF assms(1), of g w' r' b'] assms(2) by auto
qed

lemma stdio_halts:
  "g < length (tabs s) \<Longrightarrow> \<forall>i \<in> set L. i < length (tabs s ! g) \<Longrightarrow> \<exists>i \<in> set L. fd_at s g i \<noteq> None \<and> fd_at s g i \<noteq> Some c \<Longrightarrow>
   stdio_fds L g c s = None"
proof (induction L arbitrary: s)
  case (Cons i L)
  consider (c) "fd_at s g i = Some c" | (other) "fd_at s g i \<noteq> None" "fd_at s g i \<noteq> Some c" | (free) "fd_at s g i = None" by blast
  then show ?case
  proof cases
    case free
    let ?s = "set_fd g i (Some c) s"
    have "length (tabs ?s) = length (tabs s)" "length (tabs ?s ! g) = length (tabs s ! g)" using Cons.prems(1) by (simp_all add: set_fd_def)
    moreover obtain j where j: "j \<in> set L" "fd_at s g j \<noteq> None" "fd_at s g j \<noteq> Some c" using Cons.prems(3) free by force
    then have "j \<noteq> i" using free by metis
    then have "fd_at ?s g j = fd_at s g j" using set_fd_at [of g s i "Some c" g j] Cons.prems(1,2) by simp
    then have "\<exists>j \<in> set L. fd_at ?s g j \<noteq> None \<and> fd_at ?s g j \<noteq> Some c" using j by metis
    ultimately show ?thesis using Cons.IH [of ?s] Cons.prems(1,2) free by simp
  qed (use Cons in auto)
qed simp

lemma thread_halts:
  assumes "fd_inv s" "fd_posed (OpThread g) s" "fd_halts (OpThread g) s"
  shows "proc_ctor a (Some g) s = None"
proof -
  obtain c where c: "cnode s = Some c" using assms(1) by (auto simp: fd_ok_def)
  define s2 where "s2 = upd_vn c (\<lambda>v. v\<lparr>refs := refs v + 3\<rparr>) s"
  have "stdio_fds [0, 1, 2] g c s2 = None"
    by (rule stdio_halts) (use assms c in \<open>auto simp: s2_def fd_ok_def MAX_FD_def\<close>)
  then show ?thesis using c by (simp add: proc_ctor_def Let_def s2_def del: stdio_fds.simps)
qed

lemma fd_exec_halts:
  assumes "fd_inv s" "fd_posed op s" "fd_halts op s"
  shows "fd_exec op s = None"
proof (cases op)
  case (OpPipe g w b r)
  then show ?thesis using assms(3) pipe_nomem_panics [of g s b r] by auto
next
  case (OpThread g)
  then show ?thesis using thread_halts [OF assms(1), of g 0] assms(2,3) by simp
qed (use assms in \<open>simp_all add: io_end_def\<close>)

lemma fd_exec_ok:
  assumes "fd_inv s" "fd_posed op s" "\<not> fd_sleeps op s" "\<not> fd_halts op s"
  shows "\<exists>s'. fd_exec op s = Some s' \<and> fd_inv s'"
proof (cases op)
  case (OpOpen g k al)
  then have h: "k \<noteq> VKbc" "\<And>b w. k \<noteq> VPipe b w" "\<And>a. al = Some a \<Longrightarrow> vns s a = None" "g < length (tabs s)"
    using assms(2) by (auto split: vkind.splits option.splits)
  from open_ok [where alloc = al, OF assms(1) h(4,1,2,3)] show ?thesis using OpOpen by auto
next
  case (OpDup2 g old new)
  then show ?thesis using dup2_ok [OF assms(1), of g old new] assms(2) by auto
next
  case (OpPipe g w b r)
  then show ?thesis using pipe_exec_ok [OF assms(1), of g w b r] assms(2,4) by auto
next
  case (OpClose g fd)
  then have "g < length (tabs s)" "\<And>v. \<not> bad_fd g fd s \<Longrightarrow> vns s (the (fd_at s g (nat fd))) = Some v \<Longrightarrow> refs v = 1 \<Longrightarrow> active v = 0"
    using assms(2,3) by (auto split: option.splits)
  from close_ok [where fd = fd, OF assms(1) this] obtain r s' where "close_call g fd s = Some (CDone r, s')" "fd_inv s'" by blast
  then show ?thesis using OpClose by simp
next
  case (OpFork g)
  then show ?thesis using fork_ok [OF assms(1), of g] assms(2) by auto
next
  case (OpExit g)
  then show ?thesis using exit_ok [OF assms(1), of g] assms(2) by auto
next
  case (OpThread g)
  then have "\<forall>i < 3. fd_at s g i = None \<or> fd_at s g i = cnode s" using assms(4) by (auto simp: numeral_3_eq_3 less_Suc_eq numeral_2_eq_2)
  then show ?thesis using OpThread thread_ok [OF assms(1), of g 0] assms(2) by auto
next
  case (OpIoBegin g fd ok)
  then show ?thesis using assms(1) active_ok [OF assms(1)] by (simp add: io_begin_def)
next
  case (OpIoEnd g i)
  then show ?thesis using assms(4) active_ok [OF assms(1)] by (auto simp: io_end_def)
next
  case (OpReceive srv cl fd)
  then show ?thesis using receive_ok [OF assms(1)] assms(2) by auto
qed

text \<open>
  The window in \<^verbatim>\<open>syscall_close\<close>: while it sleeps for a running read the entry is still in the table with
  no reference left, and a second close of the descriptor halts the kernel.
\<close>

lemma close_window_panics:
  assumes "vns s a = Some v" "fd_at s g (nat fd) = Some a" "\<not> bad_fd g fd s" "refs v = 1" "active v \<noteq> 0" "vkind v \<noteq> VMem"
  shows "\<exists>s'. close_call g fd s = Some (CBlocked, s') \<and> close_call g fd s' = None"
  using assms by (auto simp: close_call_def close_finish_def vn_close_def upd_vn_def bad_fd_def)

lemma sleep_window:
  assumes "fd_sleeps (OpClose g fd) s" "\<forall>v. vns s (the (fd_at s g (nat fd))) = Some v \<longrightarrow> vkind v \<noteq> VMem"
  shows "\<exists>s'. close_call g fd s = Some (CBlocked, s') \<and> close_call g fd s' = None"
proof -
  obtain a v where v: "fd_at s g (nat fd) = Some a" "vns s a = Some v" "\<not> bad_fd g fd s" "refs v = 1" "active v \<noteq> 0"
    using assms(1) by (auto simp: bad_fd_def split: option.splits)
  then show ?thesis using close_window_panics [OF v(2,1,3-5)] assms(2) by simp
qed

lemma fd_boot_eq: "fd_boot a = \<lparr>vns = [a \<mapsto> \<lparr>vkind = VKbc, refs = 4, active = 0\<rparr>], bbs = (\<lambda>x. None),
    tabs = [[Some a, Some a, Some a, None, None, None, None, None]], cnode = Some a\<rparr>"
  by (simp add: fd_boot_def proc_ctor_def vn_new_def upd_vn_def set_fd_def MAX_FD_def Let_def numeral_eq_Suc)

lemma fd_boot_inv: "fd_inv (fd_boot a)"
proof -
  have "bal (\<lambda>x. 0) (fd_boot a)" by (simp add: fd_boot_eq bal_def vn_bal_def cnt_def cnt_in_def)
  moreover have "pipes_inv (fd_boot a)" by (simp add: fd_boot_eq pipes_inv_def ends_def bb_ok_def)
  ultimately show ?thesis by (simp add: fd_ok_def fd_boot_eq MAX_FD_def)
qed

lemma fd_reach_inv: "fd_reach s \<Longrightarrow> fd_inv s"
proof (induction rule: fd_reach.induct)
  case (reach_boot a)
  show ?case by (rule fd_boot_inv)
next
  case (reach_step s op s')
  then show ?case using fd_exec_ok [of s op] fd_exec_halts [of s op] by (cases "fd_halts op s") auto
qed

subsection \<open>Properties\<close>

subsection \<open>Properties\<close>

text \<open>
  C35. Reference counting. Take any state reached from the start by opens, duplications, pipes, closes, forks,
  exits, thread creations, reads and writes and descriptor transfers, in any order, in which no
  allocation is promised to succeed; what is left out is a close of a last reference that goes to
  sleep because a read or write is running. Then every open descriptor refers to a vnode that
  exists; the reference count of every vnode but the console's is the number of descriptors that
  refer to it, and positive, so no vnode leaks; a pipe buffer exists exactly as long as one of its
  ends. From such a state a call that does not sleep fails an assertion or uses a null pointer
  exactly in three cases (\<open>fd_halts\<close>): a pipe whose buffer or second end cannot be allocated after the
  first was, a thread created while descriptors 0 to 2 are redirected, a read or write whose
  descriptor was emptied before it ended. A close that sleeps keeps its entry in the table with no
  reference left, so that a second close halts the kernel (but for a memory file).
\<close>

theorem fd_refcounts_sound:
  assumes "fd_reach s"
  shows "(\<forall>g < length (tabs s). \<forall>i < MAX_FD. \<forall>a. fd_at s g i = Some a \<longrightarrow> vns s a \<noteq> None) \<and>
     (\<forall>a v. vns s a = Some v \<and> cnode s \<noteq> Some a \<longrightarrow> refs v = int (cnt a s) \<and> cnt a s > 0) \<and>
     (\<forall>b. bbs s b \<noteq> None \<longleftrightarrow> (\<exists>a v w. vns s a = Some v \<and> vkind v = VPipe (Some b) w)) \<and>
     (\<forall>op. fd_posed op s \<and> \<not> fd_sleeps op s \<longrightarrow> (fd_exec op s = None \<longleftrightarrow> fd_halts op s)) \<and>
     (\<forall>g fd. fd_sleeps (OpClose g fd) s \<and> map_option vkind (vns s (the (fd_at s g (nat fd)))) \<noteq> Some VMem \<longrightarrow>
        (\<exists>s'. close_call g fd s = Some (CBlocked, s') \<and> close_call g fd s' = None))"
proof (intro conjI allI impI)
  have I: "fd_inv s" by (rule fd_reach_inv [OF assms])
  show "vns s a \<noteq> None" if "g < length (tabs s)" "i < MAX_FD" "fd_at s g i = Some a" for g i a
    using entry_live [OF I that] by auto
  show "refs v = int (cnt a s)" "cnt a s > 0" if "vns s a = Some v \<and> cnode s \<noteq> Some a" for a v
    using ok_bal [OF I, of a] that by (auto simp: vn_bal_def)
  show "bbs s b \<noteq> None \<longleftrightarrow> (\<exists>a v w. vns s a = Some v \<and> vkind v = VPipe (Some b) w)" for b
  proof -
    have ok: "bb_ok (bbs s b) (ends b True s) (ends b False s)" using I by (simp add: fd_ok_def pipes_inv_def)
    have e: "(\<exists>a v w. vns s a = Some v \<and> vkind v = VPipe (Some b) w) \<longleftrightarrow> ends b True s \<noteq> {} \<or> ends b False s \<noteq> {}"
      by (auto simp: ends_def) (metis (full_types))+
    show ?thesis unfolding e using ok by (cases "bbs s b") (auto simp: bb_ok_def split: if_splits)
  qed
  show "fd_exec op s = None \<longleftrightarrow> fd_halts op s" if "fd_posed op s \<and> \<not> fd_sleeps op s" for op
    using fd_exec_ok [OF I, of op] fd_exec_halts [OF I, of op] that by (cases "fd_halts op s") auto
  show "\<exists>s'. close_call g fd s = Some (CBlocked, s') \<and> close_call g fd s' = None"
    if "fd_sleeps (OpClose g fd) s \<and> map_option vkind (vns s (the (fd_at s g (nat fd)))) \<noteq> Some VMem" for g fd
    by (rule sleep_window) (use that in auto)
qed

theorem fd_refcounts_sound_witness:
  "\<exists>s v. fd_reach s \<and> fd_exec (OpDup2 0 0 4) (fd_boot 100) = Some s \<and> vns s 100 = Some v \<and> refs v = 5 \<and>
     (\<exists>s'. fd_exec (OpPipe 0 (Some 101) (Some 7) (Some 102)) s = Some s') \<and> fd_exec (OpPipe 0 (Some 101) None (Some 102)) s = None"
proof -
  define s where "s = the (fd_exec (OpDup2 0 0 4) (fd_boot 100))"
  have e: "fd_exec (OpDup2 0 0 4) (fd_boot 100) = Some s"
    unfolding s_def by (simp add: fd_boot_eq dup2_def MAX_FD_def Let_def)
  have v: "vns s 100 = Some \<lparr>vkind = VKbc, refs = 5, active = 0\<rparr>" "vns s 101 = None" "vns s 102 = None" "bbs s 7 = None"
    "tabs s = [[Some 100, Some 100, Some 100, None, Some 100, None, None, None]]"
    using e by (auto simp: fd_boot_eq dup2_def MAX_FD_def Let_def set_fd_def inc_ref_def upd_vn_def numeral_eq_Suc)
  have tf: "two_free 0 s" unfolding two_free_def v(5) by (simp add: find_open_fd_def MAX_FD_def upt_rec numeral_eq_Suc errno)
  have r: "fd_reach s" using reach_step [OF reach_boot _ _ e] by (simp add: fd_boot_eq)
  have "\<forall>op. fd_posed op s \<and> \<not> fd_sleeps op s \<longrightarrow> (fd_exec op s = None \<longleftrightarrow> fd_halts op s)" using fd_refcounts_sound [OF r] by blast
  moreover have "fd_posed (OpPipe 0 (Some 101) b (Some 102)) s" if "b = None \<or> b = Some 7" for b using v that by auto
  ultimately have "\<exists>s'. fd_exec (OpPipe 0 (Some 101) (Some 7) (Some 102)) s = Some s'" "fd_exec (OpPipe 0 (Some 101) None (Some 102)) s = None"
    using tf by (simp_all del: fd_exec.simps fd_posed.simps flip: not_None_eq)
  moreover have "refs \<lparr>vkind = VKbc, refs = 5, active = 0\<rparr> = 5" by simp
  ultimately show ?thesis using r e v(1) by blast
qed

text \<open>
  C36. The effect of the calls on the tables, from every reachable state. \<^verbatim>\<open>find_open_fd\<close> gives the lowest free
  descriptor from 3 on (other than the excluded one), or \<^verbatim>\<open>E_MFILE\<close> when there is none. An open installs
  the new vnode, with one reference, in that descriptor and changes no other entry; with no free
  descriptor or no memory it reports the error and changes nothing. A pipe installs the two ends
  on a new buffer in the two lowest free descriptors and returns both, or reports the error and
  changes nothing. A close that need not wait empties the descriptor, \<^verbatim>\<open>dup2\<close> makes the new descriptor
  refer to what the old one refers to; both give \<^verbatim>\<open>E_BADF\<close> for a descriptor that is out of range or not
  open. A fork gives the child the parent's table; an exit leaves the table of the group empty and
  all others as they were.
\<close>

theorem fd_calls_correct:
  assumes "fd_reach s" "g < length (tabs s)"
  shows "(let fd = find_open_fd ex tk (tabs s ! g)
      in if fd = E_MFILE then \<forall>i. 3 \<le> i \<and> i < MAX_FD \<longrightarrow> fd_at s g i \<noteq> None \<or> ex \<and> int i = tk
         else 3 \<le> fd \<and> fd < int MAX_FD \<and> fd_at s g (nat fd) = None \<and> (ex \<longrightarrow> fd \<noteq> tk) \<and>
           (\<forall>j. 3 \<le> j \<and> int j < fd \<longrightarrow> fd_at s g j \<noteq> None \<or> ex \<and> int j = tk)) \<and>
     (fd_posed (OpOpen g k alloc) s \<longrightarrow>
       (\<exists>r s'. open_vn g k alloc s = Some (r, s') \<and>
         (if alloc = None then r = E_NOMEM \<and> s' = s
          else if find_open_fd False 0 (tabs s ! g) = E_MFILE then r = E_MFILE \<and> s' = s
          else r = find_open_fd False 0 (tabs s ! g) \<and> tabs s' = (tabs s)[g := (tabs s ! g)[nat r := alloc]] \<and>
            vns s' = (vns s)(the alloc \<mapsto> \<lparr>vkind = k, refs = 1, active = 0\<rparr>)))) \<and>
     (fd_posed (OpPipe g w b r) s \<and> \<not> fd_halts (OpPipe g w b r) s \<longrightarrow>
       (\<exists>n s'. pipe g w b r s = Some (n, s') \<and> pipe_post g w b r n s s')) \<and>
     (\<not> fd_sleeps (OpClose g oldfd) s \<longrightarrow>
       (\<exists>c s'. close_call g oldfd s = Some (CDone c, s') \<and>
         (if bad_fd g oldfd s then c = E_BADF \<and> s' = s else c = 0 \<and> tabs s' = (tabs s)[g := (tabs s ! g)[nat oldfd := None]]))) \<and>
     (\<exists>d s'. dup2 g oldfd newfd s = Some (d, s') \<and>
       (if oldfd < 0 \<or> oldfd \<ge> int MAX_FD \<or> newfd < 0 \<or> newfd \<ge> int MAX_FD \<or> fd_at s g (nat oldfd) = None then d = E_BADF \<and> s' = s
        else if oldfd = newfd then d = newfd \<and> s' = s
        else d = 0 \<and> tabs s' = (tabs s)[g := (tabs s ! g)[nat newfd := fd_at s g (nat oldfd)]])) \<and>
     (\<exists>s'. fork_fds g s = Some (length (tabs s), s') \<and> tabs s' = tabs s @ [tabs s ! g]) \<and>
     (\<exists>s'. exit_call g s = Some s' \<and> (\<forall>h < length (tabs s). \<forall>j < MAX_FD. fd_at s' h j = (if h = g then None else fd_at s h j)))"
    (is "?find \<and> (_ \<longrightarrow> ?open) \<and> (_ \<longrightarrow> ?pipe) \<and> (_ \<longrightarrow> ?close) \<and> ?dup \<and> ?fork \<and> ?exit")
proof (intro conjI impI)
  have I: "fd_inv s" by (rule fd_reach_inv [OF assms(1)])
  show ?find by (rule find_open_fd_cases [of ex tk "tabs s ! g"]) (auto simp: Let_def)
  show ?open if h: "fd_posed (OpOpen g k alloc) s"
  proof -
    have "k \<noteq> VKbc" "\<And>b w. k \<noteq> VPipe b w" "\<And>a. alloc = Some a \<Longrightarrow> vns s a = None" using h by (auto split: vkind.splits)
    from open_ok [OF I assms(2) this] show ?thesis by blast
  qed
  show ?pipe if "fd_posed (OpPipe g w b r) s \<and> \<not> fd_halts (OpPipe g w b r) s" using pipe_exec_ok [OF I] that by blast
  show ?close if h: "\<not> fd_sleeps (OpClose g oldfd) s"
  proof -
    have "refs v = 1 \<Longrightarrow> active v = 0" if "\<not> bad_fd g oldfd s" "vns s (the (fd_at s g (nat oldfd))) = Some v" for v using h that by simp
    from close_ok [OF I assms(2) this] show ?thesis by blast
  qed
  show ?dup using dup2_ok [OF I assms(2), of oldfd newfd] by blast
  show ?fork using fork_ok [OF I assms(2)] by blast
  show ?exit using exit_ok [OF I assms(2)] by blast
qed

theorem fd_calls_correct_witness:
  "\<exists>s'. open_vn 0 (VSpecial SNull) (Some 9) (fd_boot 5) = Some (3, s') \<and> tabs s' = [[Some 5, Some 5, Some 5, Some 9, None, None, None, None]] \<and>
     vns s' 9 = Some \<lparr>vkind = VSpecial SNull, refs = 1, active = 0\<rparr>"
proof -
  have f: "find_open_fd False 0 (tabs (fd_boot 5) ! 0) = 3" by (simp add: fd_boot_eq find_open_fd_def MAX_FD_def upt_rec numeral_eq_Suc)
  have p: "fd_posed (OpOpen 0 (VSpecial SNull) (Some 9)) (fd_boot 5)" by (simp add: fd_boot_eq)
  have "0 < length (tabs (fd_boot 5))" by (simp add: fd_boot_eq)
  note C = fd_calls_correct [OF reach_boot this, of False 0 "VSpecial SNull" "Some 9", THEN conjunct2, THEN conjunct1, rule_format, OF p, unfolded f]
  obtain r s' where o: "open_vn 0 (VSpecial SNull) (Some 9) (fd_boot 5) = Some (r, s')" and
    c: "if Some (9 :: nat) = None then r = E_NOMEM \<and> s' = fd_boot 5 else if 3 = E_MFILE then r = E_MFILE \<and> s' = fd_boot 5
      else r = 3 \<and> tabs s' = (tabs (fd_boot 5))[0 := (tabs (fd_boot 5) ! 0)[nat r := Some 9]] \<and>
        vns s' = (vns (fd_boot 5))(the (Some 9) \<mapsto> \<lparr>vkind = VSpecial SNull, refs = 1, active = 0\<rparr>)"
    using C by blast
  have r: "r = 3" "tabs s' = (tabs (fd_boot 5))[0 := (tabs (fd_boot 5) ! 0)[3 := Some 9]]"
    "vns s' = (vns (fd_boot 5))(9 \<mapsto> \<lparr>vkind = VSpecial SNull, refs = 1, active = 0\<rparr>)" using c by (simp_all add: errno)
  have "tabs s' = [[Some 5, Some 5, Some 5, Some 9, None, None, None, None]]" unfolding r(2) by (simp add: fd_boot_eq numeral_eq_Suc)
  then show ?thesis using o r(1,3) by (intro exI [of _ s']) simp
qed

end
