(* ===== verification/Spec2Isabelle.thy ===== *)
theory Spec2Isabelle
  imports KList WaitHeap Pipe KAlloc MemRange CMem CFormat BufCache FileIter RWLock Keyboard Vnode DiskFile FdTable
begin

text \<open>
  Verification of the core data structures of the Chickadee teaching kernel.

  \<^bold>\<open>The program.\<close> The kernel (\<^verbatim>\<open>src/*.cc\<close>, \<^verbatim>\<open>src/*.hh\<close>) runs user processes on several processors. At boot it
  collects the physical memory map (\<^verbatim>\<open>k-memrange.hh\<close>) and hands the free pages to the buddy allocator
  (\<^verbatim>\<open>k-alloc.cc\<close>), in front of which slabs serve small requests. System calls enter in \<^verbatim>\<open>kernel.cc\<close> and work on
  the descriptor table of the thread group and, through the vnodes of \<^verbatim>\<open>k-vfs.cc\<close>, on pipes, memory files, the
  keyboard (\<^verbatim>\<open>k-devices.cc\<close>) and disk files. Disk files (\<^verbatim>\<open>k-chkfs.cc\<close>, \<^verbatim>\<open>k-chkfsiter.cc\<close>) are read and written through
  the buffer cache, which talks to the disk driver. The intrusive lists of \<^verbatim>\<open>k-list.hh\<close> and the helper library
  (\<^verbatim>\<open>lib.cc\<close>, \<^verbatim>\<open>lib.hh\<close>) are used everywhere.

  \<^bold>\<open>Conventions.\<close> A kernel function that can fail an assertion, use a null pointer or loop for ever has an
  option type, and \<open>None\<close> is the halted or hanging machine; error codes are ordinary integers. Machine integers
  are words, or natural numbers with the reduction modulo the width written out where it can matter. A
  section under a spinlock is one step. Loops with a bound in the data are total functions with a measure;
  loops that may run for ever are \<^theory_text>\<open>partial_function\<close>s, and the theorems prove that they return. No fuel is
  used. Memory that the code does not initialise, addresses handed out by the allocator and the answers of
  the disk are arguments. A call that sleeps is modelled at its sleeping point: the pipe, the keyboard and
  \<^verbatim>\<open>close\<close> give a result that says so, with the state at that point; the buffer cache also keeps the rest of
  the call as a task that is run again later. Locks themselves are the subject of \<open>RWLock\<close>, where the
  atomic operations of all threads interleave.

  \<^bold>\<open>Theories and the code they model.\<close>

  \<^item> \<open>Prelude\<close>: machine types, error codes, assertions, lists. Imported by all.
  \<^item> \<open>KList\<close>: the intrusive lists of \<^verbatim>\<open>k-list.hh\<close> on an explicit heap of links. They refine sequences; the
    locale \<open>fifo_list\<close> states this contract for its users and is interpreted on the heap operations as \<open>klist\<close>.
    Erasing and swapping are exact, with all other links unchanged, also for empty lists.
  \<^item> \<open>WaitHeap\<close>: the timer heap of \<^verbatim>\<open>k-wait.hh\<close>, a priority queue of wake-up times (locale \<open>timer_queue\<close>, interpreted as
    \<open>timers\<close>): insertion, removal of the least, and \<^verbatim>\<open>top_waketime\<close>.
  \<^item> \<open>Buddy\<close>, \<open>BuddyOps\<close>: the buddy allocator of \<^verbatim>\<open>k-alloc.cc\<close>: block orders, splitting and coalescing, \<^verbatim>\<open>init_kalloc\<close>.
    The invariant says that blocks tile memory and that the free lists hold the free blocks; the theorems say
    which pages are free after each operation, so that none is lost, and that after any history of
    allocations and frees that leaves nothing allocated the free lists are those of the start.
  \<^item> \<open>Slab\<close>, \<open>KAlloc\<close>: the slabs (locale \<open>chunk_pool\<close>, interpreted for both sizes as \<open>small\<close> and \<open>big\<close>) and \<^verbatim>\<open>kalloc\<close>
    and \<^verbatim>\<open>kfree\<close> over slabs and buddy blocks.
  \<^item> \<open>MemRange\<close>: \<^verbatim>\<open>memrangeset\<close>, which refines a function from addresses to types.
  \<^item> \<open>CMem\<close>, \<open>CFormat\<close>, \<open>BitsetView\<close>: the C library of the kernel: memory and strings, numbers and \<^verbatim>\<open>printf\<close>, bitmaps and
    rounding.
  \<^item> \<open>BufCache\<close>: the buffer cache: \<^verbatim>\<open>get_disk_entry\<close>, references, write references, \<^verbatim>\<open>sync\<close>, eviction and prefetching.
    It is transparent: whatever the order of loads, evictions and write-backs, and wherever calls sleep, its
    users see the disk with their stores applied. The rules of use this needs are stated, and lemmas at the
    end of the theory show the faults of the code where a rule is broken.
  \<^item> \<open>FileIter\<close>, \<open>DiskFile\<close>: extents, the file iterator, the extent allocator and \<^verbatim>\<open>disk_vnode\<close>; a file is the
    concatenation of its blocks cut at its size.
  \<^item> \<open>RWLock\<close>: the read/write locks of inodes and of \<^verbatim>\<open>struct rwlock\<close>, atomic step by atomic step.
  \<^item> \<open>Keyboard\<close>, \<open>Pipe\<close>, \<open>Vnode\<close>: the keyboard driver with its wait queue, the bounded buffer of pipes, memory files,
    initial files and special files.
  \<^item> \<open>FdTable\<close>: descriptor tables of all thread groups and the reference counts of the vnodes they share, over
    all histories of calls, failed allocations included; the calls that halt the kernel are characterised.

  \<^bold>\<open>Bounds.\<close> The numbers of the headers are kept: 8 descriptors, 32 cache entries, a 256-byte keyboard buffer, blocks
  of 4096 bytes with 512 extents, one bitmap block of 32768 bits. Theorems about files hold up to 4 GB less
  one block, the range of the size field.

  \<^bold>\<open>What the theorems do not hide.\<close> Where the code is wrong the model is wrong in the same way, and the theorem either
  has the hypothesis that excludes the case or states the outcome; a lemma next to it then shows the fault
  (for instance \<open>pipe_nomem_panics\<close>, \<open>close_window_panics\<close>, \<open>wait_wrong_block\<close>, \<open>sync_race_clean_store\<close>,
  \<open>drop_discards_store\<close>, \<open>full_line_stuck\<close>).

  \<^bold>\<open>Not modelled.\<close> Processes, scheduling, wait queues and signals of \<^verbatim>\<open>kernel.cc\<close>, \<^verbatim>\<open>k-proc.cc\<close>, \<^verbatim>\<open>k-cpu.cc\<close> and \<^verbatim>\<open>k-wait.hh\<close> other
  than their effect on descriptor tables; page tables and the checks of user pointers; inodes, directories and
  path names, so \<^verbatim>\<open>open\<close> is modelled from the allocation of its vnode on; the journal; sockets other than the
  transfer of a descriptor; futexes. Device and processor set-up, interrupt entry and other assembly code, the
  disk and network drivers and the packet code, whose effects are registers and memory of devices; console
  output and the memory viewer; the sanitizers; the user library and the test programs, which only issue
  system calls; the host tools that make and check images. Disk transfers of the cache are single steps, so
  that a task never waits for a block another task is loading.
\<close>

end
